(* ===== verification/Prelude.thy ===== *)
theory Prelude
  imports Main "HOL-Library.FSet" "HOL-Library.Multiset"
begin

text \<open>
  What every component shares: the outcome of a Go call (a normal return or a panic), calls
  that pass an explicit world, results of the Go form (value, error), the \<open>wapp\<close> recovery
  wrappers, and the generic theory of the labelled transition systems by which the
  concurrent components are modelled (reachability, invariants, finite paths, ranking
  functions, well-founded measures). Loops that may not end are values of \<open>go_loop\<close>. The
  collection \<open>go_simps\<close> gathers the equations that evaluate calls.
\<close>

named_theorems go_simps \<comment> \<open>evaluation of calls, outcomes and results\<close>

section \<open>Outcomes of Go calls\<close>

text \<open>
  A call either returns a value or panics. A computation with effects passes the world
  \<open>'w\<close> along; a panic ends the calls it is sequenced with.
\<close>

datatype ('a, 'p) outcome = Ret 'a | Panic 'p

type_synonym ('w, 'a, 'p) go = "'w \<Rightarrow> ('a, 'p) outcome \<times> 'w"

definition go_return :: "'a \<Rightarrow> ('w, 'a, 'p) go" where
  "go_return a w = (Ret a, w)"

definition go_bind :: "('w, 'a, 'p) go \<Rightarrow> ('a \<Rightarrow> ('w, 'b, 'p) go) \<Rightarrow> ('w, 'b, 'p) go" where
  "go_bind m f w =
     (case m w of (Ret a, w') \<Rightarrow> f a w' | (Panic p, w') \<Rightarrow> (Panic p, w'))"

definition go_effect :: "('w \<Rightarrow> 'w) \<Rightarrow> ('w, unit, 'p) go" where
  "go_effect f w = (Ret (), f w)"

text \<open>
  A Go function of result type \<open>(R, error)\<close> returns a pair; the error is \<open>None\<close> for
  \<open>nil\<close>. A function of result type \<open>error\<close> returns the option alone.
\<close>

type_synonym ('r, 'e) result = "'r \<times> 'e option"

lemma go_bind_return [go_simps]: "go_bind (go_return a) f = f a"
  by (rule ext) (simp add: go_bind_def go_return_def)

lemma go_bind_Ret [go_simps]: "m w = (Ret a, w') \<Longrightarrow> go_bind m f w = f a w'"
  by (simp add: go_bind_def)

lemma go_bind_Panic [go_simps]: "m w = (Panic p, w') \<Longrightarrow> go_bind m f w = (Panic p, w')"
  by (simp add: go_bind_def)

lemma go_bind_effect [go_simps]: "go_bind (go_effect g) f w = f () (g w)"
  by (simp add: go_bind_def go_effect_def)

lemma go_bind_right_return: "go_bind m go_return = m"
  by (rule ext) (simp add: go_bind_def go_return_def split: prod.split outcome.split)

lemma go_bind_assoc: "go_bind (go_bind m f) g = go_bind m (\<lambda>x. go_bind (f x) g)"
  by (rule ext) (simp add: go_bind_def split: prod.split outcome.split)

section \<open>The recovery wrappers of wapp\<close>

text \<open>
  \<open>RunWithRecoveryLoggingWithError\<close> turns a panic of the callback into a non-nil error;
  \<open>RunWithFatalLogging\<close> does the same and also logs an error the callback returns;
  \<open>RunWithRecoveryLogging\<close> runs a callback without a result. What the recovery handler
  logs and the error it builds are arguments: \<open>handle\<close> is \<open>handleRecovered\<close>, whose
  result is never \<open>nil\<close>, and \<open>logError\<close> the service logger's error line.
\<close>

definition RunWithRecoveryLoggingWithError ::
  "('ctx \<Rightarrow> 'p \<Rightarrow> 'w \<Rightarrow> 'e \<times> 'w) \<Rightarrow> 'ctx \<Rightarrow> ('ctx \<Rightarrow> ('w, 'e option, 'p) go)
     \<Rightarrow> ('w, 'e option, 'q) go" where
  "RunWithRecoveryLoggingWithError handle ctx runFn w =
     (case runFn ctx w of
        (Ret retErr, w') \<Rightarrow> (Ret retErr, w')
      | (Panic r, w') \<Rightarrow> (case handle ctx r w' of (e, w'') \<Rightarrow> (Ret (Some e), w'')))"

definition RunWithFatalLogging ::
  "('ctx \<Rightarrow> 'p \<Rightarrow> 'w \<Rightarrow> 'e \<times> 'w) \<Rightarrow> ('ctx \<Rightarrow> 'e \<Rightarrow> 'w \<Rightarrow> 'w) \<Rightarrow> 'ctx
     \<Rightarrow> ('ctx \<Rightarrow> ('w, 'e option, 'p) go) \<Rightarrow> ('w, 'e option, 'q) go" where
  "RunWithFatalLogging handle logError ctx runFn w =
     (case runFn ctx w of
        (Ret None, w') \<Rightarrow> (Ret None, w')
      | (Ret (Some e), w') \<Rightarrow> (Ret (Some e), logError ctx e w')
      | (Panic r, w') \<Rightarrow> (case handle ctx r w' of (e, w'') \<Rightarrow> (Ret (Some e), w'')))"

definition RunWithRecoveryLogging ::
  "('ctx \<Rightarrow> 'p \<Rightarrow> 'w \<Rightarrow> 'e \<times> 'w) \<Rightarrow> 'ctx \<Rightarrow> ('ctx \<Rightarrow> ('w, unit, 'p) go)
     \<Rightarrow> ('w, unit, 'q) go" where
  "RunWithRecoveryLogging handle ctx runFn w =
     (case runFn ctx w of
        (Ret _, w') \<Rightarrow> (Ret (), w')
      | (Panic r, w') \<Rightarrow> (Ret (), snd (handle ctx r w')))"

lemma RunWithRecoveryLoggingWithError_returns:
  "\<exists>e w'. RunWithRecoveryLoggingWithError handle ctx runFn w = (Ret e, w')"
  by (simp add: RunWithRecoveryLoggingWithError_def split: prod.split outcome.split)

lemma RunWithFatalLogging_returns:
  "\<exists>e w'. RunWithFatalLogging handle logError ctx runFn w = (Ret e, w')"
  by (simp add: RunWithFatalLogging_def split: prod.split outcome.split option.split)

section \<open>Labelled transition systems\<close>

text \<open>
  A concurrent component is a state type, its initial states and a labelled step relation
  \<open>step s a t\<close>. Most machines here give their steps by a function
  \<open>exec :: 's \<Rightarrow> 'a \<Rightarrow> 's option\<close> (\<open>None\<close>: the action is not enabled), so that a
  run over a list of actions evaluates; \<open>by_exec\<close> is the relation of such a function.
\<close>

inductive reach :: "('s \<Rightarrow> bool) \<Rightarrow> ('s \<Rightarrow> 'a \<Rightarrow> 's \<Rightarrow> bool) \<Rightarrow> 's \<Rightarrow> bool"
  for init :: "'s \<Rightarrow> bool" and step :: "'s \<Rightarrow> 'a \<Rightarrow> 's \<Rightarrow> bool" where
  reach_init: "init s \<Longrightarrow> reach init step s"
| reach_step: "reach init step s \<Longrightarrow> step s a t \<Longrightarrow> reach init step t"

inductive path :: "('s \<Rightarrow> 'a \<Rightarrow> 's \<Rightarrow> bool) \<Rightarrow> 's \<Rightarrow> 'a list \<Rightarrow> 's \<Rightarrow> bool"
  for step :: "'s \<Rightarrow> 'a \<Rightarrow> 's \<Rightarrow> bool" where
  path_Nil: "path step s [] s"
| path_Cons: "step s a t \<Longrightarrow> path step t as u \<Longrightarrow> path step s (a # as) u"

definition by_exec :: "('s \<Rightarrow> 'a \<Rightarrow> 's option) \<Rightarrow> 's \<Rightarrow> 'a \<Rightarrow> 's \<Rightarrow> bool" where
  "by_exec exec s a t \<longleftrightarrow> exec s a = Some t"

fun run :: "('s \<Rightarrow> 'a \<Rightarrow> 's option) \<Rightarrow> 's \<Rightarrow> 'a list \<Rightarrow> 's option" where
  "run exec s [] = Some s"
| "run exec s (a # as) = (case exec s a of None \<Rightarrow> None | Some t \<Rightarrow> run exec t as)"

lemma path_run: "run exec s as = Some t \<Longrightarrow> path (by_exec exec) s as t"
  by (induction as arbitrary: s)
    (auto intro: path.intros simp: by_exec_def split: option.splits)

lemma path_run_where:
  "run exec s as = Some t \<Longrightarrow> list_all P as \<Longrightarrow>
   path (\<lambda>s a t. exec s a = Some t \<and> P a) s as t"
  by (induction as arbitrary: s) (auto intro: path.intros split: option.splits)

lemma path_mono:
  "path step s as t \<Longrightarrow> (\<And>s a t. step s a t \<Longrightarrow> step' s a t) \<Longrightarrow> path step' s as t"
  by (induction rule: path.induct) (auto intro: path.intros)

lemma path_reach: "path step s as t \<Longrightarrow> reach init step s \<Longrightarrow> reach init step t"
  by (induction rule: path.induct) (auto intro: reach_step)

lemma run_reach:
  "init s \<Longrightarrow> run exec s as = Some t \<Longrightarrow> reach init (by_exec exec) t"
  by (rule path_reach [OF path_run reach_init])

lemma path_append: "path step s as t \<Longrightarrow> path step t bs u \<Longrightarrow> path step s (as @ bs) u"
  by (induction rule: path.induct) (auto intro: path.intros)

text \<open>An invariant of a system holds in every reachable state and along every path.\<close>

locale transition_invariant =
  fixes init :: "'s \<Rightarrow> bool" and step :: "'s \<Rightarrow> 'a \<Rightarrow> 's \<Rightarrow> bool" and inv :: "'s \<Rightarrow> bool"
  assumes inv_init: "init s \<Longrightarrow> inv s"
    and inv_step: "inv s \<Longrightarrow> step s a t \<Longrightarrow> inv t"
begin

lemma inv_reach: "reach init step s \<Longrightarrow> inv s"
  by (induction rule: reach.induct) (auto intro: inv_init inv_step)

lemma inv_path: "path step s as t \<Longrightarrow> inv s \<Longrightarrow> inv t"
  by (induction rule: path.induct) (auto intro: inv_step)

end

text \<open>
  A system whose internal steps (the labels in \<open>internal\<close>) all decrease a rank comes to
  rest: a path of internal steps is never longer than the rank it starts with, and it can be
  extended to a state in which no internal step is enabled.
\<close>

locale ranked_system = transition_invariant init step inv
  for init :: "'s \<Rightarrow> bool" and step :: "'s \<Rightarrow> 'a \<Rightarrow> 's \<Rightarrow> bool" and inv :: "'s \<Rightarrow> bool" +
  fixes internal :: "'a \<Rightarrow> bool" and rank :: "'s \<Rightarrow> nat"
  assumes rank_decreases: "inv s \<Longrightarrow> step s a t \<Longrightarrow> internal a \<Longrightarrow> rank t < rank s"
begin

lemma internal_path_bounded:
  "path step s as t \<Longrightarrow> inv s \<Longrightarrow> \<forall>a \<in> set as. internal a \<Longrightarrow> length as + rank t \<le> rank s"
proof (induction rule: path.induct)
  case (path_Nil s)
  then show ?case by simp
next
  case (path_Cons s a t as u)
  from path_Cons.prems path_Cons.hyps(1) have "inv t" and "rank t < rank s"
    by (auto intro: inv_step rank_decreases)
  with path_Cons show ?case by force
qed

lemma comes_to_rest:
  "inv s \<Longrightarrow> \<exists>as t. path step s as t \<and> (\<forall>a \<in> set as. internal a)
     \<and> (\<forall>a u. internal a \<longrightarrow> \<not> step t a u)"
proof (induction "rank s" arbitrary: s rule: less_induct)
  case less
  show ?case
  proof (cases "\<exists>a u. internal a \<and> step s a u")
    case False
    then show ?thesis by (intro exI [of _ "[]"] exI [of _ s]) (auto intro: path_Nil)
  next
    case True
    then obtain a u where a: "internal a" "step s a u" by blast
    with less.prems have "rank u < rank s" and "inv u"
      by (auto intro: rank_decreases inv_step)
    from less.hyps [OF this] obtain as t where
      "path step u as t" "\<forall>a \<in> set as. internal a" "\<forall>a u. internal a \<longrightarrow> \<not> step t a u"
      by blast
    with a show ?thesis by (intro exI [of _ "a # as"]) (auto intro: path_Cons)
  qed
qed

end

text \<open>
  The same with a rank in any well-founded order, and with idle steps, which keep the rank (the
  passing of time, say). An infinite run of internal and idle steps is idle from some point on, and
  internal steps that idle ones enable can be taken until none is left, whatever idles.
\<close>

locale terminating_system = transition_invariant init step inv
  for init :: "'s \<Rightarrow> bool" and step :: "'s \<Rightarrow> 'a \<Rightarrow> 's \<Rightarrow> bool" and inv :: "'s \<Rightarrow> bool" +
  fixes internal idle :: "'a \<Rightarrow> bool" and measured :: "'s \<Rightarrow> 'r" and less :: "('r \<times> 'r) set"
  assumes less_wf: "wf less"
    and internal_less: "inv s \<Longrightarrow> step s a t \<Longrightarrow> internal a \<Longrightarrow> (measured t, measured s) \<in> less"
    and idle_same: "inv s \<Longrightarrow> step s a t \<Longrightarrow> idle a \<Longrightarrow> measured t = measured s"
begin

lemma idle_path: "path step s as t \<Longrightarrow> inv s \<Longrightarrow> \<forall>a \<in> set as. idle a \<Longrightarrow> measured t = measured s"
proof (induction rule: path.induct)
  case (path_Cons s a t as u)
  then have "inv t" and "measured t = measured s" by (auto intro: inv_step idle_same)
  with path_Cons show ?case by simp
qed simp

lemma eventually_idle:
  assumes "inv (f 0)" and run: "\<And>n. step (f n) (act n) (f (Suc n)) \<and> (internal (act n) \<or> idle (act n))"
  shows "\<exists>n. \<forall>m \<ge> n. idle (act m)"
proof -
  have inv: "inv (f n)" for n using assms(1) run by (induction n) (auto intro: inv_step)
  have "\<exists>m \<ge> n. \<forall>k \<ge> m. idle (act k)" for n
    using less_wf
  proof (induction "measured (f n)" arbitrary: n rule: wf_induct_rule)
    case less
    show ?case
    proof (cases "\<exists>m \<ge> n. \<not> idle (act m)")
      case True
      define m where "m = (LEAST m. n \<le> m \<and> \<not> idle (act m))"
      from True have m: "n \<le> m" "\<not> idle (act m)" unfolding m_def by (metis (mono_tags, lifting) LeastI)+
      have before: "idle (act k)" if "n \<le> k" "k < m" for k
        using that not_less_Least [of k "\<lambda>m. n \<le> m \<and> \<not> idle (act m)"] unfolding m_def by blast
      have same: "n \<le> k \<Longrightarrow> k \<le> m \<Longrightarrow> measured (f k) = measured (f n)" for k
      proof (induction k rule: dec_induct)
        case (step k)
        with before [of k] run [of k] inv [of k] idle_same have "measured (f (Suc k)) = measured (f k)"
          by (meson Suc_le_lessD)
        with step show ?case by simp
      qed simp
      from same [OF m(1)] have "measured (f m) = measured (f n)" by simp
      with run [of m] m inv internal_less have "(measured (f (Suc m)), measured (f n)) \<in> less" by metis
      from less [OF this] m show ?thesis by (meson le_SucI le_trans)
    qed auto
  qed
  then show ?thesis by blast
qed

lemma finishes:
  "inv s \<Longrightarrow> \<exists>as t. path step s as t \<and> (\<forall>a \<in> set as. internal a \<or> idle a)
     \<and> (\<forall>bs u a v. path step t bs u \<longrightarrow> (\<forall>b \<in> set bs. idle b) \<longrightarrow> internal a \<longrightarrow> \<not> step u a v)"
  using less_wf
proof (induction "measured s" arbitrary: s rule: wf_induct_rule)
  case less
  show ?case
  proof (cases "\<exists>bs u a v. path step s bs u \<and> (\<forall>b \<in> set bs. idle b) \<and> internal a \<and> step u a v")
    case False
    then show ?thesis by (intro exI [of _ "[]"] exI [of _ s]) (auto intro: path_Nil)
  next
    case True
    then obtain bs u a v where go: "path step s bs u" "\<forall>b \<in> set bs. idle b" "internal a" "step u a v" by blast
    have u: "inv u" "measured u = measured s"
      using inv_path [OF go(1) less.prems] idle_path [OF go(1) less.prems go(2)] by simp_all
    with internal_less [OF u(1) go(4,3)] inv_step [OF u(1) go(4)]
    have "(measured v, measured s) \<in> less" "inv v" by simp_all
    from less.hyps [OF this] obtain as t where rest: "path step v as t" "\<forall>a \<in> set as. internal a \<or> idle a"
      "\<forall>bs u a v. path step t bs u \<longrightarrow> (\<forall>b \<in> set bs. idle b) \<longrightarrow> internal a \<longrightarrow> \<not> step u a v" by blast
    have "path step s (bs @ a # as) t"
      using go rest(1) by (auto intro: path_append path_Cons)
    with go rest show ?thesis by (intro exI [of _ "bs @ a # as"] exI [of _ t]) auto
  qed
qed

end

sublocale ranked_system < wf: terminating_system init step inv internal "\<lambda>_. False" rank less_than
  by unfold_locales (auto dest: rank_decreases)

text \<open>
  A system that embeds another one: what \<open>proj\<close> shows of a state is a state of the embedded
  system, and a step of the outer one changes it by a step of the inner one or not at all. The
  invariant of the inner system then holds in what the outer one reaches.
\<close>

locale embedding = inner: transition_invariant init' step' inv'
  for init' :: "'t \<Rightarrow> bool" and step' :: "'t \<Rightarrow> 'b \<Rightarrow> 't \<Rightarrow> bool" and inv' :: "'t \<Rightarrow> bool" +
  fixes init :: "'s \<Rightarrow> bool" and step :: "'s \<Rightarrow> 'a \<Rightarrow> 's \<Rightarrow> bool" and proj :: "'s \<Rightarrow> 't"
    and assumed :: "'s \<Rightarrow> bool"
  assumes init_embeds: "init s \<Longrightarrow> init' (proj s) \<and> assumed s"
    and step_embeds: "assumed s \<Longrightarrow> step s a t \<Longrightarrow> proj t = proj s \<or> (\<exists>b. step' (proj s) b (proj t))"
    and assumed_kept: "assumed s \<Longrightarrow> inv' (proj s) \<Longrightarrow> step s a t \<Longrightarrow> assumed t"
begin

lemma reach_embeds: "reach init step s \<Longrightarrow> reach init' step' (proj s) \<and> assumed s"
proof (induction rule: reach.induct)
  case (reach_init s)
  then show ?case using init_embeds by (blast intro: reach.reach_init)
next
  case (reach_step s a t)
  then have "inv' (proj s)" by (blast intro: inner.inv_reach)
  with reach_step have "assumed t" by (blast intro: assumed_kept)
  with reach_step step_embeds [of s a t] show ?case by (metis reach.reach_step)
qed

lemma inner_invariant: "reach init step s \<Longrightarrow> inv' (proj s)"
  using reach_embeds inner.inv_reach by blast

lemma outer_invariant: "reach init step s \<Longrightarrow> assumed s"
  using reach_embeds by blast

end

section \<open>Loops that may not end\<close>

text \<open>
  A Go loop \<open>for { body }\<close>: the body passes the world along and either ends the loop with a result
  or goes on; the value is \<open>None\<close> when the loop never ends. \<open>rounds body k\<close> is the world after
  \<open>k\<close> bodies that went on.
\<close>

partial_function (option) go_loop :: "('w \<Rightarrow> 'r option \<times> 'w) \<Rightarrow> 'w \<Rightarrow> ('r \<times> 'w) option" where
  "go_loop body w =
     (case body w of (Some r, w') \<Rightarrow> Some (r, w') | (None, w') \<Rightarrow> go_loop body w')"

fun rounds :: "('w \<Rightarrow> 'r option \<times> 'w) \<Rightarrow> nat \<Rightarrow> 'w \<Rightarrow> 'w option" where
  "rounds body 0 w = Some w"
| "rounds body (Suc k) w =
     (case body w of (None, w') \<Rightarrow> rounds body k w' | (Some r, w') \<Rightarrow> None)"

lemma go_loop_ends: "body w = (Some r, v) \<Longrightarrow> go_loop body w = Some (r, v)"
  by (subst go_loop.simps) simp

lemma go_loop_goes_on: "body w = (None, v) \<Longrightarrow> go_loop body w = go_loop body v"
  by (subst go_loop.simps) simp

lemma go_loop_rounds: "rounds body k w = Some u \<Longrightarrow> go_loop body w = go_loop body u"
  by (induction k arbitrary: w) (auto simp: go_loop_goes_on split: prod.splits option.splits)

lemma go_loop_returns:
  assumes "go_loop body w = Some (r, v)"
  shows "\<exists>k u. rounds body k w = Some u \<and> body u = (Some r, v)"
proof -
  have "case res of (r, v) \<Rightarrow> \<exists>k u. rounds body k w = Some u \<and> body u = (Some r, v)"
    if "go_loop body w = Some res" for res
  proof (rule go_loop.raw_induct [where P = "\<lambda>body w res. case res of (r, v) \<Rightarrow>
        \<exists>k u. rounds body k w = Some u \<and> body u = (Some r, v)", OF _ that])
    fix f body w res
    assume IH: "\<And>body w res. f body w = Some res \<Longrightarrow> case res of (r, v) \<Rightarrow>
        \<exists>k u. rounds body k w = Some u \<and> body u = (Some r, v)"
      and eq: "(case body w of (Some r, w') \<Rightarrow> Some (r, w') | (None, w') \<Rightarrow> f body w') = Some res"
    obtain x w' where b: "body w = (x, w')" by (cases "body w")
    obtain r v where res: "res = (r, v)" by (cases res)
    have "\<exists>k u. rounds body k w = Some u \<and> body u = (Some r, v)"
    proof (cases x)
      case None
      with eq b res have "f body w' = Some (r, v)" by simp
      from IH [OF this] obtain k u where "rounds body k w' = Some u" "body u = (Some r, v)" by auto
      with b None show ?thesis by (intro exI [of _ "Suc k"] exI [of _ u]) simp
    next
      case (Some r')
      with eq b res show ?thesis by (intro exI [of _ 0] exI [of _ w]) simp
    qed
    with res show "case res of (r, v) \<Rightarrow> \<exists>k u. rounds body k w = Some u \<and> body u = (Some r, v)" by simp
  qed
  from this [OF assms] show ?thesis by simp
qed

lemma go_loop_iff:
  "go_loop body w = Some (r, v) \<longleftrightarrow> (\<exists>k u. rounds body k w = Some u \<and> body u = (Some r, v))"
proof
  assume "go_loop body w = Some (r, v)"
  then show "\<exists>k u. rounds body k w = Some u \<and> body u = (Some r, v)" by (rule go_loop_returns)
next
  assume "\<exists>k u. rounds body k w = Some u \<and> body u = (Some r, v)"
  then obtain k u where "rounds body k w = Some u" "body u = (Some r, v)" by blast
  then show "go_loop body w = Some (r, v)" by (simp add: go_loop_rounds [of body k w u] go_loop_ends)
qed

lemma rounds_Suc_end:
  "rounds body k w = Some u \<Longrightarrow> rounds body (Suc k) w = (case body u of (None, v) \<Rightarrow> Some v | _ \<Rightarrow> None)"
proof (induction k arbitrary: w)
  case 0
  then show ?case by (auto split: prod.splits option.splits)
next
  case (Suc k)
  then obtain v where v: "body w = (None, v)" "rounds body k v = Some u"
    by (auto split: prod.splits option.splits)
  from Suc.IH [OF v(2)] v(1) show ?case by simp
qed

lemma go_loop_diverges: "go_loop body w = None \<longleftrightarrow> (\<forall>k. rounds body k w \<noteq> None)"
proof (intro iffI allI)
  fix k assume none: "go_loop body w = None"
  show "rounds body k w \<noteq> None"
  proof (induction k)
    case (Suc k)
    then obtain u where u: "rounds body k w = Some u" by auto
    obtain x v where b: "body u = (x, v)" by (cases "body u")
    from go_loop_rounds [OF u] none have "x = None" by (cases x) (simp_all add: go_loop_ends b)
    with rounds_Suc_end [OF u] b show ?case by simp
  qed simp
next
  assume all: "\<forall>k. rounds body k w \<noteq> None"
  show "go_loop body w = None"
  proof (rule ccontr)
    assume "go_loop body w \<noteq> None"
    then obtain r v where "go_loop body w = Some (r, v)" by auto
    then obtain k u where u: "rounds body k w = Some u" "body u = (Some r, v)"
      using go_loop_returns by metis
    from rounds_Suc_end [OF u(1)] u(2) all [rule_format, of "Suc k"] show False by simp
  qed
qed

section \<open>Lists and finite sets\<close>

lemma distinct_snoc: "distinct (xs @ [x]) \<longleftrightarrow> distinct xs \<and> x \<notin> set xs"
  by auto

lemma nth_update:
  "j < length xs \<Longrightarrow> xs[i := y] ! j = (if i = j then y else xs ! j)"
  by (cases "i = j") simp_all

lemma in_set_update: "y \<in> set (xs[i := x]) \<Longrightarrow> y = x \<or> y \<in> set xs"
  using set_update_subset_insert [of xs i x] by auto

lemma length_filter_update:
  "i < length xs \<Longrightarrow>
   length (filter P (xs[i := y])) + (if P (xs ! i) then 1 else 0) =
     length (filter P xs) + (if P y then 1 else 0)"
proof (induction xs arbitrary: i)
  case Nil
  then show ?case by simp
next
  case (Cons x xs)
  then show ?case by (cases i) auto
qed

lemma mset_concat_map_update:
  "i < length xs \<Longrightarrow>
   mset (concat (map f (xs[i := y]))) + mset (f (xs ! i)) =
     mset (concat (map f xs)) + mset (f y)"
proof (induction xs arbitrary: i)
  case Nil
  then show ?case by simp
next
  case (Cons x xs)
  then show ?case by (cases i) (auto simp: ac_simps)
qed

lemma sum_list_map_update:
  fixes f :: "'a \<Rightarrow> nat"
  shows "i < length xs \<Longrightarrow>
    sum_list (map f (xs[i := y])) + f (xs ! i) = sum_list (map f xs) + f y"
proof (induction xs arbitrary: i)
  case Nil
  then show ?case by simp
next
  case (Cons x xs)
  then show ?case by (cases i) auto
qed

end
