(* ===== verification/Go_Set.thy ===== *)
theory Go_Set
  imports Prelude
begin

text \<open>
  The generic set of \<open>util/collections/set.go\<close>: a Go map from elements to the empty
  struct. A Go map is finite, so the set of its keys is an \<open>fset\<close>; the methods that
  update the receiver return the updated set. A \<open>range\<close> loop over a map visits the keys
  in an order the language leaves open: the loops below take that order as an argument, any
  list that enumerates the keys, and the theorems hold for each of them.
\<close>

type_synonym 'a gset = "'a fset"

definition set_New :: "'a gset" where
  "set_New = {||}"

definition set_Has :: "'a gset \<Rightarrow> 'a \<Rightarrow> bool" where
  "set_Has s item \<longleftrightarrow> item |\<in>| s"

definition set_Insert :: "'a gset \<Rightarrow> 'a \<Rightarrow> 'a gset" where
  "set_Insert s item = finsert item s"

definition set_Delete :: "'a gset \<Rightarrow> 'a \<Rightarrow> 'a gset" where
  "set_Delete s item = s |-| {|item|}"

definition set_Len :: "'a gset \<Rightarrow> nat" where
  "set_Len s = fcard s"

definition enumerates :: "'a list \<Rightarrow> 'a gset \<Rightarrow> bool" where
  "enumerates order s \<longleftrightarrow> distinct order \<and> fset_of_list order = s"

fun Difference_loop :: "'a list \<Rightarrow> 'a gset \<Rightarrow> 'a gset \<Rightarrow> 'a gset" where
  "Difference_loop [] other result = result"
| "Difference_loop (item # rest) other result =
     Difference_loop rest other
       (if \<not> set_Has other item then set_Insert result item else result)"

definition set_Difference :: "'a list \<Rightarrow> 'a gset \<Rightarrow> 'a gset" where
  "set_Difference order other = Difference_loop order other set_New"

fun Intersection_loop :: "'a list \<Rightarrow> 'a gset \<Rightarrow> 'a gset \<Rightarrow> 'a gset" where
  "Intersection_loop [] other result = result"
| "Intersection_loop (item # rest) other result =
     Intersection_loop rest other
       (if set_Has other item then set_Insert result item else result)"

definition set_Intersection :: "'a list \<Rightarrow> 'a gset \<Rightarrow> 'a gset" where
  "set_Intersection order other = Intersection_loop order other set_New"

text \<open>
  The iterator calls \<open>yield\<close> on each key until it returns false; \<open>yield\<close> acts on a
  state of its own.
\<close>

fun set_Iterator :: "'a list \<Rightarrow> ('a \<Rightarrow> 's \<Rightarrow> bool \<times> 's) \<Rightarrow> 's \<Rightarrow> 's" where
  "set_Iterator [] yield st = st"
| "set_Iterator (k # ks) yield st =
     (case yield k st of (more, st') \<Rightarrow> if \<not> more then st' else set_Iterator ks yield st')"

fun Equals_loop :: "'a list \<Rightarrow> 'a gset \<Rightarrow> bool" where
  "Equals_loop [] other = True"
| "Equals_loop (item # rest) other =
     (if \<not> set_Has other item then False else Equals_loop rest other)"

definition set_Equals :: "'a list \<Rightarrow> 'a gset \<Rightarrow> 'a gset \<Rightarrow> bool" where
  "set_Equals order s other =
     (if set_Len s \<noteq> set_Len other then False else Equals_loop order other)"

section \<open>Laws\<close>

lemmas set_op_defs = set_New_def set_Has_def set_Insert_def set_Delete_def set_Len_def

lemma set_Has_New [simp]: "\<not> set_Has set_New x"
  by (simp add: set_op_defs)

lemma set_Has_Insert [simp]: "set_Has (set_Insert s x) y \<longleftrightarrow> y = x \<or> set_Has s y"
  by (simp add: set_op_defs)

lemma set_Has_Delete [simp]: "set_Has (set_Delete s x) y \<longleftrightarrow> y \<noteq> x \<and> set_Has s y"
  by (auto simp: set_op_defs)

lemma set_Len_0 [simp]: "set_Len s = 0 \<longleftrightarrow> s = {||}"
  by (simp add: set_op_defs)

lemma Difference_loop_eq:
  "Difference_loop order other result = result |\<union>| (fset_of_list order |-| other)"
  by (induction order arbitrary: result) (auto simp: set_op_defs)

lemma Intersection_loop_eq:
  "Intersection_loop order other result = result |\<union>| (fset_of_list order |\<inter>| other)"
  by (induction order arbitrary: result) (auto simp: set_op_defs)

lemma Equals_loop_eq: "Equals_loop order other \<longleftrightarrow> fset_of_list order |\<subseteq>| other"
  by (induction order) (auto simp: set_op_defs)

lemma set_Equals_eq:
  assumes "enumerates order s"
  shows "set_Equals order s other \<longleftrightarrow> s = other"
proof
  assume "set_Equals order s other"
  then have "s |\<subseteq>| other" and "fcard other \<le> fcard s"
    using assms by (auto simp: enumerates_def set_Equals_def Equals_loop_eq set_Len_def
        split: if_splits)
  then show "s = other" by (rule fcard_seteq)
next
  assume "s = other"
  with assms show "set_Equals order s other"
    by (simp add: enumerates_def set_Equals_def Equals_loop_eq)
qed

text \<open>A \<open>yield\<close> that never stops the iteration is called once on every key.\<close>

lemma set_Iterator_all:
  "set_Iterator order (\<lambda>k st. (True, st @ [k])) st = st @ order"
  by (induction order arbitrary: st) auto

lemma set_Iterator_prefix:
  "set_Iterator order (\<lambda>k st. (P k, st @ [k])) st =
     st @ takeWhile P order @ take 1 (dropWhile P order)"
  by (induction order arbitrary: st) auto

text \<open>
  For whatever order the runtime visits the keys in, \<open>Difference\<close> and
  \<open>Intersection\<close> compute the set difference and intersection, and \<open>Equals\<close> (which
  compares the sizes and then looks for a missing key) decides equality of the sets.
\<close>

theorem set_algebra:
  assumes "enumerates order s"
  shows "set_Difference order other = s |-| other
    \<and> set_Intersection order other = s |\<inter>| other
    \<and> (set_Equals order s other \<longleftrightarrow> s = other)"
  using assms
  by (simp add: set_Difference_def set_Intersection_def Difference_loop_eq
      Intersection_loop_eq set_Equals_eq set_New_def) (simp add: enumerates_def)

theorem set_algebra_witness:
  "set_Difference [3, 1, 2] {|2, 5|} = {|1, 2, 3|} |-| {|2, 5 :: nat|}"
proof -
  have "enumerates [3, 1, 2] {|1, 2, 3 :: nat|}"
    by (auto simp: enumerates_def)
  from set_algebra [OF this] show ?thesis by simp
qed

end
