(* ===== verification/Collapsing_Queue.thy ===== *)
theory Collapsing_Queue
  imports Go_Set
begin

text \<open>
  The core of \<open>internal/queue/collapsing_queue.go\<close> with its slice wrapper
  (\<open>queue_type_wrapper.go\<close>): the fields guarded by \<open>cond.L\<close> and the code each method
  runs while it holds that lock, as one function of the state. The calls on the condition
  variable are results of these functions: \<open>Signal\<close> and \<open>Broadcast\<close> as the \<open>wake\<close>
  they ask for, \<open>Wait\<close> as the answer \<open>Waits\<close> of one evaluation of the loop around it.
  \<open>Queue_Threads\<close> runs the functions from several goroutines with a model of the
  condition variable; \<open>Delayed_Queue\<close> extends the record by the delayed entries.
\<close>

section \<open>The slice wrapper\<close>

definition Push :: "'a list \<Rightarrow> 'a \<Rightarrow> 'a list" where
  "Push q item = q @ [item]"

text \<open>\<open>Pop\<close> of an empty slice panics (index out of range): \<open>None\<close>.\<close>

fun Pop :: "'a list \<Rightarrow> ('a \<times> 'a list) option" where
  "Pop [] = None"
| "Pop (item # rest) = Some (item, rest)"

section \<open>State and operations\<close>

record 'a collapsingQueue =
  queue :: "'a list"
  dirty :: "'a gset"
  processing :: "'a gset"
  shuttingDown :: bool
  drain :: bool

datatype wake = NoWake | Signal | Broadcast

datatype 'a get_result =
    Waits           \<comment> \<open>the loop condition holds: \<open>cond.Wait()\<close>\<close>
  | Item 'a         \<comment> \<open>returns the item, shutdown false\<close>
  | ShutDownSeen    \<comment> \<open>returns the zero value, shutdown true\<close>
  | PopPanics       \<comment> \<open>\<open>Pop\<close> on an empty slice\<close>

definition NewCollapsingQueue :: "'a collapsingQueue" where
  "NewCollapsingQueue =
     \<lparr>queue = [], dirty = set_New, processing = set_New, shuttingDown = False, drain = False\<rparr>"

definition cq_Add :: "'a \<Rightarrow> ('a, 'm) collapsingQueue_scheme
    \<Rightarrow> wake \<times> ('a, 'm) collapsingQueue_scheme" where
  "cq_Add item q =
     (if shuttingDown q then (NoWake, q)
      else if set_Has (dirty q) item then (NoWake, q)
      else
        let q' = q\<lparr>dirty := set_Insert (dirty q) item\<rparr>
        in if set_Has (processing q') item then (NoWake, q')
           else (Signal, q'\<lparr>queue := Push (queue q') item\<rparr>))"

definition cq_Len :: "('a, 'm) collapsingQueue_scheme \<Rightarrow> nat" where
  "cq_Len q = length (queue q)"

text \<open>
  One pass of \<open>GetWithCallback\<close>: the loop test, then the body after the loop. The callback
  runs under the lock, on a state of its own; \<open>None\<close> is the nil callback.
\<close>

definition cq_GetWithCallback :: "('c \<Rightarrow> 'c) option \<Rightarrow> ('a, 'm) collapsingQueue_scheme \<Rightarrow> 'c
    \<Rightarrow> 'a get_result \<times> ('a, 'm) collapsingQueue_scheme \<times> 'c" where
  "cq_GetWithCallback callback q c =
     (if length (queue q) = 0 \<and> \<not> shuttingDown q then (Waits, q, c)
      else if length (queue q) = 0 then (ShutDownSeen, q, c)
      else case Pop (queue q) of
        None \<Rightarrow> (PopPanics, q, c)
      | Some (item, rest) \<Rightarrow>
          (Item item,
           q\<lparr>queue := rest, processing := set_Insert (processing q) item,
             dirty := set_Delete (dirty q) item\<rparr>,
           case callback of None \<Rightarrow> c | Some f \<Rightarrow> f c))"

definition cq_Get :: "('a, 'm) collapsingQueue_scheme
    \<Rightarrow> 'a get_result \<times> ('a, 'm) collapsingQueue_scheme" where
  "cq_Get q = (case cq_GetWithCallback None q () of (r, q', _) \<Rightarrow> (r, q'))"

definition cq_Done :: "'a \<Rightarrow> ('a, 'm) collapsingQueue_scheme
    \<Rightarrow> wake \<times> ('a, 'm) collapsingQueue_scheme" where
  "cq_Done item q =
     (let q' = q\<lparr>processing := set_Delete (processing q) item\<rparr>
      in if set_Has (dirty q') item then (Signal, q'\<lparr>queue := Push (queue q') item\<rparr>)
         else if set_Len (processing q') = 0 then (Signal, q')
         else (NoWake, q'))"

text \<open>
  The part of \<open>ShutDown\<close> and \<open>ShutDownWithDrain\<close> that holds \<open>cond.L\<close>, and the loop test
  with which \<open>ShutDownWithDrain\<close> goes on waiting.
\<close>

definition cq_ShutDown :: "('a, 'm) collapsingQueue_scheme
    \<Rightarrow> wake \<times> ('a, 'm) collapsingQueue_scheme" where
  "cq_ShutDown q = (Broadcast, q\<lparr>drain := False, shuttingDown := True\<rparr>)"

definition cq_ShutDownWithDrain :: "('a, 'm) collapsingQueue_scheme
    \<Rightarrow> wake \<times> ('a, 'm) collapsingQueue_scheme" where
  "cq_ShutDownWithDrain q = (Broadcast, q\<lparr>drain := True, shuttingDown := True\<rparr>)"

definition cq_drain_waits :: "('a, 'm) collapsingQueue_scheme \<Rightarrow> bool" where
  "cq_drain_waits q \<longleftrightarrow> set_Len (processing q) \<noteq> 0 \<and> drain q"

definition cq_ShuttingDown :: "('a, 'm) collapsingQueue_scheme \<Rightarrow> bool" where
  "cq_ShuttingDown q = shuttingDown q"

lemmas cq_defs = cq_Add_def cq_Get_def cq_GetWithCallback_def cq_Done_def cq_ShutDown_def
  cq_ShutDownWithDrain_def Push_def

section \<open>The invariant\<close>

text \<open>
  The comments on the fields say that the queue holds items of the dirty set that are not
  being processed. The invariant adds the converse, that every such item is in the queue, and
  that it is there once: no item is lost, and none is handed out twice.
\<close>

definition cq_inv :: "('a, 'm) collapsingQueue_scheme \<Rightarrow> bool" where
  "cq_inv q \<longleftrightarrow> distinct (queue q) \<and> fset_of_list (queue q) = dirty q |-| processing q"

lemma cq_inv_mem:
  "cq_inv q \<Longrightarrow> x \<in> set (queue q) \<longleftrightarrow> x |\<in>| dirty q \<and> x |\<notin>| processing q"
  unfolding cq_inv_def by (metis fminus_iff fset_of_list_elem)

lemma cq_inv_iff:
  "cq_inv q \<longleftrightarrow> distinct (queue q) \<and>
     (\<forall>x. x \<in> set (queue q) \<longleftrightarrow> x |\<in>| dirty q \<and> x |\<notin>| processing q)"
  by (auto simp: cq_inv_def fset_eq_iff fset_of_list_elem)

lemma cq_inv_New [simp]: "cq_inv NewCollapsingQueue"
  by (simp add: cq_inv_iff NewCollapsingQueue_def set_op_defs)

lemma cq_inv_Add [intro]: "cq_inv q \<Longrightarrow> cq_inv (snd (cq_Add item q))"
  by (auto simp: cq_inv_iff cq_defs Let_def set_op_defs)

lemma cq_inv_GetWithCallback [intro]:
  assumes "cq_inv q"
  shows "cq_inv (fst (snd (cq_GetWithCallback cb q c)))"
proof (cases "queue q")
  case Nil
  with assms show ?thesis by (simp add: cq_defs)
next
  case (Cons x xs)
  from assms Cons have "x \<notin> set xs" and "\<And>y. y \<in> set xs \<Longrightarrow> y |\<in>| dirty q \<and> y |\<notin>| processing q"
    and "\<And>y. y |\<in>| dirty q \<Longrightarrow> y |\<notin>| processing q \<Longrightarrow> y = x \<or> y \<in> set xs"
    by (auto simp: cq_inv_iff)
  with assms Cons show ?thesis
    by (auto simp: cq_inv_iff cq_defs set_op_defs)
qed

lemma cq_inv_Done [intro]:
  "cq_inv q \<Longrightarrow> item |\<in>| processing q \<Longrightarrow> cq_inv (snd (cq_Done item q))"
  by (auto simp: cq_inv_iff cq_defs Let_def set_op_defs)

lemma cq_inv_ShutDown [intro]: "cq_inv q \<Longrightarrow> cq_inv (snd (cq_ShutDown q))"
  by (simp add: cq_inv_iff cq_defs)

lemma cq_inv_ShutDownWithDrain [intro]: "cq_inv q \<Longrightarrow> cq_inv (snd (cq_ShutDownWithDrain q))"
  by (simp add: cq_inv_iff cq_defs)

section \<open>What the operations do\<close>

lemma cq_Get_Cons:
  "queue q = item # rest \<Longrightarrow>
   cq_GetWithCallback cb q c =
     (Item item, q\<lparr>queue := rest, processing := finsert item (processing q),
        dirty := dirty q |-| {|item|}\<rparr>, case cb of None \<Rightarrow> c | Some f \<Rightarrow> f c)"
  by (simp add: cq_GetWithCallback_def set_op_defs)

lemma cq_Get_Nil:
  "queue q = [] \<Longrightarrow>
   cq_GetWithCallback cb q c = (if shuttingDown q then ShutDownSeen else Waits, q, c)"
  by (simp add: cq_GetWithCallback_def)

lemma cq_GetWithCallback_result:
  "fst (cq_GetWithCallback cb q c) =
     (case queue q of [] \<Rightarrow> (if shuttingDown q then ShutDownSeen else Waits) | x # _ \<Rightarrow> Item x)"
  by (cases "queue q") (simp_all add: cq_Get_Nil cq_Get_Cons)

lemma cq_GetWithCallback_never_panics: "fst (cq_GetWithCallback cb q c) \<noteq> PopPanics"
  by (simp add: cq_GetWithCallback_result split: list.split)

text \<open>The callback runs exactly when an item is handed out.\<close>

lemma cq_GetWithCallback_callback:
  "snd (snd (cq_GetWithCallback (Some f) q c)) = (if queue q = [] then c else f c)"
  by (cases "queue q") (simp_all add: cq_Get_Nil cq_Get_Cons)

lemma cq_Add_frame [simp]:
  "processing (snd (cq_Add x q)) = processing q"
  "shuttingDown (snd (cq_Add x q)) = shuttingDown q"
  "drain (snd (cq_Add x q)) = drain q"
  by (simp_all add: cq_Add_def Let_def)

lemma cq_Done_frame [simp]:
  "dirty (snd (cq_Done x q)) = dirty q"
  "shuttingDown (snd (cq_Done x q)) = shuttingDown q"
  "drain (snd (cq_Done x q)) = drain q"
  by (simp_all add: cq_Done_def Let_def)

lemma cq_Get_frame [simp]:
  "shuttingDown (fst (snd (cq_GetWithCallback cb q c))) = shuttingDown q"
  "drain (fst (snd (cq_GetWithCallback cb q c))) = drain q"
  by (cases "queue q"; simp add: cq_Get_Nil cq_Get_Cons)+

lemma cq_Add_dirty [simp]:
  "dirty (snd (cq_Add x q)) = (if shuttingDown q then dirty q else finsert x (dirty q))"
  by (auto simp: cq_Add_def Let_def set_op_defs)

lemma cq_Done_processing [simp]: "processing (snd (cq_Done x q)) = processing q |-| {|x|}"
  by (simp add: cq_Done_def Let_def set_op_defs)

lemma cq_Add_queue:
  "queue (snd (cq_Add x q)) =
     (if shuttingDown q \<or> x |\<in>| dirty q \<or> x |\<in>| processing q then queue q else queue q @ [x])"
  by (simp add: cq_Add_def Push_def Let_def set_op_defs)

lemma cq_Done_queue:
  "queue (snd (cq_Done x q)) = (if x |\<in>| dirty q then queue q @ [x] else queue q)"
  by (simp add: cq_Done_def Push_def Let_def set_op_defs)

section \<open>The abstract specification\<close>

text \<open>
  What a client of the queue relies on, without the order: the items that wait for
  processing, the items being processed, and whether the queue is closed.
\<close>

record 'a work_set =
  pending :: "'a fset"
  busy :: "'a fset"
  closed :: bool

definition ws_add :: "'a \<Rightarrow> 'a work_set \<Rightarrow> 'a work_set" where
  "ws_add x w = (if closed w then w else w\<lparr>pending := finsert x (pending w)\<rparr>)"

definition ws_takeable :: "'a work_set \<Rightarrow> 'a fset" where
  "ws_takeable w = pending w |-| busy w"

definition ws_take :: "'a \<Rightarrow> 'a work_set \<Rightarrow> 'a work_set" where
  "ws_take x w = w\<lparr>pending := pending w |-| {|x|}, busy := finsert x (busy w)\<rparr>"

definition ws_done :: "'a \<Rightarrow> 'a work_set \<Rightarrow> 'a work_set" where
  "ws_done x w = w\<lparr>busy := busy w |-| {|x|}\<rparr>"

definition cq_abs :: "('a, 'm) collapsingQueue_scheme \<Rightarrow> 'a work_set" where
  "cq_abs q = \<lparr>pending = dirty q, busy = processing q, closed = shuttingDown q\<rparr>"

lemma cq_abs_Add: "cq_abs (snd (cq_Add x q)) = ws_add x (cq_abs q)"
  by (simp add: cq_abs_def ws_add_def)

lemma cq_abs_Done: "cq_abs (snd (cq_Done x q)) = ws_done x (cq_abs q)"
  by (simp add: cq_abs_def ws_done_def)

lemma cq_abs_Get_Item:
  assumes "cq_inv q" and "cq_GetWithCallback cb q c = (Item x, q', c')"
  shows "x |\<in>| ws_takeable (cq_abs q) \<and> cq_abs q' = ws_take x (cq_abs q)"
proof (cases "queue q")
  case Nil
  with assms(2) show ?thesis by (simp add: cq_Get_Nil split: if_splits)
next
  case (Cons y ys)
  with assms(2) have "y = x" and "q' = q\<lparr>queue := ys, processing := finsert x (processing q),
      dirty := dirty q |-| {|x|}\<rparr>"
    by (auto simp: cq_Get_Cons)
  moreover have "x |\<in>| dirty q |-| processing q"
    using assms(1) Cons \<open>y = x\<close> cq_inv_mem [of q x] by simp
  ultimately show ?thesis
    by (simp add: cq_abs_def ws_take_def ws_takeable_def)
qed

lemma ws_takeable_empty: "cq_inv q \<Longrightarrow> ws_takeable (cq_abs q) = {||} \<longleftrightarrow> queue q = []"
  using cq_inv_mem [of q]
  by (cases "queue q") (auto simp: cq_abs_def ws_takeable_def)

section \<open>The contract of a deduplicating work queue\<close>

text \<open>
  The interface \<open>CollapsingQueue\<close> as its clients use it: the items in the order in which
  they will be handed out, those with an unprocessed addition (\<open>pend\<close>), and those
  handed out and not yet done (\<open>act\<close>).
\<close>

locale work_queue =
  fixes add :: "'a \<Rightarrow> 'q \<Rightarrow> 'q" and get :: "'q \<Rightarrow> 'a get_result \<times> 'q"
    and finish :: "'a \<Rightarrow> 'q \<Rightarrow> 'q" and shut :: "'q \<Rightarrow> bool"
    and contents :: "'q \<Rightarrow> 'a list" and pend :: "'q \<Rightarrow> 'a fset" and act :: "'q \<Rightarrow> 'a fset"
    and inv :: "'q \<Rightarrow> bool"
  assumes distinct_contents: "inv q \<Longrightarrow> distinct (contents q)"
    and set_contents: "inv q \<Longrightarrow> fset_of_list (contents q) = pend q |-| act q"
    and inv_add: "inv q \<Longrightarrow> inv (add x q)"
    and inv_get: "inv q \<Longrightarrow> get q = (r, q') \<Longrightarrow> inv q'"
    and inv_finish: "inv q \<Longrightarrow> x |\<in>| act q \<Longrightarrow> inv (finish x q)"
    and add_contents: "inv q \<Longrightarrow> contents (add x q) =
      (if shut q \<or> x |\<in>| pend q \<or> x |\<in>| act q then contents q else contents q @ [x])"
    and add_pend: "inv q \<Longrightarrow> pend (add x q) = (if shut q then pend q else finsert x (pend q))"
    and add_act: "inv q \<Longrightarrow> act (add x q) = act q"
    and add_shut: "inv q \<Longrightarrow> shut (add x q) = shut q"
    and get_empty: "inv q \<Longrightarrow> contents q = [] \<Longrightarrow>
      get q = (if shut q then ShutDownSeen else Waits, q)"
    and get_item: "inv q \<Longrightarrow> contents q = x # xs \<Longrightarrow> \<exists>q'. get q = (Item x, q')
      \<and> contents q' = xs \<and> pend q' = pend q |-| {|x|} \<and> act q' = finsert x (act q)
      \<and> shut q' = shut q"
    and finish_contents: "inv q \<Longrightarrow> x |\<in>| act q \<Longrightarrow> contents (finish x q) =
      (if x |\<in>| pend q then contents q @ [x] else contents q)"
    and finish_pend: "inv q \<Longrightarrow> pend (finish x q) = pend q"
    and finish_act: "inv q \<Longrightarrow> act (finish x q) = act q |-| {|x|}"
    and finish_shut: "inv q \<Longrightarrow> shut (finish x q) = shut q"

text \<open>
  A consumer: it takes an item, processes it and marks it done, until the queue reports the
  shutdown. Result: the items it processed, in order; \<open>None\<close> when it would block in
  \<open>Get\<close> or runs out of fuel.
\<close>

fun consume :: "('q \<Rightarrow> 'a get_result \<times> 'q) \<Rightarrow> ('a \<Rightarrow> 'q \<Rightarrow> 'q) \<Rightarrow> nat \<Rightarrow> 'q
    \<Rightarrow> ('a list \<times> 'q) option" where
  "consume get finish 0 q = None"
| "consume get finish (Suc fuel) q =
     (case get q of
        (Item x, q') \<Rightarrow>
          (case consume get finish fuel (finish x q') of
             None \<Rightarrow> None
           | Some (xs, q'') \<Rightarrow> Some (x # xs, q''))
      | (ShutDownSeen, q') \<Rightarrow> Some ([], q')
      | (_, q') \<Rightarrow> None)"

context work_queue
begin

lemma get_then_finish:
  assumes "inv q" and "contents q = x # xs" and "act q = {||}"
  obtains q' where "get q = (Item x, q')" and "inv (finish x q')"
    and "contents (finish x q') = xs" and "pend (finish x q') = pend q |-| {|x|}"
    and "act (finish x q') = {||}" and "shut (finish x q') = shut q"
proof -
  from get_item [OF assms(1,2)] obtain q' where q': "get q = (Item x, q')"
    "contents q' = xs" "pend q' = pend q |-| {|x|}" "act q' = finsert x (act q)"
    "shut q' = shut q" by blast
  from inv_get [OF assms(1) q'(1)] have "inv q'" .
  with q' assms(3) show thesis
    by (intro that [OF q'(1)])
      (simp_all add: inv_finish finish_contents finish_pend finish_act finish_shut)
qed

text \<open>After the shutdown one consumer processes every pending item, in order, once.\<close>

lemma consume_all:
  "inv q \<Longrightarrow> shut q \<Longrightarrow> act q = {||} \<Longrightarrow> contents q = xs \<Longrightarrow> length xs < fuel \<Longrightarrow>
   \<exists>q'. consume get finish fuel q = Some (xs, q') \<and> contents q' = [] \<and> pend q' = {||}
     \<and> act q' = {||} \<and> inv q'"
proof (induction xs arbitrary: q fuel)
  case Nil
  then obtain f where f: "fuel = Suc f" by (cases fuel) auto
  have "pend q = {||}" using set_contents [OF Nil.prems(1)] Nil.prems(3,4) by simp
  with Nil f show ?case by (simp add: get_empty)
next
  case (Cons x xs)
  then obtain f where f: "fuel = Suc f" "length xs < f" by (cases fuel) auto
  from get_then_finish [OF Cons.prems(1,4,3)] obtain q' where q': "get q = (Item x, q')"
    "inv (finish x q')" "contents (finish x q') = xs" "act (finish x q') = {||}"
    "shut (finish x q') = shut q" by metis
  from Cons.IH [of "finish x q'" f] q' f Cons.prems(2) show ?case by auto
qed

text \<open>An item that was added and not handed out since is still going to be processed.\<close>

lemma pend_survives_add: "inv q \<Longrightarrow> x |\<in>| pend q \<Longrightarrow> x |\<in>| pend (add y q)"
  by (simp add: add_pend)

lemma pend_survives_finish: "inv q \<Longrightarrow> x |\<in>| pend q \<Longrightarrow> x |\<in>| pend (finish y q)"
  by (simp add: finish_pend)

lemma pend_survives_get:
  "inv q \<Longrightarrow> x |\<in>| pend q \<Longrightarrow> get q = (r, q') \<Longrightarrow> r = Item x \<or> x |\<in>| pend q'"
proof (cases "contents q")
  case Nil
  then show "inv q \<Longrightarrow> x |\<in>| pend q \<Longrightarrow> get q = (r, q') \<Longrightarrow> r = Item x \<or> x |\<in>| pend q'"
    by (simp add: get_empty)
next
  case (Cons y ys)
  then show "inv q \<Longrightarrow> x |\<in>| pend q \<Longrightarrow> get q = (r, q') \<Longrightarrow> r = Item x \<or> x |\<in>| pend q'"
    using get_item [of q y ys] by auto
qed

lemma get_not_active: "inv q \<Longrightarrow> get q = (Item x, q') \<Longrightarrow> x |\<notin>| act q \<and> x |\<in>| pend q"
proof (cases "contents q")
  case Nil
  then show "inv q \<Longrightarrow> get q = (Item x, q') \<Longrightarrow> x |\<notin>| act q \<and> x |\<in>| pend q"
    by (simp add: get_empty split: if_splits)
next
  case (Cons y ys)
  assume q: "inv q" "get q = (Item x, q')"
  then have "y = x" using get_item [OF q(1) Cons] by auto
  then have "x |\<in>| fset_of_list (contents q)" by (simp add: Cons fset_of_list_elem)
  with set_contents [OF q(1)] show "x |\<notin>| act q \<and> x |\<in>| pend q" by simp
qed

end

text \<open>The model of \<open>collapsingQueue\<close> keeps the contract.\<close>

lemma cq_Get_Cons_Get:
  "queue q = x # xs \<Longrightarrow> cq_Get q =
     (Item x, q\<lparr>queue := xs, processing := finsert x (processing q), dirty := dirty q |-| {|x|}\<rparr>)"
  by (simp add: cq_Get_def cq_Get_Cons)

lemma cq_Get_Nil_Get:
  "queue q = [] \<Longrightarrow> cq_Get q = (if shuttingDown q then ShutDownSeen else Waits, q)"
  by (simp add: cq_Get_def cq_Get_Nil)

lemma cq_inv_Get: "cq_inv q \<Longrightarrow> cq_Get q = (r, q') \<Longrightarrow> cq_inv q'"
  using cq_inv_GetWithCallback [of q None "()"] by (auto simp: cq_Get_def split: prod.splits)

interpretation cq: work_queue
  "\<lambda>x q. snd (cq_Add x q)" cq_Get "\<lambda>x q. snd (cq_Done x q)" shuttingDown queue dirty processing
  "cq_inv :: ('a, 'm) collapsingQueue_scheme \<Rightarrow> bool"
proof (unfold_locales, goal_cases)
  case (1 q)
  then show ?case by (simp add: cq_inv_def)
next
  case (2 q)
  then show ?case by (simp add: cq_inv_def)
next
  case (3 q x)
  then show ?case by (rule cq_inv_Add)
next
  case (4 q r q')
  then show ?case by (rule cq_inv_Get)
next
  case (5 q x)
  then show ?case by (rule cq_inv_Done)
next
  case (6 q x)
  then show ?case by (simp add: cq_Add_queue)
next
  case (7 q x)
  then show ?case by simp
next
  case (8 q x)
  then show ?case by simp
next
  case (9 q x)
  then show ?case by simp
next
  case (10 q)
  then show ?case by (simp add: cq_Get_Nil_Get)
next
  case (11 q x xs)
  then show ?case by (simp add: cq_Get_Cons_Get)
next
  case (12 q x)
  then show ?case by (simp add: cq_Done_queue)
next
  case (13 q x)
  then show ?case by simp
next
  case (14 q x)
  then show ?case by simp
next
  case (15 q x)
  then show ?case by simp
qed

section \<open>Properties\<close>

text \<open>
  Claim C13: seen through the set of pending items, the set of active items and the closed
  flag, \<open>Add\<close> and \<open>Done\<close> are the abstract operations; \<open>Get\<close> hands out an item
  that is pending and not active and moves it from the one set to the other, waits exactly when
  there is no such item and the queue is open, reports the shutdown exactly when there is none
  and it is closed, and never pops an empty slice. The invariant is kept throughout.
\<close>

theorem cq_refines_work_set:
  assumes "cq_inv q"
  shows "cq_abs (snd (cq_Add x q)) = ws_add x (cq_abs q) \<and> cq_inv (snd (cq_Add x q))
    \<and> cq_abs (snd (cq_Done x q)) = ws_done x (cq_abs q)
    \<and> (x |\<in>| processing q \<longrightarrow> cq_inv (snd (cq_Done x q)))
    \<and> (case cq_GetWithCallback cb q c of
         (Item y, q', c') \<Rightarrow> y |\<in>| ws_takeable (cq_abs q) \<and> cq_abs q' = ws_take y (cq_abs q)
           \<and> cq_inv q' \<and> c' = (case cb of None \<Rightarrow> c | Some f \<Rightarrow> f c)
       | (ShutDownSeen, q', c') \<Rightarrow> ws_takeable (cq_abs q) = {||} \<and> closed (cq_abs q)
           \<and> q' = q \<and> c' = c
       | (Waits, q', c') \<Rightarrow> ws_takeable (cq_abs q) = {||} \<and> \<not> closed (cq_abs q)
           \<and> q' = q \<and> c' = c
       | (PopPanics, _, _) \<Rightarrow> False)"
proof (cases "queue q")
  case Nil
  then have "ws_takeable (cq_abs q) = {||}" using assms by (simp add: ws_takeable_empty)
  moreover have "closed (cq_abs q) = shuttingDown q" by (simp add: cq_abs_def)
  ultimately show ?thesis
    using assms Nil by (auto simp: cq_abs_Add cq_abs_Done cq_Get_Nil)
next
  case (Cons y ys)
  have "cq_inv (fst (snd (cq_GetWithCallback cb q c)))"
    using assms by (rule cq_inv_GetWithCallback)
  moreover have "cq_GetWithCallback cb q c = (Item y, fst (snd (cq_GetWithCallback cb q c)),
      snd (snd (cq_GetWithCallback cb q c)))"
    using Cons by (simp add: cq_Get_Cons)
  ultimately show ?thesis
    using assms cq_abs_Get_Item [OF assms, of cb c y] Cons
    by (auto simp: cq_abs_Add cq_abs_Done cq_Get_Cons)
qed

theorem cq_refines_work_set_witness:
  "cq_abs (snd (cq_Add (1::nat) NewCollapsingQueue)) = ws_add 1 (cq_abs NewCollapsingQueue)"
  by (rule cq_refines_work_set [OF cq_inv_New, THEN conjunct1])

text \<open>
  Once the queue is shut down and nothing is being processed, a consumer that
  takes an item, processes it and marks it done until \<open>Get\<close> reports the shutdown stops
  after as many rounds as there are waiting items; it has then processed exactly the pending
  items, each once, in the order they were queued, and the queue is empty.
\<close>

theorem shutdown_consumes_backlog:
  assumes "cq_inv q" and "shuttingDown q" and "processing q = {||}"
  shows "\<exists>q'. consume cq_Get (\<lambda>x q. snd (cq_Done x q)) (Suc (length (queue q))) q
      = Some (queue q, q')
    \<and> distinct (queue q) \<and> fset_of_list (queue q) = dirty q
    \<and> queue q' = [] \<and> dirty q' = {||} \<and> processing q' = {||}"
  using cq.consume_all [OF assms refl lessI] assms(1,3) by (auto simp: cq_inv_def)

theorem shutdown_consumes_backlog_witness:
  "\<exists>q'. consume cq_Get (\<lambda>x q. snd (cq_Done x q)) 3
     \<lparr>queue = [2, 1 :: nat], dirty = {|1, 2|}, processing = {||}, shuttingDown = True, drain = False\<rparr>
     = Some ([2, 1], q')"
proof -
  let ?q = "\<lparr>queue = [2, 1 :: nat], dirty = {|1, 2|}, processing = {||}, shuttingDown = True,
    drain = False\<rparr>"
  have "cq_inv ?q" by (auto simp: cq_inv_iff)
  from shutdown_consumes_backlog [OF this] show ?thesis by (auto simp: eval_nat_numeral)
qed

text \<open>
  The documentation of \<open>ShutDownWithDrain\<close> says that it blocks until all queued
  items have been retrieved. It does not: when items are queued and none is being processed,
  the loop test fails at once, so the call returns with every item still in the queue.
\<close>

theorem drain_does_not_wait_for_queue:
  assumes "processing q = {||}"
  shows "\<not> cq_drain_waits (snd (cq_ShutDownWithDrain q))
    \<and> queue (snd (cq_ShutDownWithDrain q)) = queue q"
  using assms by (simp add: cq_drain_waits_def cq_ShutDownWithDrain_def)

theorem drain_does_not_wait_for_queue_witness:
  "\<not> cq_drain_waits (snd (cq_ShutDownWithDrain (snd (cq_Add ''a'' NewCollapsingQueue))))
   \<and> queue (snd (cq_ShutDownWithDrain (snd (cq_Add ''a'' NewCollapsingQueue)))) = [''a'']"
  using drain_does_not_wait_for_queue [of "snd (cq_Add ''a'' NewCollapsingQueue)"]
  by (simp add: NewCollapsingQueue_def cq_Add_queue set_op_defs)

end
