(* ===== verification/Queue_Threads.thy ===== *)
theory Queue_Threads
  imports Collapsing_Queue
begin

text \<open>
  Goroutines that share one \<open>collapsingQueue\<close>: each call's critical section is one step,
  and \<open>cond.Wait\<close>, \<open>cond.Signal\<close> and \<open>cond.Broadcast\<close> act on the goroutines'
  states. \<open>Wait\<close> parks the goroutine until it is woken; a woken goroutine takes the lock
  again and re-tests its loop condition. \<open>Signal\<close> wakes one parked goroutine when there is
  one; which one is left open (the label of the step says which), since the getters and the
  drainers park on the same condition variable. The delayed entries are in
  \<open>Delayed_Queue\<close>; here a shutdown has none to wait for.
\<close>

datatype 'a goroutine =
    Outside          \<comment> \<open>not inside a call on the queue\<close>
  | GetParked        \<comment> \<open>in \<open>cond.Wait\<close> of \<open>GetWithCallback\<close>\<close>
  | GetWoken         \<comment> \<open>signalled there, about to take the lock\<close>
  | Holds 'a         \<comment> \<open>was handed the item, has not called \<open>Done\<close>\<close>
  | DrainParked      \<comment> \<open>in \<open>cond.Wait\<close> of \<open>ShutDownWithDrain\<close>\<close>
  | DrainWoken       \<comment> \<open>about to take the lock for the wait loop\<close>
  | Panicked

record 'a qsys =
  q_of :: "'a collapsingQueue"
  gos :: "'a goroutine list"

fun parked :: "'a goroutine \<Rightarrow> bool" where
  "parked GetParked = True"
| "parked DrainParked = True"
| "parked _ = False"

fun awake :: "'a goroutine \<Rightarrow> 'a goroutine" where
  "awake GetParked = GetWoken"
| "awake DrainParked = DrainWoken"
| "awake g = g"

fun after_get :: "'a get_result \<Rightarrow> 'a goroutine" where
  "after_get Waits = GetParked"
| "after_get (Item x) = Holds x"
| "after_get ShutDownSeen = Outside"
| "after_get PopPanics = Panicked"

text \<open>
  The effect of a wake-up call on the parked goroutines; the option names the goroutine a
  \<open>Signal\<close> wakes.
\<close>

definition wake_by :: "('g \<Rightarrow> bool) \<Rightarrow> ('g \<Rightarrow> 'g) \<Rightarrow> wake \<Rightarrow> nat option \<Rightarrow> 'g list \<Rightarrow> 'g list option" where
  "wake_by is_parked rouse w choice gs =
     (case w of
        NoWake \<Rightarrow> (if choice = None then Some gs else None)
      | Broadcast \<Rightarrow> (if choice = None then Some (map rouse gs) else None)
      | Signal \<Rightarrow>
          (case choice of
             None \<Rightarrow> (if list_ex is_parked gs then None else Some gs)
           | Some j \<Rightarrow>
               (if j < length gs \<and> is_parked (gs ! j) then Some (gs[j := rouse (gs ! j)]) else None)))"

definition wake_up :: "wake \<Rightarrow> nat option \<Rightarrow> 'a goroutine list \<Rightarrow> 'a goroutine list option" where
  "wake_up = wake_by parked awake"

text \<open>Goroutines of another kind that look like these to the queue are woken alike.\<close>

lemma wake_by_map:
  assumes "wake_by is_parked rouse w c ws = Some ws'"
    and "\<And>g. parked (f g) = is_parked g" and "\<And>g. f (rouse g) = awake (f g)"
  shows "wake_up w c (map f ws) = Some (map f ws')"
  using assms(1)
  by (auto simp: wake_up_def wake_by_def assms(2,3) map_update list_ex_iff
      split: wake.splits option.splits if_splits)

lemma wake_by_length: "wake_by is_parked rouse w c ws = Some ws' \<Longrightarrow> length ws' = length ws"
  by (auto simp: wake_by_def split: wake.splits option.splits if_splits)

datatype 'a qact =
    DoAdd 'a "nat option"
  | DoGet nat
  | ResumeGet nat
  | DoDone nat "nat option"
  | DoShutDown
  | DoDrain nat
  | ResumeDrain nat

inductive qstep :: "'a qsys \<Rightarrow> 'a qact \<Rightarrow> 'a qsys \<Rightarrow> bool" where
  add: "cq_Add x q = (w, q') \<Longrightarrow> wake_up w c gs = Some gs' \<Longrightarrow>
    qstep \<lparr>q_of = q, gos = gs\<rparr> (DoAdd x c) \<lparr>q_of = q', gos = gs'\<rparr>"
| get: "i < length gs \<Longrightarrow> gs ! i = Outside \<Longrightarrow> cq_Get q = (r, q') \<Longrightarrow>
    qstep \<lparr>q_of = q, gos = gs\<rparr> (DoGet i) \<lparr>q_of = q', gos = gs[i := after_get r]\<rparr>"
| resume_get: "i < length gs \<Longrightarrow> gs ! i = GetWoken \<Longrightarrow> cq_Get q = (r, q') \<Longrightarrow>
    qstep \<lparr>q_of = q, gos = gs\<rparr> (ResumeGet i) \<lparr>q_of = q', gos = gs[i := after_get r]\<rparr>"
| finish: "i < length gs \<Longrightarrow> gs ! i = Holds x \<Longrightarrow> cq_Done x q = (w, q') \<Longrightarrow>
    wake_up w c (gs[i := Outside]) = Some gs' \<Longrightarrow>
    qstep \<lparr>q_of = q, gos = gs\<rparr> (DoDone i c) \<lparr>q_of = q', gos = gs'\<rparr>"
| shutdown: "cq_ShutDown q = (w, q') \<Longrightarrow> wake_up w None gs = Some gs' \<Longrightarrow>
    qstep \<lparr>q_of = q, gos = gs\<rparr> DoShutDown \<lparr>q_of = q', gos = gs'\<rparr>"
| drain: "i < length gs \<Longrightarrow> gs ! i = Outside \<Longrightarrow> cq_ShutDownWithDrain q = (w, q') \<Longrightarrow>
    wake_up w None gs = Some gs' \<Longrightarrow>
    qstep \<lparr>q_of = q, gos = gs\<rparr> (DoDrain i) \<lparr>q_of = q', gos = gs'[i := DrainWoken]\<rparr>"
| resume_drain: "i < length gs \<Longrightarrow> gs ! i = DrainWoken \<Longrightarrow>
    qstep \<lparr>q_of = q, gos = gs\<rparr> (ResumeDrain i)
      \<lparr>q_of = q, gos = gs[i := if cq_drain_waits q then DrainParked else Outside]\<rparr>"

definition qinit :: "'a qsys \<Rightarrow> bool" where
  "qinit s \<longleftrightarrow> (\<exists>n. s = \<lparr>q_of = NewCollapsingQueue, gos = replicate n Outside\<rparr>)"

inductive_cases qstepE: "qstep s a t"

section \<open>The invariant\<close>

fun held :: "'a goroutine \<Rightarrow> 'a list" where
  "held (Holds x) = [x]"
| "held _ = []"

definition held_items :: "'a goroutine list \<Rightarrow> 'a list" where
  "held_items gs = concat (map held gs)"

definition count_woken :: "'a goroutine list \<Rightarrow> nat" where
  "count_woken gs = length (filter (\<lambda>g. g = GetWoken) gs)"

text \<open>
  The items being processed are those the goroutines hold, each held once. While a getter is
  parked the queue is open and there are at least as many woken getters as queued items. A
  drainer exists only after the shutdown.
\<close>

definition q_inv :: "'a qsys \<Rightarrow> bool" where
  "q_inv s \<longleftrightarrow>
     cq_inv (q_of s)
     \<and> mset (held_items (gos s)) = mset_set (fset (processing (q_of s)))
     \<and> (GetParked \<in> set (gos s) \<longrightarrow>
          \<not> shuttingDown (q_of s) \<and> length (queue (q_of s)) \<le> count_woken (gos s))
     \<and> (DrainParked \<in> set (gos s) \<or> DrainWoken \<in> set (gos s) \<longrightarrow> shuttingDown (q_of s))
     \<and> Panicked \<notin> set (gos s)"

section \<open>Goroutine lists\<close>

lemma held_items_update:
  "i < length gs \<Longrightarrow> mset (held_items (gs[i := g])) + mset (held (gs ! i)) =
     mset (held_items gs) + mset (held g)"
  unfolding held_items_def by (rule mset_concat_map_update)

lemma held_items_update_same:
  "i < length gs \<Longrightarrow> held g = held (gs ! i) \<Longrightarrow>
     mset (held_items (gs[i := g])) = mset (held_items gs)"
  using held_items_update [of i gs g] by simp

lemma held_awake [simp]: "held (awake g) = held g"
  by (cases g) simp_all

lemma held_items_awake [simp]: "held_items (map awake gs) = held_items gs"
  by (simp add: held_items_def o_def)

lemma held_items_replicate [simp]: "held_items (replicate n Outside) = []"
  by (induction n) (simp_all add: held_items_def)

lemma count_woken_update:
  "i < length gs \<Longrightarrow> count_woken (gs[i := g]) + (if gs ! i = GetWoken then 1 else 0) =
     count_woken gs + (if g = GetWoken then 1 else 0)"
  unfolding count_woken_def by (rule length_filter_update)

lemma parked_iff: "parked g \<longleftrightarrow> g = GetParked \<or> g = DrainParked"
  by (cases g) simp_all

lemma awake_neq [simp]: "awake g \<noteq> GetParked" "awake g \<noteq> DrainParked"
  by (cases g; simp)+

lemma awake_eq_iff:
  "awake g = GetWoken \<longleftrightarrow> g = GetWoken \<or> g = GetParked"
  "awake g = DrainWoken \<longleftrightarrow> g = DrainWoken \<or> g = DrainParked"
  "awake g = Panicked \<longleftrightarrow> g = Panicked"
  "awake g = Outside \<longleftrightarrow> g = Outside"
  "awake g = Holds x \<longleftrightarrow> g = Holds x"
  by (cases g; simp)+

lemma wake_up_held: "wake_up w c gs = Some gs' \<Longrightarrow> mset (held_items gs') = mset (held_items gs)"
  by (auto simp: wake_up_def wake_by_def held_items_update_same
      split: wake.splits option.splits if_splits)

lemma wake_up_length: "wake_up w c gs = Some gs' \<Longrightarrow> length gs' = length gs"
  by (auto simp: wake_up_def wake_by_def split: wake.splits option.splits if_splits)

lemma wake_up_Signal:
  assumes "wake_up Signal c gs = Some gs'"
  obtains "c = None" "gs' = gs" "\<forall>g \<in> set gs. \<not> parked g"
  | j where "c = Some j" "j < length gs" "parked (gs ! j)" "gs' = gs[j := awake (gs ! j)]"
  using assms by (auto simp: wake_up_def wake_by_def list_ex_iff split: option.splits if_splits)

lemma wake_up_NoWake: "wake_up NoWake c gs = Some gs' \<longleftrightarrow> c = None \<and> gs' = gs"
  by (auto simp: wake_up_def wake_by_def)

lemma wake_up_Broadcast: "wake_up Broadcast c gs = Some gs' \<longleftrightarrow> c = None \<and> gs' = map awake gs"
  by (auto simp: wake_up_def wake_by_def)

lemma wake_up_set: "wake_up w c gs = Some gs' \<Longrightarrow> g \<in> set gs' \<Longrightarrow> g \<in> set gs \<or> (\<exists>h \<in> set gs. g = awake h)"
  by (auto simp: wake_up_def wake_by_def split: wake.splits option.splits if_splits
      dest!: in_set_update)

lemma wake_up_GetParked:
  "wake_up w c gs = Some gs' \<Longrightarrow> GetParked \<in> set gs' \<Longrightarrow> GetParked \<in> set gs"
  using wake_up_set awake_neq(1) by metis

lemma wake_up_DrainParked:
  "wake_up w c gs = Some gs' \<Longrightarrow> DrainParked \<in> set gs' \<Longrightarrow> DrainParked \<in> set gs"
  using wake_up_set awake_neq(2) by metis

lemma wake_up_DrainWoken:
  "wake_up w c gs = Some gs' \<Longrightarrow> DrainWoken \<in> set gs' \<Longrightarrow>
   DrainWoken \<in> set gs \<or> DrainParked \<in> set gs"
  using wake_up_set awake_eq_iff(2) by metis

lemma wake_up_Panicked:
  "wake_up w c gs = Some gs' \<Longrightarrow> Panicked \<in> set gs' \<Longrightarrow> Panicked \<in> set gs"
  using wake_up_set awake_eq_iff(3) by metis

lemma count_woken_le_awake: "count_woken gs \<le> count_woken (map awake gs)"
  by (induction gs) (auto simp: count_woken_def awake_eq_iff)

lemma wake_up_count: "wake_up w c gs = Some gs' \<Longrightarrow> count_woken gs \<le> count_woken gs'"
proof (cases w)
  case Signal
  moreover assume "wake_up w c gs = Some gs'"
  ultimately have "wake_up Signal c gs = Some gs'" by simp
  then show ?thesis
  proof (cases rule: wake_up_Signal)
    case (2 j)
    then show ?thesis using count_woken_update [of j gs "awake (gs ! j)"]
      by (auto simp: parked_iff awake_eq_iff split: if_splits)
  qed simp
qed (auto simp: wake_up_NoWake wake_up_Broadcast count_woken_le_awake)

text \<open>
  When no drainer is parked, a signal that leaves a getter parked has woken another getter.
\<close>

lemma wake_up_Signal_count:
  assumes "wake_up Signal c gs = Some gs'" and "GetParked \<in> set gs'"
    and "DrainParked \<notin> set gs"
  shows "count_woken gs' = Suc (count_woken gs)"
  using assms(1)
proof (cases rule: wake_up_Signal)
  case 1
  with assms(2) show ?thesis by auto
next
  case (2 j)
  with assms(3) have "gs ! j = GetParked" by (metis nth_mem parked_iff)
  with 2 show ?thesis using count_woken_update [of j gs GetWoken] by simp
qed

section \<open>Every step keeps the invariant\<close>

lemma cq_Add_cases:
  assumes "cq_Add x q = (w, q')"
  obtains "w = NoWake" "queue q' = queue q" | "w = Signal" "queue q' = queue q @ [x]" "\<not> shuttingDown q"
  using assms by (auto simp: cq_Add_def Push_def Let_def split: if_splits)

lemma cq_Done_cases:
  assumes "cq_Done x q = (w, q')"
  obtains "w = NoWake" "queue q' = queue q" "set_Len (processing q') \<noteq> 0"
    | "w = Signal" "queue q' = queue q" | "w = Signal" "queue q' = queue q @ [x]"
  using assms by (auto simp: cq_Done_def Push_def Let_def simp del: set_Len_0 split: if_splits)

lemma q_inv_add:
  assumes inv: "q_inv \<lparr>q_of = q, gos = gs\<rparr>" and step: "cq_Add x q = (w, q')"
    "wake_up w c gs = Some gs'"
  shows "q_inv \<lparr>q_of = q', gos = gs'\<rparr>"
proof -
  have q': "q' = snd (cq_Add x q)" using step(1) by simp
  have cq: "cq_inv q'" using inv unfolding q' q_inv_def by auto
  have held: "mset (held_items gs') = mset_set (fset (processing q'))"
    using inv wake_up_held [OF step(2)] unfolding q' q_inv_def by simp
  have shut: "shuttingDown q' = shuttingDown q" by (simp add: q')
  have getters: "\<not> shuttingDown q' \<and> length (queue q') \<le> count_woken gs'" if "GetParked \<in> set gs'"
  proof -
    from wake_up_GetParked [OF step(2) that] inv
    have open_q: "\<not> shuttingDown q" and le: "length (queue q) \<le> count_woken gs"
      by (auto simp: q_inv_def)
    then have "DrainParked \<notin> set gs" using inv by (auto simp: q_inv_def)
    show ?thesis
      using step(1)
    proof (cases rule: cq_Add_cases)
      case 1
      with le wake_up_count [OF step(2)] open_q shut show ?thesis by simp
    next
      case 2
      with step(2) that \<open>DrainParked \<notin> set gs\<close> have "count_woken gs' = Suc (count_woken gs)"
        by (auto intro: wake_up_Signal_count)
      with 2 le open_q shut show ?thesis by simp
    qed
  qed
  from cq held getters inv wake_up_DrainParked [OF step(2)] wake_up_DrainWoken [OF step(2)]
    wake_up_Panicked [OF step(2)] shut show ?thesis
    by (auto simp: q_inv_def)
qed

lemma q_inv_get:
  assumes inv: "q_inv \<lparr>q_of = q, gos = gs\<rparr>" and i: "i < length gs"
    and g: "gs ! i = Outside \<or> gs ! i = GetWoken" and step: "cq_Get q = (r, q')"
  shows "q_inv \<lparr>q_of = q', gos = gs[i := after_get r]\<rparr>"
proof (cases "queue q")
  case Nil
  with step have r: "r = (if shuttingDown q then ShutDownSeen else Waits)" and q': "q' = q"
    by (auto simp: cq_Get_Nil_Get)
  have "held (after_get r) = held (gs ! i)" using g by (auto simp: r)
  from held_items_update_same [OF i this] inv Nil r q' show ?thesis
    by (auto simp: q_inv_def dest!: in_set_update)
next
  case (Cons x xs)
  then have r: "r = Item x" and q': "q' = q\<lparr>queue := xs,
      processing := finsert x (processing q), dirty := dirty q |-| {|x|}\<rparr>"
    using step by (auto simp: cq_Get_Cons_Get)
  have cq: "cq_inv q'" using inv step by (auto simp: q_inv_def intro: cq_inv_Get)
  have "x |\<notin>| processing q" using inv Cons cq_inv_mem [of q x] by (simp add: q_inv_def)
  moreover have "held (gs ! i) = []" using g by auto
  ultimately have held: "mset (held_items (gs[i := Holds x])) = mset_set (fset (processing q'))"
    using held_items_update [OF i, of "Holds x"] inv by (simp add: q_inv_def q')
  have count: "count_woken gs \<le> Suc (count_woken (gs[i := Holds x]))"
    using count_woken_update [OF i, of "Holds x"] by (auto split: if_splits)
  show ?thesis
    using cq held count inv Cons
    by (auto simp: q_inv_def r q' dest!: in_set_update)
qed

lemma q_inv_finish:
  assumes inv: "q_inv \<lparr>q_of = q, gos = gs\<rparr>" and i: "i < length gs" and g: "gs ! i = Holds x"
    and step: "cq_Done x q = (w, q')" "wake_up w c (gs[i := Outside]) = Some gs'"
  shows "q_inv \<lparr>q_of = q', gos = gs'\<rparr>"
proof -
  let ?hs = "gs[i := Outside]"
  have q': "q' = snd (cq_Done x q)" using step(1) by simp
  have held: "mset (held_items ?hs) + {#x#} = mset_set (fset (processing q))"
    using held_items_update [OF i, of Outside] inv g by (simp add: q_inv_def)
  then have "x \<in># mset_set (fset (processing q))" by (metis union_iff multi_member_this)
  then have x: "x |\<in>| processing q" by simp
  have cq: "cq_inv q'" using inv x unfolding q' q_inv_def by auto
  have "mset_set (fset (processing q')) = mset_set (fset (processing q)) - {#x#}"
    using x by (simp add: q' mset_set_Diff)
  then have held': "mset (held_items gs') = mset_set (fset (processing q'))"
    using held wake_up_held [OF step(2)] by (metis add_diff_cancel_right')
  have sub: "h \<in> set ?hs \<Longrightarrow> h = Outside \<or> h \<in> set gs" for h
    by (rule in_set_update)
  have count: "count_woken ?hs = count_woken gs"
    using count_woken_update [OF i, of Outside] g by simp
  have shut: "shuttingDown q' = shuttingDown q" by (simp add: q')
  have getters: "\<not> shuttingDown q' \<and> length (queue q') \<le> count_woken gs'" if "GetParked \<in> set gs'"
  proof -
    have "GetParked \<in> set gs" using wake_up_GetParked [OF step(2) that] sub by blast
    with inv have open_q: "\<not> shuttingDown q" and le: "length (queue q) \<le> count_woken gs"
      by (auto simp: q_inv_def)
    then have "DrainParked \<notin> set ?hs" using inv sub by (auto simp: q_inv_def)
    with step(2) that have "w = Signal \<Longrightarrow> count_woken gs' = Suc (count_woken ?hs)"
      by (auto intro: wake_up_Signal_count)
    with step(1) le count wake_up_count [OF step(2)] open_q shut show ?thesis
      by (auto elim: cq_Done_cases)
  qed
  from cq held' getters inv wake_up_DrainParked [OF step(2)] wake_up_DrainWoken [OF step(2)]
    wake_up_Panicked [OF step(2)] shut sub show ?thesis
    by (fastforce simp: q_inv_def)
qed

lemma q_inv_broadcast:
  assumes inv: "q_inv \<lparr>q_of = q, gos = gs\<rparr>"
    and q': "q' = q\<lparr>drain := b, shuttingDown := True\<rparr>"
  shows "q_inv \<lparr>q_of = q', gos = map awake gs\<rparr>"
proof -
  have "cq_inv q'" using inv by (simp add: q' q_inv_def cq_inv_iff)
  moreover have "GetParked \<notin> awake ` set gs" and "DrainParked \<notin> awake ` set gs"
    using awake_neq by (metis imageE)+
  moreover have "Panicked \<notin> awake ` set gs"
    using inv awake_eq_iff(3) unfolding q_inv_def by (metis imageE qsys.select_convs(2))
  ultimately show ?thesis using inv by (simp add: q_inv_def q')
qed

lemma q_inv_drain_update:
  assumes "q_inv \<lparr>q_of = q, gos = gs\<rparr>" and "i < length gs" and "held (gs ! i) = []"
    and "gs ! i \<noteq> GetWoken" and "shuttingDown q"
    and "g = DrainWoken \<or> g = DrainParked \<or> g = Outside"
  shows "q_inv \<lparr>q_of = q, gos = gs[i := g]\<rparr>"
proof -
  have "mset (held_items (gs[i := g])) = mset (held_items gs)"
    using assms(2,3,6) by (intro held_items_update_same) auto
  with assms show ?thesis
    by (auto simp: q_inv_def dest!: in_set_update)
qed

lemma q_inv_step: "q_inv s \<Longrightarrow> qstep s a t \<Longrightarrow> q_inv t"
proof (erule qstepE)
  fix i and gs :: "'a goroutine list" and q q' w gs'
  assume "q_inv s" "s = \<lparr>q_of = q, gos = gs\<rparr>" "t = \<lparr>q_of = q', gos = gs'[i := DrainWoken]\<rparr>"
    "i < length gs" "gs ! i = Outside" "cq_ShutDownWithDrain q = (w, q')"
    "wake_up w None gs = Some gs'"
  then show "q_inv t"
    by (auto simp: cq_ShutDownWithDrain_def wake_up_Broadcast
        intro!: q_inv_drain_update q_inv_broadcast)
next
  fix i and gs :: "'a goroutine list" and q
  assume "q_inv s" "s = \<lparr>q_of = q, gos = gs\<rparr>"
    "t = \<lparr>q_of = q, gos = gs[i := if cq_drain_waits q then DrainParked else Outside]\<rparr>"
    "i < length gs" "gs ! i = DrainWoken"
  moreover from this have "shuttingDown q" by (auto simp: q_inv_def in_set_conv_nth)
  ultimately show "q_inv t" by (auto intro!: q_inv_drain_update)
next
  fix q q' w and gs gs' :: "'a goroutine list"
  assume "q_inv s" "s = \<lparr>q_of = q, gos = gs\<rparr>" "t = \<lparr>q_of = q', gos = gs'\<rparr>"
    "cq_ShutDown q = (w, q')" "wake_up w None gs = Some gs'"
  then show "q_inv t"
    by (auto simp: cq_ShutDown_def wake_up_Broadcast intro!: q_inv_broadcast)
qed (auto intro: q_inv_add q_inv_get q_inv_finish)

lemma q_inv_init: "qinit s \<Longrightarrow> q_inv s"
  by (auto simp: qinit_def q_inv_def set_replicate_conv_if NewCollapsingQueue_def set_op_defs
      cq_inv_iff split: if_splits)

interpretation qt: transition_invariant qinit qstep q_inv
  by unfold_locales (auto intro: q_inv_init q_inv_step)

section \<open>One drainer\<close>

text \<open>
  With a single goroutine \<open>d\<close> that calls \<open>ShutDownWithDrain\<close>, whoever is parked after
  the shutdown is \<open>d\<close>, so the one \<open>Signal\<close> of the last \<open>Done\<close> reaches it.
\<close>

definition drains_only :: "nat \<Rightarrow> 'a qact \<Rightarrow> bool" where
  "drains_only d a \<longleftrightarrow> (\<forall>i. a = DoDrain i \<longrightarrow> i = d)"

definition qstep_one :: "nat \<Rightarrow> 'a qsys \<Rightarrow> 'a qact \<Rightarrow> 'a qsys \<Rightarrow> bool" where
  "qstep_one d s a t \<longleftrightarrow> qstep s a t \<and> drains_only d a"

definition drainers_in :: "nat \<Rightarrow> 'a goroutine list \<Rightarrow> bool" where
  "drainers_in d gs \<longleftrightarrow>
     (\<forall>i < length gs. gs ! i = DrainParked \<or> gs ! i = DrainWoken \<longrightarrow> i = d)"

definition drain_inv :: "nat \<Rightarrow> 'a qsys \<Rightarrow> bool" where
  "drain_inv d s \<longleftrightarrow> q_inv s \<and> drainers_in d (gos s)
     \<and> (DrainParked \<in> set (gos s) \<longrightarrow> cq_drain_waits (q_of s))"

lemma drainers_in_update:
  "drainers_in d gs \<Longrightarrow> (g = DrainParked \<or> g = DrainWoken \<longrightarrow> i = d) \<Longrightarrow> drainers_in d (gs[i := g])"
  unfolding drainers_in_def by (metis length_list_update nth_list_update_eq nth_list_update_neq)

lemma wake_up_drainers_in:
  "wake_up w c gs = Some gs' \<Longrightarrow> drainers_in d gs \<Longrightarrow> drainers_in d gs'"
  by (auto simp: wake_up_def wake_by_def drainers_in_def nth_list_update awake_eq_iff
      split: wake.splits option.splits if_splits)

lemma wake_up_Signal_drainer:
  assumes "wake_up Signal c gs = Some gs'" and "drainers_in d gs" and "GetParked \<notin> set gs"
  shows "DrainParked \<notin> set gs'"
  using assms(1)
proof (cases rule: wake_up_Signal)
  case 1
  then show ?thesis by auto
next
  case (2 j)
  then have j: "gs ! j = DrainParked" using assms(3) by (metis nth_mem parked_iff)
  then have "j = d" using assms(2) 2(2) by (auto simp: drainers_in_def)
  show ?thesis
  proof
    assume "DrainParked \<in> set gs'"
    then obtain k where k: "k < length gs" "gs[j := DrainWoken] ! k = DrainParked"
      using 2 j by (auto simp: in_set_conv_nth)
    with 2(2) have "k \<noteq> j" "gs ! k = DrainParked" by (auto simp: nth_list_update split: if_splits)
    with assms(2) k(1) \<open>j = d\<close> show False by (auto simp: drainers_in_def)
  qed
qed

lemma drain_inv_finish:
  assumes inv: "drain_inv d \<lparr>q_of = q, gos = gs\<rparr>" and g: "gs ! i = Holds x"
    and step: "cq_Done x q = (w, q')" "wake_up w c (gs[i := Outside]) = Some gs'"
    and parked: "DrainParked \<in> set gs'"
  shows "cq_drain_waits q'"
proof -
  let ?hs = "gs[i := Outside]"
  have sub: "h \<in> set ?hs \<Longrightarrow> h = Outside \<or> h \<in> set gs" for h
    by (rule in_set_update)
  have "DrainParked \<in> set gs" using wake_up_DrainParked [OF step(2) parked] sub by blast
  with inv have "shuttingDown q" and drain: "cq_drain_waits q"
    by (auto simp: drain_inv_def q_inv_def)
  with inv have "GetParked \<notin> set ?hs" using sub by (auto simp: drain_inv_def q_inv_def)
  moreover have "drainers_in d ?hs" using inv by (auto simp: drain_inv_def intro: drainers_in_update)
  ultimately have "w \<noteq> Signal" using step(2) parked wake_up_Signal_drainer by blast
  moreover have "drain q' = drain q" using step(1) cq_Done_frame(3) [of x q] by simp
  ultimately show ?thesis
    using step(1) drain by (auto simp: cq_drain_waits_def simp del: set_Len_0 elim: cq_Done_cases)
qed

lemma cq_drain_waits_Add: "cq_drain_waits (snd (cq_Add x q)) = cq_drain_waits q"
  by (simp add: cq_drain_waits_def)

lemma cq_drain_waits_Get: "cq_Get q = (r, q') \<Longrightarrow> cq_drain_waits q \<Longrightarrow> cq_drain_waits q'"
  by (cases "queue q") (auto simp: cq_drain_waits_def cq_Get_Nil_Get cq_Get_Cons_Get)

lemma map_awake_no_drainer: "DrainParked \<notin> set (map awake gs)"
  using awake_neq(2) by (metis imageE list.set_map)

lemma drain_inv_step:
  assumes "drain_inv d s" and "qstep_one d s a t"
  shows "drain_inv d t"
proof -
  have "q_inv t" using assms by (auto simp: drain_inv_def qstep_one_def intro: q_inv_step)
  moreover have "drainers_in d (gos t) \<and> (DrainParked \<in> set (gos t) \<longrightarrow> cq_drain_waits (q_of t))"
    using assms(2) [unfolded qstep_one_def, THEN conjunct1]
  proof cases
    case (add x q w q' c gs gs')
    then show ?thesis
      using assms(1) wake_up_drainers_in [OF add(5)] wake_up_DrainParked [OF add(5)]
        cq_drain_waits_Add [of x q]
      by (auto simp: drain_inv_def)
  next
    case (get i gs q r q')
    then show ?thesis using assms(1)
      by (cases r) (auto simp: drain_inv_def intro!: drainers_in_update
          dest: cq_drain_waits_Get dest!: in_set_update)
  next
    case (resume_get i gs q r q')
    then show ?thesis using assms(1)
      by (cases r) (auto simp: drain_inv_def intro!: drainers_in_update
          dest: cq_drain_waits_Get dest!: in_set_update)
  next
    case (finish i gs x q w q' c gs')
    then have "drainers_in d gs'"
      using assms(1) by (auto simp: drain_inv_def intro: wake_up_drainers_in drainers_in_update)
    with finish assms(1) show ?thesis by (auto intro: drain_inv_finish)
  next
    case (shutdown q w q' gs gs')
    then show ?thesis using assms(1) map_awake_no_drainer [of gs]
      by (auto simp: drain_inv_def cq_ShutDown_def wake_up_Broadcast drainers_in_def awake_eq_iff)
  next
    case (drain i gs q w q' gs')
    then have "i = d" using assms(2) by (auto simp: qstep_one_def drains_only_def)
    have gs': "gs' = map awake gs" using drain by (simp add: cq_ShutDownWithDrain_def wake_up_Broadcast)
    have "drainers_in d (gs'[i := DrainWoken])"
      using assms(1) drain \<open>i = d\<close>
      by (auto simp: drain_inv_def intro: drainers_in_update wake_up_drainers_in)
    then show ?thesis using drain map_awake_no_drainer [of gs]
      by (auto simp: gs' dest!: in_set_update)
  next
    case (resume_drain i gs q)
    then show ?thesis using assms(1)
      by (auto simp: drain_inv_def drainers_in_def nth_list_update
          dest!: in_set_update)
  qed
  ultimately show ?thesis by (simp add: drain_inv_def)
qed

lemma drain_inv_init: "qinit s \<Longrightarrow> drain_inv d s"
  by (auto simp: drain_inv_def q_inv_init drainers_in_def qinit_def)

interpretation od: transition_invariant qinit "qstep_one d" "drain_inv d"
  by unfold_locales (auto intro: drain_inv_init drain_inv_step)

section \<open>Executing the steps\<close>

definition qsys_of :: "'a collapsingQueue \<Rightarrow> 'a goroutine list option \<Rightarrow> 'a qsys option" where
  "qsys_of q gs = map_option (\<lambda>gs. \<lparr>q_of = q, gos = gs\<rparr>) gs"

fun qexec :: "'a qsys \<Rightarrow> 'a qact \<Rightarrow> 'a qsys option" where
  "qexec s (DoAdd x c) =
     (case cq_Add x (q_of s) of (w, q') \<Rightarrow> qsys_of q' (wake_up w c (gos s)))"
| "qexec s (DoGet i) =
     (if i < length (gos s) \<and> gos s ! i = Outside then
        case cq_Get (q_of s) of (r, q') \<Rightarrow> qsys_of q' (Some ((gos s)[i := after_get r]))
      else None)"
| "qexec s (ResumeGet i) =
     (if i < length (gos s) \<and> gos s ! i = GetWoken then
        case cq_Get (q_of s) of (r, q') \<Rightarrow> qsys_of q' (Some ((gos s)[i := after_get r]))
      else None)"
| "qexec s (DoDone i c) =
     (if i < length (gos s) then
        case gos s ! i of
          Holds x \<Rightarrow> (case cq_Done x (q_of s) of (w, q') \<Rightarrow>
            qsys_of q' (wake_up w c ((gos s)[i := Outside])))
        | _ \<Rightarrow> None
      else None)"
| "qexec s DoShutDown =
     (case cq_ShutDown (q_of s) of (w, q') \<Rightarrow> qsys_of q' (wake_up w None (gos s)))"
| "qexec s (DoDrain i) =
     (if i < length (gos s) \<and> gos s ! i = Outside then
        case cq_ShutDownWithDrain (q_of s) of (w, q') \<Rightarrow>
          qsys_of q' (map_option (\<lambda>gs. gs[i := DrainWoken]) (wake_up w None (gos s)))
      else None)"
| "qexec s (ResumeDrain i) =
     (if i < length (gos s) \<and> gos s ! i = DrainWoken then
        qsys_of (q_of s)
          (Some ((gos s)[i := if cq_drain_waits (q_of s) then DrainParked else Outside]))
      else None)"

lemma resume_drain_parks:
  "i < length gs \<Longrightarrow> gs ! i = DrainWoken \<Longrightarrow> cq_drain_waits q \<Longrightarrow>
   qstep \<lparr>q_of = q, gos = gs\<rparr> (ResumeDrain i) \<lparr>q_of = q, gos = gs[i := DrainParked]\<rparr>"
  using resume_drain [of i gs q] by simp

lemma resume_drain_returns:
  "i < length gs \<Longrightarrow> gs ! i = DrainWoken \<Longrightarrow> \<not> cq_drain_waits q \<Longrightarrow>
   qstep \<lparr>q_of = q, gos = gs\<rparr> (ResumeDrain i) \<lparr>q_of = q, gos = gs[i := Outside]\<rparr>"
  using resume_drain [of i gs q] by simp

lemma qexec_qstep: "qexec s a = Some t \<Longrightarrow> qstep s a t"
  by (cases s; cases a)
    (auto simp: qsys_of_def intro: qstep.intros resume_drain_parks resume_drain_returns
      split: prod.splits if_splits goroutine.splits)

lemma run_qreach: "qinit s \<Longrightarrow> run qexec s as = Some t \<Longrightarrow> reach qinit qstep t"
  by (rule path_reach [OF path_mono [OF path_run] reach_init])
    (auto simp: by_exec_def intro: qexec_qstep)

lemmas qrun_simps = qsys_of_def wake_up_def wake_by_def cq_defs cq_drain_waits_def NewCollapsingQueue_def
  set_op_defs Let_def

definition two_goroutines :: "nat qsys" where
  "two_goroutines = \<lparr>q_of = NewCollapsingQueue, gos = [Outside, Outside]\<rparr>"

definition three_goroutines :: "nat qsys" where
  "three_goroutines = \<lparr>q_of = NewCollapsingQueue, gos = [Outside, Outside, Outside]\<rparr>"

lemma qinit_two: "qinit two_goroutines"
  by (auto simp: qinit_def two_goroutines_def intro!: exI [of _ 2] simp: numeral_2_eq_2)

lemma qinit_three: "qinit three_goroutines"
  by (auto simp: qinit_def three_goroutines_def intro!: exI [of _ 3] simp: numeral_3_eq_3)

section \<open>Properties\<close>

text \<open>
  Claim C1: in every reachable state, under every interleaving of calls, an item is held
  by at most one goroutine, a goroutine holds an item exactly when the item is in the
  processing set, the queue has no duplicates and its items are those that are dirty and not
  being processed; and no \<open>Get\<close> ever pops an empty slice.
\<close>

theorem exclusive_processing:
  assumes "reach qinit qstep s"
  shows "distinct (held_items (gos s))
    \<and> set (held_items (gos s)) = fset (processing (q_of s))
    \<and> distinct (queue (q_of s))
    \<and> set (queue (q_of s)) = fset (dirty (q_of s)) - fset (processing (q_of s))
    \<and> Panicked \<notin> set (gos s)"
proof -
  have inv: "q_inv s" using assms by (rule qt.inv_reach)
  then have "mset (held_items (gos s)) = mset_set (fset (processing (q_of s)))"
    by (simp add: q_inv_def)
  then have "mset (held_items (gos s)) = mset_set (fset (processing (q_of s)))
      \<and> set (held_items (gos s)) = fset (processing (q_of s))"
    by (metis finite_fset finite_set_mset_mset_set set_mset_mset)
  moreover from this have "distinct (held_items (gos s))"
    by (simp add: distinct_count_atmost_1)
  moreover have "set (queue (q_of s)) = fset (dirty (q_of s)) - fset (processing (q_of s))"
    using inv cq_inv_mem [of "q_of s"] by (auto simp: q_inv_def)
  ultimately show ?thesis using inv by (simp add: q_inv_def cq_inv_def)
qed

theorem exclusive_processing_witness:
  "\<exists>s :: nat qsys. gos s = [Holds (7::nat), Outside] \<and> distinct (held_items (gos s))"
proof -
  obtain s where s: "run qexec two_goroutines [DoAdd 7 None, DoGet 0, DoAdd 7 None] = Some s"
    "gos s = [Holds 7, Outside]"
    by (simp add: two_goroutines_def qrun_simps)
  from exclusive_processing [OF run_qreach [OF qinit_two s(1)]] s(2) show ?thesis by blast
qed

text \<open>
  Claim C3: no wake-up is lost for getters. If a goroutine is parked in \<open>Get\<close>, the queue
  is open and every queued item has a woken getter of its own that has not run yet; so a
  parked getter never sleeps while items wait unless other goroutines are already on their way
  to take them, and after a shutdown no getter is parked.
\<close>

theorem no_lost_wakeup_for_getters:
  assumes "reach qinit qstep s" and "i < length (gos s)" and "gos s ! i = GetParked"
  shows "\<not> shuttingDown (q_of s)
    \<and> length (queue (q_of s)) \<le> length (filter (\<lambda>g. g = GetWoken) (gos s))"
  using qt.inv_reach [OF assms(1)] assms(2,3) nth_mem [OF assms(2)]
  by (auto simp: q_inv_def count_woken_def)

theorem no_lost_wakeup_for_getters_witness:
  "\<exists>s :: nat qsys. gos s = [GetWoken, GetParked] \<and> queue (q_of s) = [7::nat]
     \<and> length (queue (q_of s)) \<le> length (filter (\<lambda>g. g = GetWoken) (gos s))"
proof -
  obtain s where s: "run qexec two_goroutines [DoGet 0, DoGet 1, DoAdd 7 (Some 0)] = Some s"
    "gos s = [GetWoken, GetParked]" "queue (q_of s) = [7]"
    by (simp add: two_goroutines_def qrun_simps)
  from no_lost_wakeup_for_getters [OF run_qreach [OF qinit_two s(1)], of 1] s(2,3)
  show ?thesis by (intro exI [of _ s]) simp
qed

text \<open>
  A drain is not forgotten when one goroutine drains. As long as no other
  goroutine calls \<open>ShutDownWithDrain\<close>, a goroutine parked in it is waiting for an item
  that some goroutine still holds; the last \<open>Done\<close> wakes it.
\<close>

theorem single_drainer_woken:
  assumes "reach qinit (qstep_one d) s" and "d < length (gos s)" and "gos s ! d = DrainParked"
  shows "\<exists>i x. i < length (gos s) \<and> gos s ! i = Holds x"
proof -
  have inv: "drain_inv d s" using assms(1) by (rule od.inv_reach)
  have "DrainParked \<in> set (gos s)" using nth_mem [OF assms(2)] assms(3) by simp
  with inv have "processing (q_of s) \<noteq> {||}"
    and "mset (held_items (gos s)) = mset_set (fset (processing (q_of s)))"
    by (auto simp: drain_inv_def q_inv_def cq_drain_waits_def)
  then have "held_items (gos s) \<noteq> []" by (auto simp: mset_set_empty_iff)
  then obtain g where g: "g \<in> set (gos s)" "held g \<noteq> []" by (auto simp: held_items_def)
  obtain x where "g = Holds x" using g(2) by (cases g) auto
  with g(1) show ?thesis by (auto simp: in_set_conv_nth)
qed

theorem single_drainer_woken_witness:
  "\<exists>s :: nat qsys. gos s = [Holds (7::nat), DrainParked] \<and> (\<exists>i x. i < length (gos s) \<and> gos s ! i = Holds x)"
proof -
  obtain s where s: "run qexec two_goroutines [DoAdd 7 None, DoGet 0, DoDrain 1, ResumeDrain 1] = Some s"
    "gos s = [Holds 7, DrainParked]"
    by (simp add: two_goroutines_def qrun_simps)
  have "reach qinit (qstep_one 1) s"
    by (rule path_reach [OF path_mono [OF path_run_where [OF s(1), of "drains_only 1"]]
          reach_init [of qinit, OF qinit_two]])
      (auto simp: drains_only_def qstep_one_def intro: qexec_qstep)
  from single_drainer_woken [OF this] s(2) show ?thesis by (intro exI [of _ s]) simp
qed

text \<open>
  With two drainers the single \<open>Signal\<close> of the last \<open>Done\<close> wakes one of them; it
  returns without waking the other.
\<close>

fun starts_shutdown :: "'a qact \<Rightarrow> bool" where
  "starts_shutdown DoShutDown = True"
| "starts_shutdown (DoDrain i) = True"
| "starts_shutdown _ = False"

definition forgotten :: "'a qsys \<Rightarrow> bool" where
  "forgotten s \<longleftrightarrow> shuttingDown (q_of s) \<and> queue (q_of s) = [] \<and> held_items (gos s) = []
     \<and> 1 < length (gos s) \<and> gos s ! 1 = DrainParked"

lemma forgotten_step:
  assumes "forgotten s" and "qstep s a t" and "\<not> starts_shutdown a"
  shows "forgotten t"
  using assms(2)
proof cases
  case (add x q w q' c gs gs')
  then show ?thesis using assms(1) by (auto simp: forgotten_def cq_Add_def wake_up_NoWake)
next
  case (get i gs q r q')
  then show ?thesis using assms(1) held_items_update_same [of i gs Outside]
    by (auto simp: forgotten_def cq_Get_Nil_Get nth_update)
next
  case (resume_get i gs q r q')
  then show ?thesis using assms(1) held_items_update_same [of i gs Outside]
    by (auto simp: forgotten_def cq_Get_Nil_Get nth_update)
next
  case (finish i gs x q w q' c gs')
  then have "x \<in> set (held_items gs)"
    using nth_mem [of i gs] by (force simp: held_items_def)
  with finish assms(1) show ?thesis by (simp add: forgotten_def)
next
  case (resume_drain i gs q)
  then show ?thesis using assms(1)
      held_items_update_same [of i gs "if cq_drain_waits q then DrainParked else Outside"]
    by (auto simp: forgotten_def nth_update)
qed (use assms(3) in simp_all)

lemma forgotten_forever:
  "reach ((=) s) (\<lambda>u a v. qstep u a v \<and> \<not> starts_shutdown a) t \<Longrightarrow> forgotten s \<Longrightarrow> forgotten t"
  by (induction rule: reach.induct) (auto intro: forgotten_step)

text \<open>
  Claim C39: two concurrent calls of \<open>ShutDownWithDrain\<close> can leave one of them blocked for
  good: a state is reachable in which everything is processed, the other call has returned,
  the loop condition of the parked one is false, and yet it stays parked in every continuation
  in which nobody starts another shutdown.
\<close>

theorem second_drainer_forgotten:
  "\<exists>s :: nat qsys. reach qinit qstep s \<and> gos s = [Outside, DrainParked, Outside]
     \<and> queue (q_of s) = [] \<and> \<not> cq_drain_waits (q_of s)
     \<and> (\<forall>t. reach ((=) s) (\<lambda>u a v. qstep u a v \<and> \<not> starts_shutdown a) t
          \<longrightarrow> gos t ! 1 = DrainParked)"
proof -
  obtain s where s: "run qexec three_goroutines
      [DoAdd 7 None, DoGet 0, DoDrain 1, ResumeDrain 1, DoDrain 2, ResumeDrain 1, ResumeDrain 2,
       DoDone 0 (Some 2), ResumeDrain 2] = Some s"
    "gos s = [Outside, DrainParked, Outside]" "queue (q_of s) = []"
    "processing (q_of s) = {||}" "shuttingDown (q_of s)"
    by (simp add: three_goroutines_def qrun_simps)
  then have "forgotten s" by (simp add: forgotten_def held_items_def)
  then have "gos t ! 1 = DrainParked"
    if "reach ((=) s) (\<lambda>u a v. qstep u a v \<and> \<not> starts_shutdown a) t" for t
    using forgotten_forever [OF that] by (simp add: forgotten_def)
  with s run_qreach [OF qinit_three s(1)] show ?thesis
    by (intro exI [of _ s]) (auto simp: cq_drain_waits_def)
qed

theorem second_drainer_forgotten_witness:
  "\<exists>s :: nat qsys. reach qinit qstep s \<and> gos s = [Outside, DrainParked, Outside]"
  using second_drainer_forgotten by blast

end
