(* ===== verification/Rate_Limiter.thy ===== *)
theory Rate_Limiter
  imports Complex_Main Prelude
begin

text \<open>
  The per-item exponential rate limiter of \<open>internal/queue/rate_limiter.go\<close>. The backoff
  is computed in floating point, so the model has the part of IEEE 754 double precision the
  code reaches: finite values as rationals, the infinities and NaN; the conversion of an
  integer (rounding to 53 bits, ties to even), \<open>math.Pow(2, exp)\<close>, the product (exact,
  since one factor is a power of two, until it overflows), the comparison and the
  conversion to \<open>int64\<close>. Go leaves the result of that last conversion open for a value
  out of range: \<open>impl\<close> is the argument that stands for it. Durations and counts are
  integers in the range of \<open>int64\<close>; the increment of a count wraps.
\<close>

datatype float64 = Finite rat | PosInf | NegInf | NaN

fun excess53 :: "nat \<Rightarrow> nat" where
  "excess53 n = (if n < 2 ^ 53 then 0 else Suc (excess53 (n div 2)))"

declare excess53.simps [simp del]

definition round53 :: "int \<Rightarrow> int" where
  "round53 n =
     (if \<bar>n\<bar> \<le> 2 ^ 53 then n
      else
        let e = excess53 (nat \<bar>n\<bar>);
            q = \<bar>n\<bar> div 2 ^ e; r = \<bar>n\<bar> mod 2 ^ e;
            q' = (if 2 ^ e < 2 * r \<or> (2 * r = 2 ^ e \<and> odd q) then q + 1 else q)
        in sgn n * q' * 2 ^ e)"

definition f64_of_int :: "int \<Rightarrow> float64" where
  "f64_of_int n = Finite (of_int (round53 n))"

text \<open>\<open>math.Pow(2, float64(exp))\<close>: overflow from 1024 on, underflow below -1074.\<close>

definition f64_pow2 :: "int \<Rightarrow> float64" where
  "f64_pow2 e =
     (if 1024 \<le> e then PosInf
      else if 0 \<le> e then Finite (2 ^ nat e)
      else if -1074 \<le> e then Finite (1 / 2 ^ nat (- e))
      else Finite 0)"

fun f64_scale :: "float64 \<Rightarrow> float64 \<Rightarrow> float64" where
  "f64_scale (Finite a) (Finite b) =
     (if 2 ^ 1024 \<le> a * b then PosInf else if a * b \<le> - (2 ^ 1024) then NegInf
      else Finite (a * b))"
| "f64_scale (Finite a) PosInf = (if 0 < a then PosInf else if a < 0 then NegInf else NaN)"
| "f64_scale _ _ = NaN"

fun f64_greater :: "float64 \<Rightarrow> rat \<Rightarrow> bool" where
  "f64_greater (Finite a) c \<longleftrightarrow> c < a"
| "f64_greater PosInf c \<longleftrightarrow> True"
| "f64_greater NegInf c \<longleftrightarrow> False"
| "f64_greater NaN c \<longleftrightarrow> False"

definition rat_trunc :: "rat \<Rightarrow> int" where
  "rat_trunc a = (if 0 \<le> a then \<lfloor>a\<rfloor> else \<lceil>a\<rceil>)"

definition f64_to_int64 :: "(float64 \<Rightarrow> int) \<Rightarrow> float64 \<Rightarrow> int" where
  "f64_to_int64 impl x =
     (case x of
        Finite a \<Rightarrow>
          (let t = rat_trunc a in if - (2 ^ 63) \<le> t \<and> t < 2 ^ 63 then t else impl x)
      | _ \<Rightarrow> impl x)"

definition int64_wrap :: "int \<Rightarrow> int" where
  "int64_wrap n = (n + 2 ^ 63) mod 2 ^ 64 - 2 ^ 63"

section \<open>The limiter\<close>

record 'k ItemExponentialFailureRateLimiter =
  failures :: "'k \<rightharpoonup> int"
  baseDelay :: int
  maxDelay :: int

type_synonym 'k limiter = "'k ItemExponentialFailureRateLimiter"

definition NewItemExponentialFailureRateLimiter :: "int \<Rightarrow> int \<Rightarrow> 'k limiter" where
  "NewItemExponentialFailureRateLimiter base maxd =
     \<lparr>failures = Map.empty, baseDelay = base, maxDelay = maxd\<rparr>"

text \<open>Reading a missing key of a Go map gives the zero value.\<close>

definition lookup0 :: "('k \<rightharpoonup> int) \<Rightarrow> 'k \<Rightarrow> int" where
  "lookup0 m k = (case m k of None \<Rightarrow> 0 | Some n \<Rightarrow> n)"

text \<open>\<open>float64(math.MaxInt64)\<close> is \<open>2^63\<close>, the bound the code compares against.\<close>

definition When :: "(float64 \<Rightarrow> int) \<Rightarrow> 'k \<Rightarrow> 'k limiter \<Rightarrow> int \<times> 'k limiter" where
  "When impl item r =
     (let exp = lookup0 (failures r) item;
          r' = r\<lparr>failures := (failures r)(item \<mapsto> int64_wrap (lookup0 (failures r) item + 1))\<rparr>;
          backoff = f64_scale (f64_of_int (baseDelay r)) (f64_pow2 exp)
      in if f64_greater backoff (2 ^ 63) then (maxDelay r, r')
         else
           let calculated = f64_to_int64 impl backoff
           in if calculated > maxDelay r then (maxDelay r, r') else (calculated, r'))"

definition limiter_NumRequeues :: "'k \<Rightarrow> 'k limiter \<Rightarrow> int" where
  "limiter_NumRequeues item r = lookup0 (failures r) item"

definition limiter_ResetRateLimit :: "'k \<Rightarrow> 'k limiter \<Rightarrow> 'k limiter" where
  "limiter_ResetRateLimit item r = r\<lparr>failures := (failures r)(item := None)\<rparr>"

text \<open>The delays of \<open>n\<close> calls of \<open>When\<close> in a row on one item.\<close>

fun Whens :: "(float64 \<Rightarrow> int) \<Rightarrow> 'k \<Rightarrow> nat \<Rightarrow> 'k limiter \<Rightarrow> int list \<times> 'k limiter" where
  "Whens impl item 0 r = ([], r)"
| "Whens impl item (Suc n) r =
     (let (d, r') = When impl item r; (ds, r'') = Whens impl item n r' in (d # ds, r''))"

section \<open>Laws of the arithmetic\<close>

lemma int64_wrap_id: "- (2 ^ 63) \<le> n \<Longrightarrow> n < 2 ^ 63 \<Longrightarrow> int64_wrap n = n"
  by (simp add: int64_wrap_def)

lemma rat_trunc_of_int [simp]: "rat_trunc (of_int n) = n"
  by (simp add: rat_trunc_def)

lemma f64_to_int64_of_int:
  "- (2 ^ 63) \<le> n \<Longrightarrow> n < 2 ^ 63 \<Longrightarrow> f64_to_int64 impl (Finite (of_int n)) = n"
  by (simp add: f64_to_int64_def)

lemma f64_scale_pow2:
  assumes "0 < base" and "base \<le> 2 ^ 53" and "0 \<le> e" and "base * 2 ^ nat e \<le> 2 ^ 63"
  shows "f64_scale (f64_of_int base) (f64_pow2 e) = Finite (of_int (base * 2 ^ nat e))"
proof -
  have "(2::int) ^ nat e \<le> base * 2 ^ nat e" using assms(1) by simp
  with assms(4) have "(2::int) ^ nat e \<le> 2 ^ 63" by linarith
  then have "nat e \<le> 63" by (rule power_le_imp_le_exp [rotated]) simp
  then have e: "e < 1024" using assms(3) by linarith
  have "of_int (base * 2 ^ nat e) \<le> (of_int (2 ^ 63) :: rat)"
    using assms(4) by (simp only: of_int_le_iff)
  then have le: "of_int base * (2 :: rat) ^ nat e \<le> 2 ^ 63" by simp
  also have "(2 :: rat) ^ 63 < 2 ^ 1024" by (rule power_strict_increasing) simp_all
  finally have small: "of_int base * (2 :: rat) ^ nat e < 2 ^ 1024" .
  have "- ((2 :: rat) ^ 1024) < 0" by simp
  also have "0 < of_int base * (2 :: rat) ^ nat e" using assms(1) by simp
  finally have "- ((2 :: rat) ^ 1024) < of_int base * 2 ^ nat e" .
  with small e assms show ?thesis
    by (simp add: f64_of_int_def round53_def f64_pow2_def not_le)
qed

lemma f64_scale_pow2_large:
  assumes "0 < base" and "base \<le> 2 ^ 53" and "0 \<le> e" and "2 ^ 63 < base * 2 ^ nat e"
  shows "f64_greater (f64_scale (f64_of_int base) (f64_pow2 e)) (2 ^ 63)"
proof (cases "1024 \<le> e")
  case True
  with assms show ?thesis by (simp add: f64_of_int_def round53_def f64_pow2_def)
next
  case False
  have "(of_int (2 ^ 63) :: rat) < of_int (base * 2 ^ nat e)"
    using assms(4) by (simp only: of_int_less_iff)
  then have gt: "2 ^ 63 < of_int base * (2 :: rat) ^ nat e" by simp
  have "- ((2 :: rat) ^ 1024) < 0" by simp
  also have "0 < of_int base * (2 :: rat) ^ nat e" using assms(1) by simp
  finally have "- ((2 :: rat) ^ 1024) < of_int base * 2 ^ nat e" .
  with False gt assms show ?thesis
    by (auto simp: f64_of_int_def round53_def f64_pow2_def not_le)
qed

section \<open>The delay of one call\<close>

lemma When_delay:
  assumes base: "0 < baseDelay r" "baseDelay r \<le> 2 ^ 53" and maxd: "maxDelay r < 2 ^ 63"
    and exp: "0 \<le> limiter_NumRequeues item r"
    and not_edge: "baseDelay r * 2 ^ nat (limiter_NumRequeues item r) \<noteq> 2 ^ 63"
  shows "fst (When impl item r) =
    min (maxDelay r) (baseDelay r * 2 ^ nat (limiter_NumRequeues item r))"
proof -
  define e where "e = limiter_NumRequeues item r"
  define b where "b = baseDelay r * 2 ^ nat e"
  define backoff where "backoff = f64_scale (f64_of_int (baseDelay r)) (f64_pow2 e)"
  have "0 < b" using base by (simp add: b_def)
  have When: "fst (When impl item r) =
    (if f64_greater backoff (2 ^ 63) then maxDelay r
     else if f64_to_int64 impl backoff > maxDelay r then maxDelay r
     else f64_to_int64 impl backoff)"
    by (simp add: When_def Let_def backoff_def e_def limiter_NumRequeues_def)
  show ?thesis
  proof (cases "b < 2 ^ 63")
    case True
    then have backoff: "backoff = Finite (of_int b)"
      using base exp f64_scale_pow2 [of "baseDelay r" e] by (simp add: backoff_def b_def e_def)
    have "of_int b < (of_int (2 ^ 63) :: rat)" using True by (simp only: of_int_less_iff)
    then have "\<not> f64_greater backoff (2 ^ 63)" by (simp add: backoff)
    moreover have "f64_to_int64 impl backoff = b"
      unfolding backoff by (rule f64_to_int64_of_int) (use True \<open>0 < b\<close> in simp_all)
    ultimately show ?thesis by (simp add: When b_def e_def min_def)
  next
    case False
    with not_edge have "2 ^ 63 < b" by (simp add: b_def e_def)
    then have "f64_greater backoff (2 ^ 63)"
      using base exp f64_scale_pow2_large [of "baseDelay r" e] by (simp add: backoff_def b_def e_def)
    with \<open>2 ^ 63 < b\<close> maxd show ?thesis by (simp add: When b_def e_def min_def)
  qed
qed

lemma When_state:
  "snd (When impl item r) =
     r\<lparr>failures := (failures r)(item \<mapsto> int64_wrap (limiter_NumRequeues item r + 1))\<rparr>"
  by (simp add: When_def Let_def limiter_NumRequeues_def)

lemma When_params [simp]:
  "baseDelay (snd (When impl item r)) = baseDelay r"
  "maxDelay (snd (When impl item r)) = maxDelay r"
  by (simp_all add: When_state)

lemma When_NumRequeues:
  assumes "0 \<le> limiter_NumRequeues item r" and "limiter_NumRequeues item r + 1 < 2 ^ 63"
  shows "limiter_NumRequeues item (snd (When impl item r)) = limiter_NumRequeues item r + 1"
proof -
  have "int64_wrap (limiter_NumRequeues item r + 1) = limiter_NumRequeues item r + 1"
    by (rule int64_wrap_id) (use assms in simp_all)
  then show ?thesis by (simp add: When_state limiter_NumRequeues_def lookup0_def)
qed

lemma When_other: "other \<noteq> item \<Longrightarrow>
  limiter_NumRequeues other (snd (When impl item r)) = limiter_NumRequeues other r"
  by (simp add: When_state limiter_NumRequeues_def lookup0_def)

lemma ResetRateLimit_NumRequeues [simp]:
  "limiter_NumRequeues other (limiter_ResetRateLimit item r) =
     (if other = item then 0 else limiter_NumRequeues other r)"
  by (simp add: limiter_NumRequeues_def limiter_ResetRateLimit_def lookup0_def)

lemma Whens_delays:
  assumes base: "0 < baseDelay r" "baseDelay r \<le> 2 ^ 53" and maxd: "maxDelay r < 2 ^ 63"
    and not_pow2: "\<And>k. baseDelay r * 2 ^ k \<noteq> 2 ^ 63"
  shows "0 \<le> limiter_NumRequeues item r \<Longrightarrow> limiter_NumRequeues item r + int n < 2 ^ 63 \<Longrightarrow>
    fst (Whens impl item n r) =
      map (\<lambda>k. min (maxDelay r) (baseDelay r * 2 ^ (nat (limiter_NumRequeues item r) + k))) [0..<n]
    \<and> limiter_NumRequeues item (snd (Whens impl item n r)) = limiter_NumRequeues item r + int n"
  using assms
proof (induction n arbitrary: r)
  case 0
  then show ?case by simp
next
  case (Suc n)
  define r' where "r' = snd (When impl item r)"
  define c where "c = limiter_NumRequeues item r"
  have c: "0 \<le> c" "c + 1 < 2 ^ 63" using Suc.prems(1,2) by (simp_all add: c_def)
  have c': "limiter_NumRequeues item r' = c + 1"
    unfolding r'_def c_def by (rule When_NumRequeues) (use c in \<open>simp_all add: c_def\<close>)
  have params: "baseDelay r' = baseDelay r" "maxDelay r' = maxDelay r" by (simp_all add: r'_def)
  have d: "fst (When impl item r) = min (maxDelay r) (baseDelay r * 2 ^ nat c)"
    unfolding c_def by (rule When_delay) (use Suc.prems in simp_all)
  have nat_c: "nat (c + 1) + k = nat c + Suc k" for k using c(1) by simp
  have IH: "fst (Whens impl item n r') =
      map (\<lambda>k. min (maxDelay r) (baseDelay r * 2 ^ (nat c + Suc k))) [0..<n]
    \<and> limiter_NumRequeues item (snd (Whens impl item n r')) = c + 1 + int n"
    using Suc.IH [of r'] Suc.prems by (simp add: c' params nat_c c_def [symmetric] del: map_eq_conv)
  have "Whens impl item (Suc n) r =
    (fst (When impl item r) # fst (Whens impl item n r'), snd (Whens impl item n r'))"
    by (simp add: r'_def split: prod.split)
  moreover have "[0..<Suc n] = 0 # map Suc [0..<n]" by (simp add: upt_conv_Cons map_Suc_upt)
  ultimately show ?case using IH d by (simp add: c_def [symmetric] o_def del: upt_Suc)
qed

section \<open>Properties\<close>

text \<open>
  The limiter of the collapsing queue (500 ms base, 10 s cap) answers the
  \<open>n\<close> consecutive failures of an item with \<open>500 ms * 2^k\<close> capped at 10 s, for
  \<open>k = 0, \<dots>, n - 1\<close>, and then counts \<open>n\<close> requeues; no delay is ever taken from
  an out-of-range conversion, and the counter does not wrap below \<open>2^63\<close> calls.
\<close>

theorem queue_backoff_schedule:
  assumes "int n < 2 ^ 63"
  shows "let (delays, r) = Whens impl item n (NewItemExponentialFailureRateLimiter 500000000 10000000000)
    in delays = map (\<lambda>k. min 10000000000 (500000000 * 2 ^ k)) [0..<n]
      \<and> limiter_NumRequeues item r = int n"
proof -
  have "(500000000 :: int) * 2 ^ k \<noteq> 2 ^ 63" for k
  proof
    assume eq: "(500000000 :: int) * 2 ^ k = 2 ^ 63"
    have "(5 :: int) dvd 500000000 * 2 ^ k" by simp
    then show False unfolding eq by simp
  qed
  then show ?thesis
    using assms Whens_delays [of "NewItemExponentialFailureRateLimiter 500000000 10000000000" item n impl]
    by (simp add: NewItemExponentialFailureRateLimiter_def limiter_NumRequeues_def lookup0_def
        split: prod.split) auto
qed

theorem queue_backoff_schedule_witness:
  "fst (Whens (\<lambda>_. - (2 ^ 63)) ''a'' 6 (NewItemExponentialFailureRateLimiter 500000000 10000000000)) =
     [500000000, 1000000000, 2000000000, 4000000000, 8000000000, 10000000000]"
  using queue_backoff_schedule [of 6 "\<lambda>_. - (2 ^ 63)" "''a''"]
  by (simp add: split_beta eval_nat_numeral)

text \<open>
  \<open>When\<close> answers \<open>min maxDelay (baseDelay * 2^failures)\<close> and counts one more
  failure, of that item only, for every base of at most \<open>2^53\<close> ns, provided the exact
  backoff is not \<open>2^63\<close>.
\<close>

theorem When_exact:
  assumes "0 < baseDelay r" and "baseDelay r \<le> 2 ^ 53" and "maxDelay r < 2 ^ 63"
    and "0 \<le> limiter_NumRequeues item r" and "limiter_NumRequeues item r + 1 < 2 ^ 63"
    and "baseDelay r * 2 ^ nat (limiter_NumRequeues item r) \<noteq> 2 ^ 63"
  shows "fst (When impl item r) =
      min (maxDelay r) (baseDelay r * 2 ^ nat (limiter_NumRequeues item r))
    \<and> limiter_NumRequeues item (snd (When impl item r)) = limiter_NumRequeues item r + 1
    \<and> (\<forall>other. other \<noteq> item \<longrightarrow>
          limiter_NumRequeues other (snd (When impl item r)) = limiter_NumRequeues other r)"
  by (intro conjI allI impI)
    (rule When_delay [OF assms(1,2,3,4,6)], rule When_NumRequeues [OF assms(4,5)],
      erule When_other)

theorem When_exact_witness:
  "fst (When (\<lambda>_. 0) ''a'' \<lparr>failures = [''a'' \<mapsto> 3], baseDelay = 7, maxDelay = 1000\<rparr>) = 56"
  using When_exact [of "\<lparr>failures = [''a'' \<mapsto> 3], baseDelay = 7, maxDelay = 1000\<rparr>" "''a''" "\<lambda>_. 0"]
  by (simp add: limiter_NumRequeues_def lookup0_def)

text \<open>
  The exception is real. With a base of 1 ns and 63 recorded failures the exact
  backoff is \<open>2^63\<close>, which is not greater than \<open>float64(math.MaxInt64) = 2^63\<close>: the code
  does not return the cap but converts a value that \<open>int64\<close> cannot hold, so it returns
  whatever the platform's conversion gives, and on one that gives the least \<open>int64\<close> the
  delay is negative.
\<close>

theorem When_overflow_edge:
  fixes maxd :: int
  defines "r \<equiv> \<lparr>failures = [''a'' \<mapsto> 63], baseDelay = 1, maxDelay = maxd\<rparr>"
  shows "fst (When impl ''a'' r) = min maxd (impl (Finite (2 ^ 63)))
    \<and> fst (When (\<lambda>_. - (2 ^ 63)) ''a'' (r\<lparr>maxDelay := 10000000000\<rparr>)) < 0"
proof -
  have backoff: "f64_scale (f64_of_int 1) (f64_pow2 63) = Finite (2 ^ 63)"
    using f64_scale_pow2 [of 1 63] by simp
  have conv: "f64_to_int64 c (Finite (2 ^ 63)) = c (Finite (2 ^ 63))" for c
    by (simp add: f64_to_int64_def rat_trunc_def)
  have "fst (When c ''a'' (r\<lparr>maxDelay := m\<rparr>)) = min m (c (Finite (2 ^ 63)))" for c m
    unfolding When_def r_def Let_def
    by (simp only: lookup0_def fun_upd_same option.case simps backoff conv f64_greater.simps)
      (simp add: min_def)
  from this [of impl maxd] this [of "\<lambda>_. - (2 ^ 63)" 10000000000] show ?thesis
    by (simp add: r_def)
qed

end
