(* ===== verification/Delayed_Queue.thy ===== *)
theory Delayed_Queue
  imports Collapsing_Queue Rate_Limiter
begin

text \<open>
  The delayed and rate-limited additions of \<open>collapsing_queue.go\<close>: the record of
  \<open>Collapsing_Queue\<close> extended by the fields that \<open>delayedLock\<close> guards, the wait group
  and the rate limiter. A \<open>*delayedEntry\<close> is the index of its entry, so that the
  comparison of pointers in the timer callback is an equality of indices; the timer of an entry
  is a status of the entry. Time is an integer number of nanoseconds read from a clock that only
  moves forward.

  The steps are the critical sections. \<open>AddAfter\<close> reads the clock before it takes
  \<open>delayedLock\<close>, so its locked part gets the reading \<open>t0\<close>, which may be older than
  the clock. While \<open>delayedLock\<close> is held, the nested section on \<open>cond.L\<close> only reads
  \<open>shuttingDown\<close>, which is written with \<open>delayedLock\<close> held, so it needs no step of its
  own; the same holds for the first part of the two shutdown methods.
\<close>

datatype timer_status =
    Pending      \<comment> \<open>the timer runs\<close>
  | Stopped      \<comment> \<open>\<open>Stop\<close> came first: the callback never runs\<close>
  | Fired        \<comment> \<open>the callback runs and has not taken \<open>delayedLock\<close>\<close>
  | Adding       \<comment> \<open>it removed the entry and is about to call \<open>Add\<close>\<close>
  | Leaving      \<comment> \<open>only the deferred \<open>wg.Done\<close> is left\<close>
  | Finished

record 'a delayedEntry =
  item_of :: 'a
  readyAt :: int
  fireAt :: int        \<comment> \<open>when \<open>time.AfterFunc\<close> runs the callback\<close>
  timer :: timer_status

record 'a dq = "'a collapsingQueue" +
  delayedEntries :: "'a \<rightharpoonup> nat"
  entries :: "'a delayedEntry list"
  wg :: int
  rateLimiter :: "'a limiter"
  clock :: int

definition New_dq :: "'a dq" where
  "New_dq = collapsingQueue.extend NewCollapsingQueue
     \<lparr>delayedEntries = Map.empty, entries = [], wg = 0,
      rateLimiter = NewItemExponentialFailureRateLimiter 500000000 10000000000, clock = 0\<rparr>"

definition set_timer :: "nat \<Rightarrow> timer_status \<Rightarrow> 'a dq \<Rightarrow> 'a dq" where
  "set_timer e st q = q\<lparr>entries := (entries q)[e := (entries q ! e)\<lparr>timer := st\<rparr>]\<rparr>"

definition wg_add :: "int \<Rightarrow> 'a dq \<Rightarrow> 'a dq" where
  "wg_add n q = q\<lparr>wg := wg q + n\<rparr>"

text \<open>\<open>if entry.timer.Stop() { q.wg.Done() }\<close>\<close>

definition stop_timer :: "nat \<Rightarrow> 'a dq \<Rightarrow> 'a dq" where
  "stop_timer e q =
     (if timer (entries q ! e) = Pending then wg_add (-1) (set_timer e Stopped q) else q)"

text \<open>\<open>wg.Add(1)\<close>, a new entry with its timer, and its registration.\<close>

definition start_entry :: "'a \<Rightarrow> int \<Rightarrow> int \<Rightarrow> 'a dq \<Rightarrow> 'a dq" where
  "start_entry item ready delay q =
     (let e = length (entries q); q' = wg_add 1 q
      in q'\<lparr>entries := entries q' @
              [\<lparr>item_of = item, readyAt = ready, fireAt = clock q + delay, timer = Pending\<rparr>],
            delayedEntries := (delayedEntries q')(item \<mapsto> e)\<rparr>)"

text \<open>The locked part of \<open>AddAfter\<close> for a positive delay and the clock reading \<open>t0\<close>.\<close>

definition AddAfter_locked :: "'a \<Rightarrow> int \<Rightarrow> int \<Rightarrow> 'a dq \<Rightarrow> 'a dq" where
  "AddAfter_locked item delay t0 q =
     (let ready = t0 + delay
      in if shuttingDown q then q
         else case delayedEntries q item of
           Some e \<Rightarrow>
             (if \<not> ready < readyAt (entries q ! e) then q
              else start_entry item ready delay (stop_timer e q))
         | None \<Rightarrow> start_entry item ready delay q)"

text \<open>\<open>AddAfter\<close> as a whole: without a positive delay it is \<open>Add\<close>.\<close>

definition AddAfter :: "'a \<Rightarrow> int \<Rightarrow> int \<Rightarrow> 'a dq \<Rightarrow> wake \<times> 'a dq" where
  "AddAfter item delay t0 q =
     (if delay \<le> 0 then cq_Add item q else (NoWake, AddAfter_locked item delay t0 q))"

definition dq_When :: "(float64 \<Rightarrow> int) \<Rightarrow> 'a \<Rightarrow> 'a dq \<Rightarrow> int \<times> 'a dq" where
  "dq_When impl item q =
     (case When impl item (rateLimiter q) of (d, r) \<Rightarrow> (d, q\<lparr>rateLimiter := r\<rparr>))"

definition AddRateLimited :: "(float64 \<Rightarrow> int) \<Rightarrow> 'a \<Rightarrow> int \<Rightarrow> 'a dq \<Rightarrow> wake \<times> 'a dq" where
  "AddRateLimited impl item t0 q =
     (case dq_When impl item q of (delay, q') \<Rightarrow> AddAfter item delay t0 q')"

definition ResetRateLimit :: "'a \<Rightarrow> 'a dq \<Rightarrow> 'a dq" where
  "ResetRateLimit item q = q\<lparr>rateLimiter := limiter_ResetRateLimit item (rateLimiter q)\<rparr>"

definition NumRequeues :: "'a \<Rightarrow> 'a dq \<Rightarrow> int" where
  "NumRequeues item q = limiter_NumRequeues item (rateLimiter q)"

text \<open>The timer callback, section by section.\<close>

definition callback_locked :: "nat \<Rightarrow> 'a dq \<Rightarrow> 'a dq" where
  "callback_locked e q =
     (let item = item_of (entries q ! e)
      in if delayedEntries q item \<noteq> Some e then set_timer e Leaving q
         else set_timer e Adding (q\<lparr>delayedEntries := (delayedEntries q)(item := None)\<rparr>))"

definition callback_add :: "nat \<Rightarrow> 'a dq \<Rightarrow> wake \<times> 'a dq" where
  "callback_add e q =
     (case cq_Add (item_of (entries q ! e)) q of (w, q') \<Rightarrow> (w, set_timer e Leaving q'))"

definition callback_leave :: "nat \<Rightarrow> 'a dq \<Rightarrow> 'a dq" where
  "callback_leave e q = wg_add (-1) (set_timer e Finished q)"

text \<open>
  \<open>cancelDelayedEntries\<close>: a \<open>range\<close> loop over the map that deletes each key and stops its
  timer; the order of the keys is an argument.
\<close>

fun cancel_loop :: "'a list \<Rightarrow> 'a dq \<Rightarrow> 'a dq" where
  "cancel_loop [] q = q"
| "cancel_loop (item # rest) q =
     (case delayedEntries q item of
        None \<Rightarrow> cancel_loop rest q
      | Some e \<Rightarrow>
          cancel_loop rest
            (stop_timer e (q\<lparr>delayedEntries := (delayedEntries q)(item := None)\<rparr>)))"

definition cancelDelayedEntries :: "'a list \<Rightarrow> 'a dq \<Rightarrow> 'a dq" where
  "cancelDelayedEntries order q = cancel_loop order q"

text \<open>The part of the two shutdown methods that holds \<open>delayedLock\<close>.\<close>

definition dq_ShutDown :: "'a list \<Rightarrow> 'a dq \<Rightarrow> wake \<times> 'a dq" where
  "dq_ShutDown order q =
     (case cq_ShutDown q of (w, q') \<Rightarrow> (w, cancelDelayedEntries order q'))"

definition dq_ShutDownWithDrain :: "'a list \<Rightarrow> 'a dq \<Rightarrow> wake \<times> 'a dq" where
  "dq_ShutDownWithDrain order q =
     (case cq_ShutDownWithDrain q of (w, q') \<Rightarrow> (w, cancelDelayedEntries order q'))"

section \<open>The machine\<close>

datatype 'a dact =
    ActAdd 'a
  | ActGet
  | ActDone 'a
  | ActAddAfter 'a int int        \<comment> \<open>item, delay, clock reading\<close>
  | ActWhen 'a                    \<comment> \<open>the limiter's part of \<open>AddRateLimited\<close>\<close>
  | ActReset 'a
  | ActTick int
  | ActFire nat
  | ActCallbackLock nat
  | ActCallbackAdd nat
  | ActCallbackLeave nat
  | ActShutDown "'a list"
  | ActDrain "'a list"

definition enumerates_keys :: "'a list \<Rightarrow> ('a \<rightharpoonup> nat) \<Rightarrow> bool" where
  "enumerates_keys order m \<longleftrightarrow> distinct order \<and> set order = dom m"

definition status :: "'a dq \<Rightarrow> nat \<Rightarrow> timer_status option" where
  "status q e = (if e < length (entries q) then Some (timer (entries q ! e)) else None)"

fun dexec :: "(float64 \<Rightarrow> int) \<Rightarrow> 'a dq \<Rightarrow> 'a dact \<Rightarrow> 'a dq option" where
  "dexec impl q (ActAdd x) = Some (snd (cq_Add x q))"
| "dexec impl q ActGet = Some (snd (cq_Get q))"
| "dexec impl q (ActDone x) = (if x |\<in>| processing q then Some (snd (cq_Done x q)) else None)"
| "dexec impl q (ActAddAfter x delay t0) =
     (if t0 \<le> clock q then Some (snd (AddAfter x delay t0 q)) else None)"
| "dexec impl q (ActWhen x) = Some (snd (dq_When impl x q))"
| "dexec impl q (ActReset x) = Some (ResetRateLimit x q)"
| "dexec impl q (ActTick d) = (if 0 \<le> d then Some (q\<lparr>clock := clock q + d\<rparr>) else None)"
| "dexec impl q (ActFire e) =
     (if status q e = Some Pending \<and> fireAt (entries q ! e) \<le> clock q
      then Some (set_timer e Fired q) else None)"
| "dexec impl q (ActCallbackLock e) =
     (if status q e = Some Fired then Some (callback_locked e q) else None)"
| "dexec impl q (ActCallbackAdd e) =
     (if status q e = Some Adding then Some (snd (callback_add e q)) else None)"
| "dexec impl q (ActCallbackLeave e) =
     (if status q e = Some Leaving then Some (callback_leave e q) else None)"
| "dexec impl q (ActShutDown order) =
     (if enumerates_keys order (delayedEntries q) then Some (snd (dq_ShutDown order q)) else None)"
| "dexec impl q (ActDrain order) =
     (if enumerates_keys order (delayedEntries q)
      then Some (snd (dq_ShutDownWithDrain order q)) else None)"

definition dinit :: "'a dq \<Rightarrow> bool" where
  "dinit q \<longleftrightarrow> q = New_dq"

section \<open>The invariant\<close>

definition live :: "'a delayedEntry \<Rightarrow> bool" where
  "live d \<longleftrightarrow> timer d \<noteq> Stopped \<and> timer d \<noteq> Finished"

text \<open>
  A registered entry has a timer that runs or has fired; a running timer belongs to the
  registered entry of its item; the wait group counts the entries whose callback is still to
  finish; and no callback runs before the entry's deadline.
\<close>

definition entries_ok ::
  "('a \<rightharpoonup> nat) \<Rightarrow> 'a delayedEntry list \<Rightarrow> int \<Rightarrow> int \<Rightarrow> bool" where
  "entries_ok D E now w \<longleftrightarrow>
     (\<forall>x e. D x = Some e \<longrightarrow> e < length E \<and> item_of (E ! e) = x \<and> timer (E ! e) \<in> {Pending, Fired})
     \<and> (\<forall>e < length E. timer (E ! e) = Pending \<longrightarrow> D (item_of (E ! e)) = Some e)
     \<and> w = int (length (filter live E))
     \<and> (\<forall>e < length E. readyAt (E ! e) \<le> fireAt (E ! e)
          \<and> (timer (E ! e) \<notin> {Pending, Stopped} \<longrightarrow> fireAt (E ! e) \<le> now))"

definition d_inv :: "'a dq \<Rightarrow> bool" where
  "d_inv q \<longleftrightarrow> cq_inv q \<and> entries_ok (delayedEntries q) (entries q) (clock q) (wg q)
     \<and> (shuttingDown q \<longrightarrow> delayedEntries q = Map.empty)"

abbreviation with_timer :: "'a delayedEntry list \<Rightarrow> nat \<Rightarrow> timer_status \<Rightarrow> 'a delayedEntry list" where
  "with_timer E e st \<equiv> E[e := (E ! e)\<lparr>timer := st\<rparr>]"

lemma live_count_update:
  "e < length E \<Longrightarrow> int (length (filter live (with_timer E e st))) =
     int (length (filter live E)) - (if live (E ! e) then 1 else 0)
       + (if st \<noteq> Stopped \<and> st \<noteq> Finished then 1 else 0)"
  using length_filter_update [of e E live "(E ! e)\<lparr>timer := st\<rparr>"]
  by (auto simp: live_def split: if_splits)

lemma entries_ok_reg:
  "entries_ok D E now w \<Longrightarrow> D x = Some e \<Longrightarrow>
   e < length E \<and> item_of (E ! e) = x \<and> (timer (E ! e) = Pending \<or> timer (E ! e) = Fired)"
  by (simp add: entries_ok_def)

text \<open>Unregistering an entry and stopping its timer.\<close>

lemma entries_ok_stop:
  assumes ok: "entries_ok D E now w" and e: "D x = Some e"
  shows "entries_ok (D(x := None))
    (if timer (E ! e) = Pending then with_timer E e Stopped else E)
    now (if timer (E ! e) = Pending then w - 1 else w)"
proof -
  from ok e have le: "e < length E" and item: "item_of (E ! e) = x"
    and st: "timer (E ! e) = Pending \<or> timer (E ! e) = Fired" by (auto simp: entries_ok_def)
  have other: "k \<noteq> e" if "D y = Some k" "y \<noteq> x" for y k
    using that ok e unfolding entries_ok_def by metis
  from st show ?thesis
  proof
    assume p: "timer (E ! e) = Pending"
    with ok e le item other live_count_update [OF le, of Stopped] show ?thesis
      by (auto simp: entries_ok_def nth_update live_def)
  next
    assume "timer (E ! e) = Fired"
    with ok e le item other show ?thesis by (auto simp: entries_ok_def)
  qed
qed

lemma entries_ok_start:
  assumes "entries_ok D E now w" and "D x = None" and "ready \<le> fire"
  shows "entries_ok (D(x \<mapsto> length E))
    (E @ [\<lparr>item_of = x, readyAt = ready, fireAt = fire, timer = Pending\<rparr>]) now (w + 1)"
  using assms by (auto simp: entries_ok_def nth_append live_def less_Suc_eq)

lemma entries_ok_fire:
  assumes "entries_ok D E now w" and "e < length E" and "timer (E ! e) = Pending"
    and "fireAt (E ! e) \<le> now"
  shows "entries_ok D (with_timer E e Fired) now w"
  using assms live_count_update [OF assms(2), of Fired]
  by (auto simp: entries_ok_def nth_update live_def)

lemma entries_ok_advance:
  assumes "entries_ok D E now w" and "e < length E"
    and "timer (E ! e) \<notin> {Pending, Stopped, Finished}" and "\<And>x. D x \<noteq> Some e"
    and "st = Adding \<or> st = Leaving"
  shows "entries_ok D (with_timer E e st) now w"
  using assms live_count_update [OF assms(2), of st]
  by (auto simp: entries_ok_def nth_update live_def)

lemma entries_ok_unregister:
  assumes "entries_ok D E now w" and "D x = Some e" and "timer (E ! e) = Fired"
  shows "entries_ok (D(x := None)) E now w"
  using entries_ok_stop [OF assms(1,2)] assms(3) by simp

lemma entries_ok_finish:
  assumes "entries_ok D E now w" and "e < length E" and "timer (E ! e) = Leaving"
  shows "entries_ok D (with_timer E e Finished) now (w - 1)"
  using assms live_count_update [OF assms(2), of Finished] entries_ok_reg [OF assms(1), of _ e]
  by (auto simp: entries_ok_def nth_update live_def)

lemma entries_ok_tick: "entries_ok D E now w \<Longrightarrow> now \<le> now' \<Longrightarrow> entries_ok D E now' w"
  by (force simp: entries_ok_def)

section \<open>Every step keeps the invariant\<close>

lemma core_frame [simp]:
  "delayedEntries (snd (cq_Add x q)) = delayedEntries q"
  "entries (snd (cq_Add x q)) = entries q" "clock (snd (cq_Add x q)) = clock q"
  "wg (snd (cq_Add x q)) = wg q" "rateLimiter (snd (cq_Add x q)) = rateLimiter q"
  "delayedEntries (snd (cq_Done x q)) = delayedEntries q"
  "entries (snd (cq_Done x q)) = entries q" "clock (snd (cq_Done x q)) = clock q"
  "wg (snd (cq_Done x q)) = wg q" "rateLimiter (snd (cq_Done x q)) = rateLimiter q"
  by (simp_all add: cq_Add_def cq_Done_def Let_def)

lemma core_frame_Get [simp]:
  "delayedEntries (snd (cq_Get q)) = delayedEntries q"
  "entries (snd (cq_Get q)) = entries q" "clock (snd (cq_Get q)) = clock q"
  "wg (snd (cq_Get q)) = wg q" "shuttingDown (snd (cq_Get q)) = shuttingDown q"
  by (cases "queue q"; simp add: cq_Get_Nil_Get cq_Get_Cons_Get)+

lemma cq_inv_core:
  "cq_inv (set_timer e st q) = cq_inv q" "cq_inv (wg_add n q) = cq_inv q"
  "cq_inv (q\<lparr>delayedEntries := D\<rparr>) = cq_inv q"
  "cq_inv (q\<lparr>clock := t\<rparr>) = cq_inv q" "cq_inv (q\<lparr>rateLimiter := r\<rparr>) = cq_inv q"
  "cq_inv (stop_timer e q) = cq_inv q" "cq_inv (start_entry x ready delay q) = cq_inv q"
  by (simp_all add: cq_inv_def set_timer_def wg_add_def stop_timer_def start_entry_def Let_def)

lemma d_inv_stop_and_start:
  assumes "d_inv q" and "delayedEntries q x = Some e" and "ready \<le> clock q + delay"
    and "\<not> shuttingDown q"
  shows "d_inv (start_entry x ready delay (stop_timer e q))"
proof -
  let ?p = "timer (entries q ! e) = Pending"
  have "entries_ok ((delayedEntries q)(x := None))
      (if ?p then with_timer (entries q) e Stopped else entries q) (clock q)
      (if ?p then wg q - 1 else wg q)"
    using assms(1,2) by (intro entries_ok_stop) (simp_all add: d_inv_def)
  from entries_ok_start [OF this _ assms(3), of x] assms(1,4) show ?thesis
    by (auto simp: d_inv_def cq_inv_core)
      (auto simp: start_entry_def stop_timer_def set_timer_def wg_add_def Let_def split: if_splits)
qed

lemma d_inv_start:
  assumes "d_inv q" and "delayedEntries q x = None" and "ready \<le> clock q + delay"
    and "\<not> shuttingDown q"
  shows "d_inv (start_entry x ready delay q)"
  using assms entries_ok_start [of "delayedEntries q" "entries q" "clock q" "wg q" x ready]
  by (auto simp: d_inv_def cq_inv_core) (auto simp: start_entry_def wg_add_def Let_def)

lemma d_inv_Add: "d_inv q \<Longrightarrow> d_inv (snd (cq_Add x q))"
  by (auto simp: d_inv_def)

lemma d_inv_AddAfter: "d_inv q \<Longrightarrow> t0 \<le> clock q \<Longrightarrow> d_inv (snd (AddAfter x delay t0 q))"
  by (auto simp: AddAfter_def AddAfter_locked_def Let_def d_inv_Add
      intro!: d_inv_start d_inv_stop_and_start split: option.splits)

lemma d_inv_cancel:
  "cq_inv q \<Longrightarrow> entries_ok (delayedEntries q) (entries q) (clock q) (wg q) \<Longrightarrow>
   cq_inv (cancel_loop order q)
   \<and> entries_ok (delayedEntries (cancel_loop order q)) (entries (cancel_loop order q))
       (clock (cancel_loop order q)) (wg (cancel_loop order q))
   \<and> delayedEntries (cancel_loop order q) = (delayedEntries q) |` (- set order)
   \<and> clock (cancel_loop order q) = clock q"
proof (induction order arbitrary: q)
  case Nil
  then show ?case by (simp add: restrict_map_def)
next
  case (Cons x rest)
  show ?case
  proof (cases "delayedEntries q x")
    case None
    then have "(delayedEntries q) |` (- set rest) = (delayedEntries q) |` (- set (x # rest))"
      by (auto simp: restrict_map_def)
    with None Cons.IH [OF Cons.prems] show ?thesis by auto
  next
    case (Some e)
    let ?q = "stop_timer e (q\<lparr>delayedEntries := (delayedEntries q)(x := None)\<rparr>)"
    have ok: "entries_ok (delayedEntries ?q) (entries ?q) (clock ?q) (wg ?q)"
      using entries_ok_stop [OF Cons.prems(2) Some]
      by (auto simp: stop_timer_def set_timer_def wg_add_def split: if_splits)
    have cq: "cq_inv ?q" using Cons.prems(1) by (simp add: cq_inv_core)
    have D: "delayedEntries ?q = (delayedEntries q)(x := None)" and clk: "clock ?q = clock q"
      by (simp_all add: stop_timer_def set_timer_def wg_add_def)
    have restr: "((delayedEntries q)(x := None)) |` (- set rest) =
        (delayedEntries q) |` (- set (x # rest))"
      by (auto simp: restrict_map_def)
    have eq: "cancel_loop (x # rest) q = cancel_loop rest ?q" using Some by simp
    show ?thesis unfolding eq by (rule Cons.IH [OF cq ok, unfolded D clk restr])
  qed
qed

lemma cancel_loop_shut [simp]: "shuttingDown (cancel_loop order q) = shuttingDown q"
  by (induction order q rule: cancel_loop.induct)
    (auto simp: stop_timer_def set_timer_def wg_add_def split: option.splits)

lemma d_inv_ShutDown:
  assumes "d_inv q" and "enumerates_keys order (delayedEntries q)"
    and "q' = q\<lparr>drain := b, shuttingDown := True\<rparr>"
  shows "d_inv (cancelDelayedEntries order q')"
proof -
  have "cq_inv q'" and "entries_ok (delayedEntries q') (entries q') (clock q') (wg q')"
    and D: "delayedEntries q' = delayedEntries q"
    using assms(1,3) by (auto simp: d_inv_def cq_inv_def)
  from d_inv_cancel [OF this(1,2), of order] D show ?thesis
    using assms(2) by (auto simp: d_inv_def cancelDelayedEntries_def enumerates_keys_def
        restrict_map_def dom_def)
qed

lemma d_inv_callback_locked:
  assumes "d_inv q" and "status q e = Some Fired"
  shows "d_inv (callback_locked e q)"
proof -
  let ?x = "item_of (entries q ! e)"
  have e: "e < length (entries q)" "timer (entries q ! e) = Fired"
    using assms(2) by (auto simp: status_def split: if_splits)
  have ok: "entries_ok (delayedEntries q) (entries q) (clock q) (wg q)"
    using assms(1) by (simp add: d_inv_def)
  then have reg: "delayedEntries q y = Some e \<Longrightarrow> y = ?x" for y by (auto simp: entries_ok_def)
  show ?thesis
  proof (cases "delayedEntries q ?x = Some e")
    case True
    have "entries_ok ((delayedEntries q)(?x := None)) (with_timer (entries q) e Adding)
        (clock q) (wg q)"
      by (rule entries_ok_advance [OF entries_ok_unregister [OF ok True e(2)] e(1)])
        (use e reg in \<open>auto split: if_splits\<close>)
    then show ?thesis using True assms(1)
      by (auto simp: callback_locked_def d_inv_def cq_inv_core Let_def)
        (auto simp: set_timer_def)
  next
    case False
    have "entries_ok (delayedEntries q) (with_timer (entries q) e Leaving) (clock q) (wg q)"
      by (rule entries_ok_advance [OF ok e(1)]) (use e reg False in auto)
    then show ?thesis using False assms(1)
      by (auto simp: callback_locked_def d_inv_def cq_inv_core Let_def)
        (auto simp: set_timer_def)
  qed
qed

lemma d_inv_callback_add:
  assumes "d_inv q" and "status q e = Some Adding"
  shows "d_inv (snd (callback_add e q))"
proof -
  let ?q = "snd (cq_Add (item_of (entries q ! e)) q)"
  have e: "e < length (entries q)" "timer (entries q ! e) = Adding"
    using assms(2) by (auto simp: status_def split: if_splits)
  have ok: "entries_ok (delayedEntries q) (entries q) (clock q) (wg q)"
    using assms(1) by (simp add: d_inv_def)
  have "entries_ok (delayedEntries q) (with_timer (entries q) e Leaving) (clock q) (wg q)"
    by (rule entries_ok_advance [OF ok e(1)]) (use e entries_ok_reg [OF ok, of _ e] in auto)
  moreover have "cq_inv ?q" using assms(1) by (auto simp: d_inv_def)
  moreover have "snd (callback_add e q) = set_timer e Leaving ?q"
    by (simp add: callback_add_def split: prod.split)
  ultimately show ?thesis using assms(1)
    by (simp add: d_inv_def cq_inv_core) (simp add: set_timer_def)
qed

lemma d_inv_callback_leave:
  assumes "d_inv q" and "status q e = Some Leaving"
  shows "d_inv (callback_leave e q)"
proof -
  have e: "e < length (entries q)" "timer (entries q ! e) = Leaving"
    using assms(2) by (auto simp: status_def split: if_splits)
  have "entries_ok (delayedEntries q) (with_timer (entries q) e Finished) (clock q) (wg q - 1)"
    using assms(1) e by (intro entries_ok_finish) (auto simp: d_inv_def)
  then show ?thesis using assms(1)
    by (simp add: callback_leave_def d_inv_def cq_inv_core)
      (simp add: set_timer_def wg_add_def)
qed

lemma d_inv_fire:
  assumes "d_inv q" and "status q e = Some Pending" and "fireAt (entries q ! e) \<le> clock q"
  shows "d_inv (set_timer e Fired q)"
proof -
  have e: "e < length (entries q)" "timer (entries q ! e) = Pending"
    using assms(2) by (auto simp: status_def split: if_splits)
  have "entries_ok (delayedEntries q) (with_timer (entries q) e Fired) (clock q) (wg q)"
    using assms(1,3) e by (intro entries_ok_fire) (auto simp: d_inv_def)
  then show ?thesis using assms(1)
    by (simp add: d_inv_def cq_inv_core) (simp add: set_timer_def)
qed

lemma d_inv_step: "d_inv q \<Longrightarrow> dexec impl q a = Some q' \<Longrightarrow> d_inv q'"
proof (cases a)
  case (ActGet)
  assume "d_inv q" "dexec impl q a = Some q'"
  with ActGet show ?thesis
    using cq_inv_Get [of q "fst (cq_Get q)" "snd (cq_Get q)"] by (auto simp: d_inv_def)
next
  case (ActTick d)
  assume "d_inv q" "dexec impl q a = Some q'"
  with ActTick show ?thesis
    by (auto simp: d_inv_def cq_inv_core intro: entries_ok_tick split: if_splits)
next
  case (ActDone x)
  assume "d_inv q" "dexec impl q a = Some q'"
  with ActDone show ?thesis by (auto simp: d_inv_def split: if_splits)
next
  case (ActWhen x)
  assume "d_inv q" "dexec impl q a = Some q'"
  with ActWhen show ?thesis
    by (auto simp: d_inv_def dq_When_def cq_inv_core split: prod.splits)
next
  case (ActReset x)
  assume "d_inv q" "dexec impl q a = Some q'"
  with ActReset show ?thesis by (auto simp: d_inv_def ResetRateLimit_def cq_inv_core)
next
  case (ActShutDown order)
  assume "d_inv q" "dexec impl q a = Some q'"
  with ActShutDown show ?thesis
    by (auto simp: dq_ShutDown_def cq_ShutDown_def intro: d_inv_ShutDown split: if_splits)
next
  case (ActDrain order)
  assume "d_inv q" "dexec impl q a = Some q'"
  with ActDrain show ?thesis
    by (auto simp: dq_ShutDownWithDrain_def cq_ShutDownWithDrain_def intro: d_inv_ShutDown
        split: if_splits)
qed (auto simp: d_inv_Add d_inv_AddAfter d_inv_fire d_inv_callback_locked d_inv_callback_add
      d_inv_callback_leave split: if_splits)

lemma d_inv_init: "dinit q \<Longrightarrow> d_inv q"
  by (auto simp: dinit_def New_dq_def d_inv_def entries_ok_def cq_inv_iff NewCollapsingQueue_def
      set_op_defs collapsingQueue.defs)

interpretation dq: transition_invariant dinit "by_exec (dexec impl)" d_inv
  by unfold_locales (auto simp: by_exec_def intro: d_inv_init d_inv_step)

section \<open>After the shutdown\<close>

text \<open>
  Once the queue is shut down and no entry is live, no step makes one live again: this is
  what serialising \<open>AddAfter\<close> with the shutdown by \<open>delayedLock\<close> is for.
\<close>

definition quiet :: "'a dq \<Rightarrow> bool" where
  "quiet q \<longleftrightarrow> shuttingDown q \<and> (\<forall>d \<in> set (entries q). \<not> live d)"

lemma quiet_status: "quiet q \<Longrightarrow> status q e = Some st \<Longrightarrow> st = Stopped \<or> st = Finished"
  by (auto simp: quiet_def status_def live_def split: if_splits dest: nth_mem)

lemma quiet_cancel:
  "\<forall>d \<in> set (entries q). \<not> live d \<Longrightarrow> \<forall>x e. delayedEntries q x = Some e \<longrightarrow> e < length (entries q) \<Longrightarrow>
   entries (cancel_loop order q) = entries q"
proof (induction order arbitrary: q)
  case Nil
  then show ?case by simp
next
  case (Cons x rest)
  show ?case
  proof (cases "delayedEntries q x")
    case None
    with Cons show ?thesis by simp
  next
    case (Some e)
    let ?q = "q\<lparr>delayedEntries := (delayedEntries q)(x := None)\<rparr>"
    have "entries q ! e \<in> set (entries q)" using Cons.prems(2) Some by simp
    then have "timer (entries q ! e) \<noteq> Pending" using Cons.prems(1) by (auto simp: live_def)
    then have "stop_timer e ?q = ?q" by (simp add: stop_timer_def)
    then have eq: "cancel_loop (x # rest) q = cancel_loop rest ?q" using Some by simp
    show ?thesis unfolding eq using Cons.IH [of ?q] Cons.prems by simp
  qed
qed

lemma quiet_step:
  assumes "quiet q" and "d_inv q" and "dexec impl q a = Some q'"
  shows "quiet q'"
proof -
  have D: "delayedEntries q = Map.empty" using assms(1,2) by (simp add: quiet_def d_inv_def)
  have none: "status q e \<noteq> Some Pending" "status q e \<noteq> Some Fired" "status q e \<noteq> Some Adding"
    "status q e \<noteq> Some Leaving" for e
    using quiet_status [OF assms(1)] by blast+
  show ?thesis
  proof (cases a)
    case (ActShutDown order)
    with assms D show ?thesis
      by (auto simp: quiet_def dq_ShutDown_def cq_ShutDown_def cancelDelayedEntries_def
          quiet_cancel split: if_splits)
  next
    case (ActDrain order)
    with assms D show ?thesis
      by (auto simp: quiet_def dq_ShutDownWithDrain_def cq_ShutDownWithDrain_def
          cancelDelayedEntries_def quiet_cancel split: if_splits)
  next
    case (ActWhen x)
    with assms show ?thesis by (auto simp: quiet_def dq_When_def split: prod.splits)
  qed (use assms none in \<open>auto simp: quiet_def AddAfter_def AddAfter_locked_def Let_def
        ResetRateLimit_def split: if_splits\<close>)
qed

lemma reach_from_quiet:
  "reach ((=) q) (by_exec (dexec impl)) q' \<Longrightarrow> quiet q \<Longrightarrow> d_inv q \<Longrightarrow> quiet q' \<and> d_inv q'"
  by (induction rule: reach.induct) (auto simp: by_exec_def intro: quiet_step d_inv_step)

lemma no_live_filter: "length (filter live E) = 0 \<longleftrightarrow> (\<forall>d \<in> set E. \<not> live d)"
  by (simp add: filter_empty_conv)

section \<open>What AddAfter registers\<close>

lemma stop_timer_fields [simp]:
  "delayedEntries (stop_timer e q) = delayedEntries q" "clock (stop_timer e q) = clock q"
  "length (entries (stop_timer e q)) = length (entries q)"
  "queue (stop_timer e q) = queue q" "dirty (stop_timer e q) = dirty q"
  by (simp_all add: stop_timer_def set_timer_def wg_add_def)

lemma start_entry_fields [simp]:
  "delayedEntries (start_entry x r d q) = (delayedEntries q)(x \<mapsto> length (entries q))"
  "entries (start_entry x r d q) = entries q @
     [\<lparr>item_of = x, readyAt = r, fireAt = clock q + d, timer = Pending\<rparr>]"
  "queue (start_entry x r d q) = queue q" "dirty (start_entry x r d q) = dirty q"
  by (simp_all add: start_entry_def wg_add_def Let_def)

definition deadline :: "'a dq \<Rightarrow> 'a \<Rightarrow> int option" where
  "deadline q x = map_option (\<lambda>e. readyAt (entries q ! e)) (delayedEntries q x)"

lemma deadline_start:
  assumes "\<And>y e. delayedEntries q y = Some e \<Longrightarrow> e < length (entries q)"
  shows "deadline (start_entry x r d q) = (deadline q)(x \<mapsto> r)"
proof
  fix y
  show "deadline (start_entry x r d q) y = ((deadline q)(x \<mapsto> r)) y"
    using assms [of y] by (cases "delayedEntries q y") (auto simp: deadline_def nth_append)
qed

lemma deadline_stop: "e < length (entries q) \<Longrightarrow> deadline (stop_timer e q) = deadline q"
proof
  fix x
  assume "e < length (entries q)"
  then have "readyAt (entries (stop_timer e q) ! k) = readyAt (entries q ! k)" for k
    by (cases "k = e") (simp_all add: stop_timer_def set_timer_def wg_add_def)
  then show "deadline (stop_timer e q) x = deadline q x" by (simp add: deadline_def)
qed

lemma AddAfter_deadline:
  assumes "d_inv q" and "0 < delay" and "\<not> shuttingDown q"
  shows "deadline (snd (AddAfter x delay t0 q)) =
    (deadline q)(x \<mapsto> (case deadline q x of None \<Rightarrow> t0 + delay | Some r \<Rightarrow> min r (t0 + delay)))"
proof -
  have reg: "\<And>y e. delayedEntries q y = Some e \<Longrightarrow> e < length (entries q)"
    using assms(1) entries_ok_reg by (force simp: d_inv_def)
  show ?thesis
  proof (cases "delayedEntries q x")
    case None
    with assms show ?thesis using deadline_start [of q, OF reg]
      by (simp add: AddAfter_def AddAfter_locked_def Let_def deadline_def [of q x])
  next
    case (Some e)
    have stop: "deadline (start_entry x r d (stop_timer e q)) = (deadline q)(x \<mapsto> r)" for r d
      using deadline_start [of "stop_timer e q"] reg deadline_stop [OF reg [OF Some]] by simp
    have "deadline q x = Some (readyAt (entries q ! e))" using Some by (simp add: deadline_def)
    with Some assms show ?thesis
      by (auto simp: AddAfter_def AddAfter_locked_def Let_def stop min_def fun_eq_iff)
  qed
qed

lemma AddAfter_queue:
  "0 < delay \<Longrightarrow> queue (snd (AddAfter x delay t0 q)) = queue q
     \<and> dirty (snd (AddAfter x delay t0 q)) = dirty q"
  by (simp add: AddAfter_def AddAfter_locked_def Let_def split: option.split)

section \<open>A delayed addition is not forgotten\<close>

lemma readyAt_set_timer [simp]: "readyAt (entries (set_timer e st q) ! k) = readyAt (entries q ! k)"
  by (cases "k = e"; cases "e < length (entries q)")
    (simp_all add: set_timer_def list_update_beyond)

lemma item_set_timer [simp]: "item_of (entries (set_timer e st q) ! k) = item_of (entries q ! k)"
  by (cases "k = e"; cases "e < length (entries q)")
    (simp_all add: set_timer_def list_update_beyond)

lemma set_timer_fields [simp]:
  "delayedEntries (set_timer e st q) = delayedEntries q" "clock (set_timer e st q) = clock q"
  "length (entries (set_timer e st q)) = length (entries q)"
  "dirty (set_timer e st q) = dirty q" "shuttingDown (set_timer e st q) = shuttingDown q"
  by (simp_all add: set_timer_def)

lemma status_set_timer:
  "status (set_timer e st q) k = (if k = e \<and> e < length (entries q) then Some st else status q k)"
  by (auto simp: status_def set_timer_def)

lemma status_core [simp]:
  "status (snd (cq_Add x q)) k = status q k" "status (snd (cq_Done x q)) k = status q k"
  "status (snd (cq_Get q)) k = status q k" "status (wg_add n q) k = status q k"
  "status (q\<lparr>delayedEntries := D\<rparr>) k = status q k" "status (q\<lparr>clock := t\<rparr>) k = status q k"
  "status (q\<lparr>rateLimiter := r\<rparr>) k = status q k"
  by (simp_all add: status_def wg_add_def)

lemma snd_callback_add:
  "snd (callback_add e q) = set_timer e Leaving (snd (cq_Add (item_of (entries q ! e)) q))"
  by (simp add: callback_add_def split: prod.split)

lemma snd_dq_When: "snd (dq_When impl x q) = q\<lparr>rateLimiter := snd (When impl x (rateLimiter q))\<rparr>"
  by (simp add: dq_When_def split: prod.split)

lemma deadline_set_timer [simp]: "deadline (set_timer e st q) = deadline q"
  by (rule ext) (simp add: deadline_def)

lemma deadline_core [simp]:
  "deadline (snd (cq_Add x q)) = deadline q" "deadline (snd (cq_Done x q)) = deadline q"
  "deadline (snd (cq_Get q)) = deadline q" "deadline (wg_add n q) = deadline q"
  "deadline (q\<lparr>clock := t\<rparr>) = deadline q" "deadline (q\<lparr>rateLimiter := r\<rparr>) = deadline q"
  by (simp_all add: deadline_def wg_add_def fun_eq_iff)

lemma deadline_callback_locked:
  assumes "d_inv q" and "status q e = Some Fired" and "deadline q x = Some r"
  shows "deadline (callback_locked e q) x = Some r
    \<or> (status (callback_locked e q) e = Some Adding
        \<and> item_of (entries (callback_locked e q) ! e) = x)"
proof -
  have e: "e < length (entries q)" using assms(2) by (auto simp: status_def split: if_splits)
  show ?thesis
  proof (cases "delayedEntries q (item_of (entries q ! e)) = Some e \<and> item_of (entries q ! e) = x")
    case True
    with e show ?thesis by (auto simp: callback_locked_def status_set_timer)
  next
    case False
    with assms(3) show ?thesis
      by (auto simp: callback_locked_def Let_def) (simp add: deadline_def)
  qed
qed

lemma deadline_step:
  assumes inv: "d_inv q" and r: "deadline q x = Some r" and step: "dexec impl q a = Some q'"
    and open_q: "\<not> shuttingDown q'"
  shows "(\<exists>r' \<le> r. deadline q' x = Some r')
    \<or> (\<exists>e. a = ActCallbackLock e \<and> status q' e = Some Adding \<and> item_of (entries q' ! e) = x)"
proof (cases a)
  case (ActAddAfter y delay t0)
  show ?thesis
  proof (cases "0 < delay \<and> \<not> shuttingDown q")
    case True
    with AddAfter_deadline [OF inv, of delay y t0] ActAddAfter step r show ?thesis
      by (auto split: if_splits)
  next
    case False
    with ActAddAfter step r show ?thesis
      by (auto simp: AddAfter_def AddAfter_locked_def split: if_splits)
  qed
next
  case (ActCallbackLock e)
  with deadline_callback_locked [OF inv _ r, of e] step show ?thesis by (auto split: if_splits)
next
  case (ActShutDown order)
  with step open_q show ?thesis
    by (auto simp: dq_ShutDown_def cq_ShutDown_def cancelDelayedEntries_def split: if_splits)
next
  case (ActDrain order)
  with step open_q show ?thesis
    by (auto simp: dq_ShutDownWithDrain_def cq_ShutDownWithDrain_def cancelDelayedEntries_def
        split: if_splits)
next
  case (ActCallbackAdd e)
  with step r show ?thesis by (auto simp: snd_callback_add split: if_splits)
qed (use step r in \<open>auto simp: callback_leave_def snd_dq_When ResetRateLimit_def
      split: if_splits\<close>)

text \<open>A callback that is about to add its item stays so until it has added it.\<close>

lemma status_stop_timer:
  "status q k = Some Adding \<Longrightarrow> status (stop_timer e q) k = Some Adding"
  by (auto simp: status_def stop_timer_def set_timer_def wg_add_def nth_update split: if_splits)

lemma status_start_entry:
  "status q k = Some Adding \<Longrightarrow> status (start_entry x r d q) k = Some Adding"
  by (auto simp: status_def nth_append split: if_splits)

lemma status_AddAfter:
  "status q k = Some Adding \<Longrightarrow> status (snd (AddAfter x delay t0 q)) k = Some Adding"
  by (auto simp: AddAfter_def AddAfter_locked_def Let_def status_start_entry status_stop_timer
      split: option.splits)

lemma status_cancel_loop:
  "status q k = Some Adding \<Longrightarrow> status (cancel_loop order q) k = Some Adding"
proof (induction order q rule: cancel_loop.induct)
  case (2 item rest q)
  then show ?case by (auto simp: status_stop_timer split: option.split)
qed simp

lemma adding_step:
  assumes "status q e = Some Adding" and "dexec impl q a = Some q'"
  shows "status q' e = Some Adding
    \<or> (a = ActCallbackAdd e \<and> (shuttingDown q \<or> item_of (entries q ! e) |\<in>| dirty q'))"
proof (cases a)
  case (ActCallbackAdd k)
  with assms show ?thesis by (auto simp: snd_callback_add status_set_timer split: if_splits)
next
  case (ActShutDown order)
  have "status (snd (cq_ShutDown q)) e = status q e" by (simp add: status_def cq_ShutDown_def)
  with ActShutDown assms show ?thesis
    by (auto simp: dq_ShutDown_def cancelDelayedEntries_def status_cancel_loop
        split: if_splits prod.splits)
next
  case (ActDrain order)
  have "status (snd (cq_ShutDownWithDrain q)) e = status q e"
    by (simp add: status_def cq_ShutDownWithDrain_def)
  with ActDrain assms show ?thesis
    by (auto simp: dq_ShutDownWithDrain_def cancelDelayedEntries_def status_cancel_loop
        split: if_splits prod.splits)
qed (use assms in \<open>auto simp: callback_locked_def callback_leave_def snd_dq_When ResetRateLimit_def
      status_set_timer status_AddAfter Let_def split: if_splits\<close>)

section \<open>Properties\<close>

text \<open>
  Claim C26: delayed additions of one item collapse to the earliest deadline. On an open
  queue \<open>AddAfter\<close> with a positive delay leaves the item registered with the smaller of
  the deadline it had and the new one, changes no other item's deadline, and enqueues nothing
  yet.
\<close>

theorem AddAfter_earliest_deadline:
  assumes "reach dinit (by_exec (dexec impl)) q" and "0 < delay" and "\<not> shuttingDown q"
  shows "deadline (snd (AddAfter x delay t0 q)) =
      (deadline q)(x \<mapsto> (case deadline q x of None \<Rightarrow> t0 + delay | Some r \<Rightarrow> min r (t0 + delay)))
    \<and> queue (snd (AddAfter x delay t0 q)) = queue q
    \<and> dirty (snd (AddAfter x delay t0 q)) = dirty q"
  using AddAfter_deadline [OF dq.inv_reach [OF assms(1)] assms(2,3), of x t0]
    AddAfter_queue [OF assms(2), of x t0 q]
  by simp

theorem AddAfter_earliest_deadline_witness:
  "deadline (snd (AddAfter ''a'' 5 0 (snd (AddAfter ''a'' 9 0 New_dq)))) ''a'' = Some 5"
proof -
  let ?q = "snd (AddAfter ''a'' 9 0 New_dq)"
  have "run (dexec (\<lambda>_. 0)) New_dq [ActAddAfter ''a'' 9 0] = Some ?q"
    by (simp add: New_dq_def collapsingQueue.defs NewCollapsingQueue_def)
  then have r: "reach dinit (by_exec (dexec (\<lambda>_. 0))) ?q"
    by (rule run_reach [of dinit, rotated]) (simp add: dinit_def)
  have "deadline ?q ''a'' = Some 9" "\<not> shuttingDown ?q"
    by (simp_all add: New_dq_def collapsingQueue.defs NewCollapsingQueue_def AddAfter_def
        AddAfter_locked_def deadline_def start_entry_def wg_add_def)
  with AddAfter_earliest_deadline [OF r, of 5 "''a''" 0] show ?thesis by simp
qed

text \<open>
  Claim C14: in every reachable state the wait group counts exactly the timers that run and the
  callbacks that have not finished, so it never goes negative; at most one timer runs per item;
  a running timer belongs to the registered entry of its item; a callback that is about to
  call \<open>Add\<close> does not do so before the deadline; and a shut down queue has no registered entry.
\<close>

theorem delayed_entries_consistent:
  assumes "reach dinit (by_exec (dexec impl)) q"
  shows "wg q = int (length (filter live (entries q)))
    \<and> (\<forall>e. status q e = Some Pending \<longrightarrow> delayedEntries q (item_of (entries q ! e)) = Some e)
    \<and> (\<forall>e. status q e = Some Adding \<longrightarrow> readyAt (entries q ! e) \<le> clock q)
    \<and> (shuttingDown q \<longrightarrow> delayedEntries q = Map.empty)"
proof -
  have inv: "d_inv q" using assms by (rule dq.inv_reach)
  moreover from inv have "readyAt (entries q ! e) \<le> clock q" if "status q e = Some Adding" for e
  proof -
    from that have "e < length (entries q)" "timer (entries q ! e) = Adding"
      by (auto simp: status_def split: if_splits)
    with inv have "readyAt (entries q ! e) \<le> fireAt (entries q ! e)"
      "fireAt (entries q ! e) \<le> clock q" by (auto simp: d_inv_def entries_ok_def)
    then show ?thesis by simp
  qed
  ultimately show ?thesis
    by (auto simp: d_inv_def entries_ok_def status_def split: if_splits)
qed

theorem delayed_entries_consistent_witness:
  "\<exists>q. run (dexec (\<lambda>_. 0)) New_dq [ActAddAfter ''a'' 9 0, ActAddAfter ''a'' 5 0, ActTick 5, ActFire 1,
       ActCallbackLock 1] = Some q
     \<and> map timer (entries q) = [Stopped, Adding] \<and> wg q = 1"
proof -
  obtain q where q: "run (dexec (\<lambda>_. 0)) New_dq [ActAddAfter ''a'' 9 0, ActAddAfter ''a'' 5 0,
      ActTick 5, ActFire 1, ActCallbackLock 1] = Some q" "map timer (entries q) = [Stopped, Adding]"
    by (simp add: New_dq_def collapsingQueue.defs NewCollapsingQueue_def AddAfter_def
        AddAfter_locked_def start_entry_def stop_timer_def wg_add_def set_timer_def status_def
        callback_locked_def Let_def)
  then have "length (filter live (entries q)) = 1"
    by (cases "entries q" rule: list.exhaust) (auto simp: live_def)
  with delayed_entries_consistent [OF run_reach [OF _ q(1)]] q show ?thesis
    by (auto simp: dinit_def)
qed

text \<open>
  Claim C15: when \<open>wg.Wait\<close> of a shutdown returns (the queue is shut down and the wait group is
  zero), no timer runs, no callback is in progress, and it stays so in every continuation, in
  which the wait group remains zero: no delayed addition slips in after the shutdown.
\<close>

theorem shutdown_stops_all_timers:
  assumes "reach dinit (by_exec (dexec impl)) q" and "shuttingDown q" and "wg q = 0"
    and "reach ((=) q) (by_exec (dexec impl)) q'"
  shows "shuttingDown q' \<and> wg q' = 0 \<and> delayedEntries q' = Map.empty
    \<and> (\<forall>d \<in> set (entries q'). timer d = Stopped \<or> timer d = Finished)"
proof -
  have inv: "d_inv q" using assms(1) by (rule dq.inv_reach)
  with assms(2,3) have "quiet q"
    by (auto simp: quiet_def d_inv_def entries_ok_def filter_empty_conv)
  from reach_from_quiet [OF assms(4) this inv] show ?thesis
    by (auto simp: quiet_def d_inv_def entries_ok_def filter_empty_conv live_def)
qed

theorem shutdown_stops_all_timers_witness:
  "\<exists>q. run (dexec (\<lambda>_. 0)) New_dq [ActAddAfter ''a'' 9 0, ActShutDown [''a'']] = Some q
     \<and> map timer (entries q) = [Stopped] \<and> wg (snd (AddAfter ''b'' 3 0 q)) = 0"
proof -
  obtain q where q: "run (dexec (\<lambda>_. 0)) New_dq [ActAddAfter ''a'' 9 0, ActShutDown [''a'']] = Some q"
    "map timer (entries q) = [Stopped]" "wg q = 0" "shuttingDown q" "clock q = 0"
    by (simp add: New_dq_def collapsingQueue.defs NewCollapsingQueue_def AddAfter_def
        AddAfter_locked_def start_entry_def stop_timer_def wg_add_def set_timer_def
        dq_ShutDown_def cq_ShutDown_def cancelDelayedEntries_def enumerates_keys_def Let_def)
  have "reach ((=) q) (by_exec (dexec (\<lambda>_. 0))) (snd (AddAfter ''b'' 3 0 q))"
    by (rule reach_step [OF reach_init, of "(=) q" q _ "ActAddAfter ''b'' 3 0"])
      (simp_all add: by_exec_def q)
  from shutdown_stops_all_timers [OF run_reach [of dinit, OF _ q(1)] q(4,3) this] q show ?thesis
    by (auto simp: dinit_def)
qed

text \<open>
  Claim C27: an accepted delayed addition is not forgotten. In a reachable state, a step that
  does not shut the queue down keeps a registered item registered with a deadline that is no
  later, or is the locked part of its timer callback, after which the callback is about to add
  the item; and a callback that is about to add its item stays so until the step in which it
  does, which leaves the item dirty unless the queue was shut down.
\<close>

theorem delayed_addition_survives:
  assumes "reach dinit (by_exec (dexec impl)) q" and "dexec impl q a = Some q'"
  shows "(deadline q x = Some r \<and> \<not> shuttingDown q' \<longrightarrow>
      (\<exists>r' \<le> r. deadline q' x = Some r')
      \<or> (\<exists>e. a = ActCallbackLock e \<and> status q' e = Some Adding \<and> item_of (entries q' ! e) = x))
    \<and> (status q e = Some Adding \<longrightarrow>
      status q' e = Some Adding
      \<or> (a = ActCallbackAdd e \<and> (shuttingDown q \<or> item_of (entries q ! e) |\<in>| dirty q')))"
  using deadline_step [OF dq.inv_reach [OF assms(1)] _ assms(2)] adding_step [OF _ assms(2)]
  by blast

theorem delayed_addition_survives_witness:
  "\<exists>q q'. run (dexec (\<lambda>_. 0)) New_dq [ActAddAfter ''a'' 2 0, ActTick 2, ActFire 0, ActCallbackLock 0] = Some q
     \<and> dexec (\<lambda>_. 0) q (ActCallbackAdd 0) = Some q' \<and> ''a'' |\<in>| dirty q'"
proof -
  obtain q q' where q: "run (dexec (\<lambda>_. 0)) New_dq
      [ActAddAfter ''a'' 2 0, ActTick 2, ActFire 0, ActCallbackLock 0] = Some q"
    "dexec (\<lambda>_. 0) q (ActCallbackAdd 0) = Some q'" "status q 0 = Some Adding"
    "status q' 0 = Some Leaving" "\<not> shuttingDown q" "item_of (entries q ! 0) = ''a''"
    by (simp add: New_dq_def collapsingQueue.defs NewCollapsingQueue_def AddAfter_def
        AddAfter_locked_def start_entry_def wg_add_def set_timer_def status_def
        callback_locked_def callback_add_def cq_Add_def Push_def set_op_defs Let_def)
  have "reach dinit (by_exec (dexec (\<lambda>_. 0))) q"
    using run_reach [of dinit, OF _ q(1)] by (simp add: dinit_def)
  from delayed_addition_survives [OF this q(2), where e = 0] q show ?thesis by auto
qed

lemma AddRateLimited_delays:
  assumes "rateLimiter q = r" and "baseDelay r = 500000000" and "maxDelay r = 10000000000"
    and "0 \<le> NumRequeues item q" and "NumRequeues item q + 1 < 2 ^ 63"
  shows "AddRateLimited impl item t0 q =
      AddAfter item (min 10000000000 (500000000 * 2 ^ nat (NumRequeues item q))) t0
        (snd (dq_When impl item q))
    \<and> NumRequeues item (snd (dq_When impl item q)) = NumRequeues item q + 1
    \<and> NumRequeues item (ResetRateLimit item q) = 0"
proof -
  have "(500000000 :: int) * 2 ^ k \<noteq> 2 ^ 63" for k
  proof
    assume eq: "(500000000 :: int) * 2 ^ k = 2 ^ 63"
    have "(5 :: int) dvd 500000000 * 2 ^ k" by simp
    then show False unfolding eq by simp
  qed
  then have d: "fst (When impl item r) = min 10000000000 (500000000 * 2 ^ nat (NumRequeues item q))"
    using When_delay [of r item impl] assms by (simp add: NumRequeues_def)
  have "limiter_NumRequeues item (snd (When impl item r)) = NumRequeues item q + 1"
    using When_NumRequeues [of item r impl] assms by (simp add: NumRequeues_def)
  with d show ?thesis
    by (simp add: AddRateLimited_def dq_When_def NumRequeues_def ResetRateLimit_def assms(1)
        split_beta)
qed

text \<open>
  \<open>AddRateLimited\<close> on a queue whose item has failed \<open>k\<close> times delays it by
  \<open>500 ms * 2^k\<close>, at most 10 s, counts one more requeue for it, and then does what
  \<open>AddAfter\<close> does with that delay; \<open>ResetRateLimit\<close> sets the count back to zero.
\<close>

theorem AddRateLimited_backoff:
  assumes "rateLimiter q = r" and "baseDelay r = 500000000" and "maxDelay r = 10000000000"
    and "0 \<le> NumRequeues item q" and "NumRequeues item q + 1 < 2 ^ 63"
  shows "AddRateLimited impl item t0 q =
      AddAfter item (min 10000000000 (500000000 * 2 ^ nat (NumRequeues item q))) t0
        (snd (dq_When impl item q))
    \<and> NumRequeues item (snd (dq_When impl item q)) = NumRequeues item q + 1
    \<and> NumRequeues item (ResetRateLimit item q) = 0"
  by (rule AddRateLimited_delays [OF assms])

theorem AddRateLimited_backoff_witness:
  "fst (dq_When (\<lambda>_. 0) ''a'' New_dq) = 500000000
   \<and> NumRequeues ''a'' (snd (dq_When (\<lambda>_. 0) ''a'' New_dq)) = 1"
proof -
  have rl: "rateLimiter New_dq = NewItemExponentialFailureRateLimiter 500000000 10000000000"
    by (simp add: New_dq_def collapsingQueue.defs)
  have zero: "NumRequeues ''a'' New_dq = 0"
    by (simp add: NumRequeues_def rl limiter_NumRequeues_def lookup0_def
        NewItemExponentialFailureRateLimiter_def)
  have "fst (When (\<lambda>_. 0) ''a'' (rateLimiter New_dq)) = 500000000"
    using When_delay [of "rateLimiter New_dq" "''a''" "\<lambda>_. 0"] zero
    by (simp add: rl NumRequeues_def) (simp add: NewItemExponentialFailureRateLimiter_def)
  then have "fst (dq_When (\<lambda>_. 0) ''a'' New_dq) = 500000000"
    by (simp add: dq_When_def split_beta)
  with AddRateLimited_backoff [OF rl, of "''a''"] zero show ?thesis
    by (simp add: NewItemExponentialFailureRateLimiter_def)
qed

end
