(* ===== verification/Fifo_Queue.thy ===== *)
theory Fifo_Queue
  imports Collapsing_Queue
begin

text \<open>
  The FIFO queue of \<open>internal/queue/queue.go\<close>, which is a collapsing queue of pointers: each
  \<open>Add\<close> allocates a new cell, so no two elements are ever equal and nothing collapses. A
  pointer is the index of its cell; the cells are a list that only grows. \<open>GetWithCallback\<close>
  is two critical sections of the delegate, the \<open>Get\<close> and the \<open>Done\<close> that marks the
  element right away; each is a function here, since other goroutines may run in between,
  and \<open>fq_GetWithCallback\<close> is their composition.
\<close>

record 'v item_queue =
  delegate :: "nat collapsingQueue"
  cells :: "'v list"

definition NewQueue :: "'v item_queue" where
  "NewQueue = \<lparr>delegate = NewCollapsingQueue, cells = []\<rparr>"

definition fq_Add :: "'v \<Rightarrow> 'v item_queue \<Rightarrow> wake \<times> 'v item_queue" where
  "fq_Add val q =
     (let p = length (cells q)
      in case cq_Add p (delegate q) of
           (w, d) \<Rightarrow> (w, q\<lparr>delegate := d, cells := cells q @ [val]\<rparr>))"

definition fq_Len :: "'v item_queue \<Rightarrow> nat" where
  "fq_Len q = cq_Len (delegate q)"

text \<open>
  The delegate's \<open>GetWithCallback\<close> (answering the wrapped item) and the \<open>Done\<close> that
  follows it; then the value of the cell is returned.
\<close>

definition fq_take :: "('c \<Rightarrow> 'c) option \<Rightarrow> 'v item_queue \<Rightarrow> 'c
    \<Rightarrow> nat get_result \<times> 'v item_queue \<times> 'c" where
  "fq_take callback q c =
     (case cq_GetWithCallback callback (delegate q) c of
        (r, d, c') \<Rightarrow> (r, q\<lparr>delegate := d\<rparr>, c'))"

definition fq_mark_done :: "nat \<Rightarrow> 'v item_queue \<Rightarrow> wake \<times> 'v item_queue" where
  "fq_mark_done wrapped q =
     (case cq_Done wrapped (delegate q) of (w, d) \<Rightarrow> (w, q\<lparr>delegate := d\<rparr>))"

definition fq_GetWithCallback :: "('c \<Rightarrow> 'c) option \<Rightarrow> 'v item_queue \<Rightarrow> 'c
    \<Rightarrow> 'v get_result \<times> 'v item_queue \<times> 'c" where
  "fq_GetWithCallback callback q c =
     (case fq_take callback q c of
        (Item wrapped, q', c') \<Rightarrow>
          (Item (cells q' ! wrapped), snd (fq_mark_done wrapped q'), c')
      | (ShutDownSeen, q', c') \<Rightarrow> (ShutDownSeen, q', c')
      | (Waits, q', c') \<Rightarrow> (Waits, q', c')
      | (PopPanics, q', c') \<Rightarrow> (PopPanics, q', c'))"

definition fq_Get :: "'v item_queue \<Rightarrow> 'v get_result \<times> 'v item_queue" where
  "fq_Get q = (case fq_GetWithCallback None q () of (r, q', _) \<Rightarrow> (r, q'))"

definition fq_ShutDown :: "'v item_queue \<Rightarrow> wake \<times> 'v item_queue" where
  "fq_ShutDown q = (case cq_ShutDown (delegate q) of (w, d) \<Rightarrow> (w, q\<lparr>delegate := d\<rparr>))"

definition fq_ShutDownWithDrain :: "'v item_queue \<Rightarrow> wake \<times> 'v item_queue" where
  "fq_ShutDownWithDrain q =
     (case cq_ShutDownWithDrain (delegate q) of (w, d) \<Rightarrow> (w, q\<lparr>delegate := d\<rparr>))"

definition fq_ShuttingDown :: "'v item_queue \<Rightarrow> bool" where
  "fq_ShuttingDown q = cq_ShuttingDown (delegate q)"

lemmas fq_defs = fq_Add_def fq_take_def fq_mark_done_def fq_GetWithCallback_def fq_Get_def
  fq_ShutDown_def fq_ShutDownWithDrain_def fq_ShuttingDown_def cq_ShuttingDown_def

section \<open>Abstraction and invariant\<close>

definition fq_values :: "'v item_queue \<Rightarrow> 'v list" where
  "fq_values q = map ((!) (cells q)) (queue (delegate q))"

text \<open>
  Every pointer in use points to a cell; an element that was handed out is never added again,
  so what is dirty is exactly what is queued.
\<close>

definition fq_inv :: "'v item_queue \<Rightarrow> bool" where
  "fq_inv q \<longleftrightarrow> cq_inv (delegate q)
     \<and> (\<forall>p. p |\<in>| dirty (delegate q) |\<union>| processing (delegate q) \<longrightarrow> p < length (cells q))
     \<and> dirty (delegate q) |\<inter>| processing (delegate q) = {||}"

lemma fq_inv_New [simp]: "fq_inv NewQueue"
  by (simp add: fq_inv_def NewQueue_def) (simp add: NewCollapsingQueue_def set_op_defs)

lemma fq_inv_queue: "fq_inv q \<Longrightarrow> p \<in> set (queue (delegate q)) \<longleftrightarrow> p |\<in>| dirty (delegate q)"
  unfolding fq_inv_def using cq_inv_mem [of "delegate q" p] by (auto simp: fset_eq_iff)

lemma fq_Add_fresh:
  assumes "fq_inv q"
  shows "length (cells q) |\<notin>| dirty (delegate q)" "length (cells q) |\<notin>| processing (delegate q)"
  using assms by (auto simp: fq_inv_def)

lemma fq_Add_fields [simp]:
  "delegate (snd (fq_Add v q)) = snd (cq_Add (length (cells q)) (delegate q))"
  "cells (snd (fq_Add v q)) = cells q @ [v]"
  by (simp_all add: fq_Add_def Let_def split: prod.split)

lemma fq_mark_done_fields [simp]:
  "delegate (snd (fq_mark_done p q)) = snd (cq_Done p (delegate q))"
  "cells (snd (fq_mark_done p q)) = cells q"
  by (simp_all add: fq_mark_done_def split: prod.split)

lemma fq_ShutDown_fields [simp]:
  "delegate (snd (fq_ShutDown q)) = snd (cq_ShutDown (delegate q))"
  "cells (snd (fq_ShutDown q)) = cells q"
  by (simp_all add: fq_ShutDown_def split: prod.split)

lemma fq_inv_Add: "fq_inv q \<Longrightarrow> fq_inv (snd (fq_Add v q))"
  using fq_Add_fresh [of q] by (auto simp: fq_inv_def less_Suc_eq)

lemma fq_inv_ShutDown: "fq_inv q \<Longrightarrow> fq_inv (snd (fq_ShutDown q))"
  using cq_inv_ShutDown [of "delegate q"] by (simp add: fq_inv_def) (simp add: cq_ShutDown_def)

lemma fq_take_Nil:
  "queue (delegate q) = [] \<Longrightarrow>
   fq_take cb q c = (if shuttingDown (delegate q) then ShutDownSeen else Waits, q, c)"
  by (simp add: fq_take_def cq_Get_Nil)

lemma fq_take_Cons:
  "queue (delegate q) = p # ps \<Longrightarrow>
   fq_take cb q c = (Item p, q\<lparr>delegate := (delegate q)\<lparr>queue := ps,
       processing := finsert p (processing (delegate q)), dirty := dirty (delegate q) |-| {|p|}\<rparr>\<rparr>,
     case cb of None \<Rightarrow> c | Some f \<Rightarrow> f c)"
  by (simp add: fq_take_def cq_Get_Cons)

lemma fq_inv_take:
  assumes "fq_inv q" and "fq_take cb q c = (r, q', c')"
  shows "fq_inv q'"
proof (cases "queue (delegate q)")
  case Nil
  with assms show ?thesis by (simp add: fq_take_Nil)
next
  case (Cons p ps)
  have "cq_inv (delegate q')"
    using assms cq_inv_GetWithCallback [of "delegate q" cb c]
    by (auto simp: fq_take_def fq_inv_def split: prod.splits)
  moreover have "p |\<in>| dirty (delegate q)" using fq_inv_queue [OF assms(1), of p] Cons by simp
  ultimately show ?thesis
    using assms Cons by (auto simp: fq_take_Cons fq_inv_def)
qed

lemma fq_inv_mark_done:
  "fq_inv q \<Longrightarrow> p |\<in>| processing (delegate q) \<Longrightarrow> fq_inv (snd (fq_mark_done p q))"
  by (auto simp: fq_inv_def)

lemma fq_values_Add:
  "fq_inv q \<Longrightarrow> fq_values (snd (fq_Add v q)) =
     (if shuttingDown (delegate q) then fq_values q else fq_values q @ [v])"
proof -
  assume inv: "fq_inv q"
  have "map ((!) (cells q @ [v])) (queue (delegate q)) = map ((!) (cells q)) (queue (delegate q))"
    using inv fq_inv_queue [OF inv] by (auto simp: fq_inv_def nth_append)
  then show ?thesis
    using fq_Add_fresh [OF inv] by (simp add: fq_values_def cq_Add_queue)
qed

lemma fq_values_take_Cons:
  "queue (delegate q) = p # ps \<Longrightarrow> fq_values q = (cells q ! p) # map ((!) (cells q)) ps"
  by (simp add: fq_values_def)

lemma fq_values_mark_done:
  "fq_inv q \<Longrightarrow> p |\<in>| processing (delegate q) \<Longrightarrow>
   fq_values (snd (fq_mark_done p q)) = fq_values q"
  by (auto simp: fq_values_def cq_Done_queue fq_inv_def)

lemma fq_values_Nil: "fq_values q = [] \<longleftrightarrow> queue (delegate q) = []"
  by (simp add: fq_values_def)

lemma fq_Len_values: "fq_Len q = length (fq_values q)"
  by (simp add: fq_Len_def cq_Len_def fq_values_def)

lemma fq_GetWithCallback_Nil:
  "fq_values q = [] \<Longrightarrow>
   fq_GetWithCallback cb q c = (if shuttingDown (delegate q) then ShutDownSeen else Waits, q, c)"
  by (simp add: fq_values_Nil fq_GetWithCallback_def fq_take_Nil)

lemma fq_GetWithCallback_Cons:
  assumes "fq_inv q" and "fq_values q = v # vs"
  shows "\<exists>q'. fq_GetWithCallback cb q c = (Item v, q', case cb of None \<Rightarrow> c | Some f \<Rightarrow> f c)
    \<and> fq_values q' = vs \<and> fq_inv q' \<and> shuttingDown (delegate q') = shuttingDown (delegate q)
    \<and> processing (delegate q') = processing (delegate q)"
proof -
  from assms(2) obtain p ps where q: "queue (delegate q) = p # ps" and v: "v = cells q ! p"
    and vs: "vs = map ((!) (cells q)) ps" by (auto simp: fq_values_def)
  define q' where "q' = fst (snd (fq_take cb q c))"
  have q': "fq_take cb q c = (Item p, q',
      case cb of None \<Rightarrow> c | Some f \<Rightarrow> f c)" "p |\<in>| processing (delegate q')"
    "cells q' = cells q" "queue (delegate q') = ps"
    "shuttingDown (delegate q') = shuttingDown (delegate q)"
    "processing (delegate q') = finsert p (processing (delegate q))"
    using fq_take_Cons [OF q, of cb c] by (simp_all add: q'_def)
  have "fq_inv q'" using fq_inv_take [OF assms(1) q'(1)] .
  have "p |\<in>| dirty (delegate q)" using fq_inv_queue [OF assms(1), of p] q by simp
  then have "p |\<notin>| processing (delegate q)" using assms(1) by (auto simp: fq_inv_def)
  then show ?thesis
    using fq_values_mark_done [OF \<open>fq_inv q'\<close> q'(2)] fq_inv_mark_done [OF \<open>fq_inv q'\<close> q'(2)]
      q' v vs
    by (simp add: fq_GetWithCallback_def fq_values_def)
qed

section \<open>The contract of the FIFO queue\<close>

text \<open>
  What the worker pool relies on: the values wait in the order of their additions, a
  value that was taken is in flight until it is marked done, and marking it done leaves the
  waiting values alone.
\<close>

locale fifo_queue =
  fixes add :: "'v \<Rightarrow> 'q \<Rightarrow> 'q" and take_one :: "'q \<Rightarrow> 'p get_result \<times> 'q"
    and mark :: "'p \<Rightarrow> 'q \<Rightarrow> 'q" and close :: "'q \<Rightarrow> 'q" and shut :: "'q \<Rightarrow> bool"
    and read :: "'q \<Rightarrow> 'p \<Rightarrow> 'v" and waiting :: "'q \<Rightarrow> 'v list" and in_flight :: "'q \<Rightarrow> 'p fset"
    and inv :: "'q \<Rightarrow> bool"
  assumes inv_add: "inv q \<Longrightarrow> inv (add v q)"
    and inv_take: "inv q \<Longrightarrow> take_one q = (r, q') \<Longrightarrow> inv q'"
    and inv_mark: "inv q \<Longrightarrow> p |\<in>| in_flight q \<Longrightarrow> inv (mark p q)"
    and inv_close: "inv q \<Longrightarrow> inv (close q)"
    and waiting_add: "inv q \<Longrightarrow> waiting (add v q) = (if shut q then waiting q else waiting q @ [v])"
    and waiting_close: "inv q \<Longrightarrow> waiting (close q) = waiting q"
    and waiting_mark: "inv q \<Longrightarrow> p |\<in>| in_flight q \<Longrightarrow> waiting (mark p q) = waiting q"
    and take_empty: "inv q \<Longrightarrow> waiting q = [] \<Longrightarrow>
      take_one q = (if shut q then ShutDownSeen else Waits, q)"
    and take_item: "inv q \<Longrightarrow> waiting q = v # vs \<Longrightarrow> \<exists>p q'. take_one q = (Item p, q')
      \<and> read q' p = v \<and> waiting q' = vs \<and> p |\<in>| in_flight q'"

text \<open>
  A history: the critical sections in the order they take the lock, with the values accepted
  by \<open>Add\<close> and those handed out so far. A \<open>Done\<close> is only called for an element in flight.
\<close>

datatype ('v, 'p) fifo_act = FAdd 'v | FTake | FMark 'p | FClose

fun fifo_exec ::
  "('v \<Rightarrow> 'q \<Rightarrow> 'q) \<Rightarrow> ('q \<Rightarrow> 'p get_result \<times> 'q) \<Rightarrow> ('p \<Rightarrow> 'q \<Rightarrow> 'q) \<Rightarrow> ('q \<Rightarrow> 'q)
    \<Rightarrow> ('q \<Rightarrow> bool) \<Rightarrow> ('q \<Rightarrow> 'p \<Rightarrow> 'v) \<Rightarrow> ('q \<Rightarrow> 'p fset)
    \<Rightarrow> 'q \<times> 'v list \<times> 'v list \<Rightarrow> ('v, 'p) fifo_act \<Rightarrow> ('q \<times> 'v list \<times> 'v list) option" where
  "fifo_exec add tk mark close shut rd fl (q, ins, outs) (FAdd v) =
     Some (add v q, if shut q then ins else ins @ [v], outs)"
| "fifo_exec add tk mark close shut rd fl (q, ins, outs) FTake =
     (case tk q of (Item p, q') \<Rightarrow> Some (q', ins, outs @ [rd q' p]) | (_, q') \<Rightarrow> Some (q', ins, outs))"
| "fifo_exec add tk mark close shut rd fl (q, ins, outs) (FMark p) =
     (if p |\<in>| fl q then Some (mark p q, ins, outs) else None)"
| "fifo_exec add tk mark close shut rd fl (q, ins, outs) FClose = Some (close q, ins, outs)"

context fifo_queue
begin

lemma history_step:
  assumes "inv q" and "ins = outs @ waiting q"
    and "fifo_exec add take_one mark close shut read in_flight (q, ins, outs) a = Some (q', ins', outs')"
  shows "inv q' \<and> ins' = outs' @ waiting q'"
proof (cases a)
  case FTake
  show ?thesis
  proof (cases "waiting q")
    case Nil
    with FTake assms show ?thesis by (auto simp: take_empty split: if_splits)
  next
    case (Cons v vs)
    from take_item [OF assms(1) Cons] obtain p u where u: "take_one q = (Item p, u)"
      "read u p = v" "waiting u = vs" by blast
    with FTake assms Cons inv_take [OF assms(1) u(1)] show ?thesis by auto
  qed
qed (use assms in \<open>auto simp: inv_add inv_mark inv_close waiting_add waiting_mark waiting_close
       split: if_splits\<close>)

lemma history:
  "run (fifo_exec add take_one mark close shut read in_flight) (q, ins, outs) as = Some (q', ins', outs') \<Longrightarrow>
   inv q \<Longrightarrow> ins = outs @ waiting q \<Longrightarrow> inv q' \<and> ins' = outs' @ waiting q'"
proof (induction as arbitrary: q ins outs)
  case Nil
  then show ?case by auto
next
  case (Cons a as)
  from Cons.prems(1) obtain u i o' where
    u: "fifo_exec add take_one mark close shut read in_flight (q, ins, outs) a = Some (u, i, o')"
    "run (fifo_exec add take_one mark close shut read in_flight) (u, i, o') as = Some (q', ins', outs')"
    by (auto split: option.splits)
  from history_step [OF Cons.prems(2,3) u(1)] Cons.IH [OF u(2)] show ?case by blast
qed

end

definition fq_take0 :: "'v item_queue \<Rightarrow> nat get_result \<times> 'v item_queue" where
  "fq_take0 q = (case fq_take None q () of (r, q', _) \<Rightarrow> (r, q'))"

interpretation fq: fifo_queue
  "\<lambda>v q. snd (fq_Add v q)" fq_take0 "\<lambda>p q. snd (fq_mark_done p q)" "\<lambda>q. snd (fq_ShutDown q)"
  fq_ShuttingDown "\<lambda>q p. cells q ! p" fq_values "\<lambda>q. processing (delegate q)" fq_inv
proof (unfold_locales, goal_cases)
  case (1 q v)
  then show ?case by (rule fq_inv_Add)
next
  case (2 q r q')
  then show ?case using fq_inv_take [of q None "()" r q' "()"]
    by (auto simp: fq_take0_def split: prod.splits)
next
  case (3 q p)
  then show ?case by (rule fq_inv_mark_done)
next
  case (4 q)
  then show ?case by (rule fq_inv_ShutDown)
next
  case (5 q v)
  then show ?case by (simp add: fq_values_Add fq_ShuttingDown_def cq_ShuttingDown_def)
next
  case (6 q)
  then show ?case by (simp add: fq_values_def) (simp add: cq_ShutDown_def)
next
  case (7 q p)
  then show ?case by (rule fq_values_mark_done)
next
  case (8 q)
  then show ?case
    by (simp add: fq_values_Nil fq_take0_def fq_take_Nil fq_ShuttingDown_def cq_ShuttingDown_def)
next
  case (9 q v vs)
  then obtain p ps where "queue (delegate q) = p # ps" "v = cells q ! p"
    "vs = map ((!) (cells q)) ps" by (auto simp: fq_values_def)
  then show ?case by (auto simp: fq_take0_def fq_take_Cons fq_values_def)
qed

section \<open>Properties\<close>

definition fq_run :: "('v, nat) fifo_act list \<Rightarrow> ('v item_queue \<times> 'v list \<times> 'v list) option" where
  "fq_run = run (fifo_exec (\<lambda>v q. snd (fq_Add v q)) fq_take0 (\<lambda>p q. snd (fq_mark_done p q))
     (\<lambda>q. snd (fq_ShutDown q)) fq_ShuttingDown (\<lambda>q p. cells q ! p)
     (\<lambda>q. processing (delegate q))) (NewQueue, [], [])"

text \<open>
  Claim C16: the FIFO queue loses, duplicates and reorders nothing. For every order in which
  the critical sections of \<open>Add\<close>, \<open>Get\<close> (its two parts separately) and \<open>ShutDown\<close>
  run on a new queue, the accepted values are exactly the values handed out so far followed
  by the values still waiting. Equal values are kept apart, although the delegate collapses
  equal items.
\<close>

theorem fifo_exactly_once:
  assumes "fq_run as = Some (q, accepted, delivered)"
  shows "accepted = delivered @ fq_values q"
  using fq.history [OF assms [unfolded fq_run_def]]
  by (simp add: fq_values_def) (simp add: NewQueue_def NewCollapsingQueue_def)

theorem fifo_exactly_once_witness:
  "\<exists>q. fq_run [FAdd ''a'', FAdd ''a'', FTake, FAdd ''b'', FMark 0, FTake, FClose, FAdd ''c'']
     = Some (q, [''a'', ''a'', ''b''], [''a'', ''a'']) \<and> fq_values q = [''b'']"
proof -
  obtain q where "fq_run [FAdd ''a'', FAdd ''a'', FTake, FAdd ''b'', FMark 0, FTake, FClose, FAdd ''c'']
     = Some (q, [''a'', ''a'', ''b''], [''a'', ''a''])"
    by (simp add: fq_run_def fq_take0_def fq_defs cq_defs NewQueue_def NewCollapsingQueue_def
        set_op_defs Let_def)
  with fifo_exactly_once [OF this] show ?thesis by simp
qed

text \<open>
  A complete \<open>GetWithCallback\<close> returns the oldest waiting value, runs the
  callback exactly then, and leaves no trace of the element in the delegate's sets; on an empty
  queue it waits or reports the shutdown. \<open>Add\<close> appends unless the queue is shut down.
\<close>

theorem fifo_get_spec:
  assumes "fq_inv q"
  shows "fq_values (snd (fq_Add v q)) = (if fq_ShuttingDown q then fq_values q else fq_values q @ [v])
    \<and> fq_inv (snd (fq_Add v q))
    \<and> (case fq_values q of
         [] \<Rightarrow> fq_GetWithCallback cb q c = (if fq_ShuttingDown q then ShutDownSeen else Waits, q, c)
       | x # xs \<Rightarrow> (\<exists>q'. fq_GetWithCallback cb q c = (Item x, q', case cb of None \<Rightarrow> c | Some f \<Rightarrow> f c)
           \<and> fq_values q' = xs \<and> fq_inv q' \<and> fq_ShuttingDown q' = fq_ShuttingDown q
           \<and> processing (delegate q') = processing (delegate q)))"
  using assms fq_GetWithCallback_Cons [OF assms, of _ _ cb c]
  by (auto simp: fq_values_Add fq_inv_Add fq_GetWithCallback_Nil fq_ShuttingDown_def
      cq_ShuttingDown_def split: list.split)

theorem fifo_get_spec_witness:
  "fq_values (snd (fq_Add (5::nat) NewQueue)) = [5]"
  using fifo_get_spec [OF fq_inv_New, of "5::nat" None "()"]
  by (simp add: fq_values_def) (simp add: NewQueue_def NewCollapsingQueue_def fq_defs)


section \<open>Putting in and taking out\<close>

fun fq_add_all :: "'v list \<Rightarrow> 'v item_queue \<Rightarrow> 'v item_queue" where
  "fq_add_all [] q = q"
| "fq_add_all (v # vs) q = fq_add_all vs (snd (fq_Add v q))"

text \<open>Calls of \<open>Get\<close> until one does not return an element, at most \<open>n\<close> of them.\<close>

fun fq_get_all :: "nat \<Rightarrow> 'v item_queue \<Rightarrow> 'v list \<times> 'v item_queue" where
  "fq_get_all 0 q = ([], q)"
| "fq_get_all (Suc n) q =
     (case fq_Get q of
        (Item v, q') \<Rightarrow> (case fq_get_all n q' of (vs, q'') \<Rightarrow> (v # vs, q''))
      | (_, q') \<Rightarrow> ([], q'))"

lemma fq_add_all_values:
  "fq_inv q \<Longrightarrow> \<not> shuttingDown (delegate q) \<Longrightarrow>
   fq_inv (fq_add_all vs q) \<and> fq_values (fq_add_all vs q) = fq_values q @ vs"
  by (induction vs arbitrary: q) (simp_all add: fq_inv_Add fq_values_Add)

lemma fq_get_all_values:
  "fq_inv q \<Longrightarrow> fq_values q = vs \<Longrightarrow> length vs \<le> n \<Longrightarrow> \<exists>q'. fq_get_all n q = (vs, q') \<and> fq_values q' = []"
proof (induction n arbitrary: q vs)
  case 0
  then show ?case by simp
next
  case (Suc n)
  show ?case
  proof (cases vs)
    case Nil
    with Suc.prems(2) show ?thesis
      using fq_GetWithCallback_Nil [of q None "()"] by (simp add: fq_Get_def)
  next
    case (Cons v ws)
    with fq_GetWithCallback_Cons [OF Suc.prems(1), of v ws None "()"] Suc.prems(2) obtain q' where
      q': "fq_Get q = (Item v, q')" "fq_values q' = ws" "fq_inv q'" by (auto simp: fq_Get_def)
    moreover from Suc.IH [OF q'(3,2)] Suc.prems(3) Cons obtain q'' where
      "fq_get_all n q' = (ws, q'')" "fq_values q'' = []" by auto
    ultimately show ?thesis using Cons by simp
  qed
qed

text \<open>
  Claim C40: what goes in comes out. After any list of values was added to a new queue, calls of
  \<open>Get\<close> return exactly this list and leave the queue empty, also when the queue was shut down in
  between; duplicates in the list come out as often as they went in.
\<close>

theorem fifo_roundtrip:
  assumes "length vs \<le> n"
  shows "(\<exists>q. fq_get_all n (fq_add_all vs NewQueue) = (vs, q) \<and> fq_values q = [])
    \<and> (\<exists>q. fq_get_all n (snd (fq_ShutDown (fq_add_all vs NewQueue))) = (vs, q) \<and> fq_values q = [])"
proof -
  have "\<not> shuttingDown (delegate (NewQueue :: 'a item_queue))" "fq_values (NewQueue :: 'a item_queue) = []"
    by (simp_all add: NewQueue_def NewCollapsingQueue_def fq_values_def)
  with fq_add_all_values [OF fq_inv_New, of vs]
  have "fq_inv (fq_add_all vs NewQueue)" "fq_values (fq_add_all vs NewQueue) = vs" by simp_all
  moreover have "fq_values (snd (fq_ShutDown q)) = fq_values q" for q :: "'a item_queue"
    by (simp add: fq_values_def) (simp add: cq_ShutDown_def)
  ultimately show ?thesis
    using fq_get_all_values [of "fq_add_all vs NewQueue" vs n]
      fq_get_all_values [of "snd (fq_ShutDown (fq_add_all vs NewQueue))" vs n] assms
    by (simp add: fq_inv_ShutDown)
qed

theorem fifo_roundtrip_witness:
  "fst (fq_get_all 5 (fq_add_all [7, 7, 3 :: nat] NewQueue)) = [7, 7, 3]"
  using fifo_roundtrip [of "[7, 7, 3 :: nat]" 5] by auto

end
