(* ===== verification/Queue_Interface.thy ===== *)
theory Queue_Interface
  imports Delayed_Queue Fifo_Queue
begin

text \<open>
  The interfaces \<open>Queue\<close> and \<open>CollapsingQueue\<close> of \<open>internal/queue\<close> as records of their methods
  over a state \<open>'q\<close>: an interface value is the method table of its dynamic type. Go embeds \<open>Queue\<close>
  in \<open>CollapsingQueue\<close>; the record extends the other. A method is the section that holds the queue's
  lock, as everywhere in this development; the callback of \<open>GetWithCallback\<close> acts on a state \<open>'c\<close>.
\<close>

record ('a, 'c, 'q) Queue =
  q_Add :: "'a \<Rightarrow> 'q \<Rightarrow> wake \<times> 'q"
  q_Len :: "'q \<Rightarrow> nat"
  q_Get :: "'q \<Rightarrow> 'a get_result \<times> 'q"
  q_GetWithCallback :: "('c \<Rightarrow> 'c) option \<Rightarrow> 'q \<Rightarrow> 'c \<Rightarrow> 'a get_result \<times> 'q \<times> 'c"
  q_ShutDown :: "'q \<Rightarrow> wake \<times> 'q"
  q_ShutDownWithDrain :: "'q \<Rightarrow> wake \<times> 'q"
  q_ShuttingDown :: "'q \<Rightarrow> bool"

text \<open>\<open>AddAfter\<close> and \<open>AddRateLimited\<close> take the clock reading they start with.\<close>

record ('a, 'c, 'q) CollapsingQueue = "('a, 'c, 'q) Queue" +
  q_Done :: "'a \<Rightarrow> 'q \<Rightarrow> wake \<times> 'q"
  q_AddAfter :: "'a \<Rightarrow> int \<Rightarrow> int \<Rightarrow> 'q \<Rightarrow> wake \<times> 'q"
  q_AddRateLimited :: "'a \<Rightarrow> int \<Rightarrow> 'q \<Rightarrow> wake \<times> 'q"
  q_ResetRateLimit :: "'a \<Rightarrow> 'q \<Rightarrow> 'q"
  q_NumRequeues :: "'a \<Rightarrow> 'q \<Rightarrow> int"

section \<open>The two implementations\<close>

definition queue_methods :: "('v, 'c, 'v item_queue) Queue" where
  "queue_methods =
     \<lparr>q_Add = fq_Add, q_Len = fq_Len, q_Get = fq_Get, q_GetWithCallback = fq_GetWithCallback,
      q_ShutDown = fq_ShutDown, q_ShutDownWithDrain = fq_ShutDownWithDrain,
      q_ShuttingDown = fq_ShuttingDown\<rparr>"

text \<open>\<open>order\<close>: the order in which the shutdown's range loop visits the delayed entries.\<close>

definition collapsingQueue_methods ::
  "(float64 \<Rightarrow> int) \<Rightarrow> ('a dq \<Rightarrow> 'a list) \<Rightarrow> ('a, 'c, 'a dq) CollapsingQueue" where
  "collapsingQueue_methods impl order =
     \<lparr>q_Add = cq_Add, q_Len = cq_Len, q_Get = cq_Get, q_GetWithCallback = cq_GetWithCallback,
      q_ShutDown = (\<lambda>q. dq_ShutDown (order q) q),
      q_ShutDownWithDrain = (\<lambda>q. dq_ShutDownWithDrain (order q) q), q_ShuttingDown = cq_ShuttingDown,
      q_Done = cq_Done, q_AddAfter = AddAfter, q_AddRateLimited = AddRateLimited impl,
      q_ResetRateLimit = ResetRateLimit, q_NumRequeues = NumRequeues\<rparr>"

section \<open>Clients of the interface\<close>

text \<open>
  What a client sees of a sequence of calls. \<open>ShutDownWithDrain\<close> is not among them: when it
  returns depends on the calls of \<open>Done\<close>, which \<open>Queue\<close> does not have.
\<close>

datatype ('a, 'c) queue_call =
    CallAdd 'a | CallLen | CallGet | CallGetWithCallback "('c \<Rightarrow> 'c) option" 'c
  | CallShutDown | CallShuttingDown

datatype ('a, 'c) queue_answer =
    AnsNone | AnsLen nat | AnsGot "'a get_result" | AnsGotWith "'a get_result" 'c | AnsBool bool

fun do_call :: "('a, 'c, 'q, 'm) Queue_scheme \<Rightarrow> ('a, 'c) queue_call \<Rightarrow> 'q \<Rightarrow> ('a, 'c) queue_answer \<times> 'q" where
  "do_call m (CallAdd x) q = (AnsNone, snd (q_Add m x q))"
| "do_call m CallLen q = (AnsLen (q_Len m q), q)"
| "do_call m CallGet q = (case q_Get m q of (r, q') \<Rightarrow> (AnsGot r, q'))"
| "do_call m (CallGetWithCallback f c) q =
     (case q_GetWithCallback m f q c of (r, q', c') \<Rightarrow> (AnsGotWith r c', q'))"
| "do_call m CallShutDown q = (AnsNone, snd (q_ShutDown m q))"
| "do_call m CallShuttingDown q = (AnsBool (q_ShuttingDown m q), q)"

fun queue_answers ::
  "('a, 'c, 'q, 'm) Queue_scheme \<Rightarrow> ('a, 'c) queue_call list \<Rightarrow> 'q \<Rightarrow> ('a, 'c) queue_answer list" where
  "queue_answers m [] q = []"
| "queue_answers m (call # calls) q =
     (case do_call m call q of (ans, q') \<Rightarrow> ans # queue_answers m calls q')"

fun added :: "('a, 'c) queue_call list \<Rightarrow> 'a list" where
  "added [] = []"
| "added (CallAdd x # calls) = x # added calls"
| "added (_ # calls) = added calls"

section \<open>The two queues agree on fresh values\<close>

text \<open>Same values waiting, same flag, and no value of \<open>fresh\<close> in the collapsing queue.\<close>

definition agree :: "'a set \<Rightarrow> 'a item_queue \<Rightarrow> 'a dq \<Rightarrow> bool" where
  "agree fresh q d \<longleftrightarrow> fq_inv q \<and> fq_values q = queue d \<and> shuttingDown (delegate q) = shuttingDown d
     \<and> (\<forall>x \<in> fresh. x |\<notin>| dirty d \<and> x |\<notin>| processing d \<and> x \<notin> set (queue d))"

lemma agree_New: "agree fresh NewQueue New_dq"
  by (simp add: agree_def) (simp add: fq_values_def NewQueue_def New_dq_def NewCollapsingQueue_def
      collapsingQueue.defs set_op_defs)

lemma agree_add:
  assumes "agree (insert x fresh) q d" and "x \<notin> fresh"
  shows "agree fresh (snd (fq_Add x q)) (snd (cq_Add x d))"
proof -
  have "shuttingDown (delegate (snd (fq_Add x q))) = shuttingDown (delegate q)"
    by (simp add: fq_Add_def cq_Add_def Let_def split: prod.split)
  moreover have "fq_values (snd (fq_Add x q)) = (if shuttingDown d then queue d else queue d @ [x])"
    "fq_inv (snd (fq_Add x q))"
    using assms by (simp_all add: agree_def fq_values_Add fq_inv_Add)
  ultimately show ?thesis
    using assms by (auto simp: agree_def cq_Add_def Push_def set_op_defs Let_def)
qed

lemma agree_get:
  assumes "agree fresh q d"
  obtains r q' d' c' where "fq_GetWithCallback f q c = (r, q', c')" "cq_GetWithCallback f d c = (r, d', c')"
    "agree fresh q' d'"
proof (cases "queue d")
  case Nil
  with assms have "fq_GetWithCallback f q c = (if shuttingDown d then ShutDownSeen else Waits, q, c)"
    by (simp add: agree_def fq_GetWithCallback_Nil)
  moreover from Nil have "cq_GetWithCallback f d c = (if shuttingDown d then ShutDownSeen else Waits, d, c)"
    by (simp add: cq_GetWithCallback_def)
  ultimately show ?thesis using assms by (rule that)
next
  case (Cons v vs)
  with assms have inv: "fq_inv q" "fq_values q = v # vs" by (simp_all add: agree_def)
  from fq_GetWithCallback_Cons [OF this, of f c] obtain q' where q':
    "fq_GetWithCallback f q c = (Item v, q', case f of None \<Rightarrow> c | Some f \<Rightarrow> f c)"
    "fq_values q' = vs" "fq_inv q'" "shuttingDown (delegate q') = shuttingDown (delegate q)" by blast
  let ?d = "d\<lparr>queue := vs, processing := finsert v (processing d), dirty := dirty d |-| {|v|}\<rparr>"
  have "cq_GetWithCallback f d c = (Item v, ?d, case f of None \<Rightarrow> c | Some f \<Rightarrow> f c)"
    using Cons by (simp add: cq_GetWithCallback_def set_op_defs)
  moreover have "agree fresh q' ?d" using assms q' Cons by (auto simp: agree_def)
  ultimately show ?thesis using q'(1) that by blast
qed

lemma cancel_loop_core [simp]:
  "queue (cancel_loop order q) = queue q" "dirty (cancel_loop order q) = dirty q"
  "processing (cancel_loop order q) = processing q" "shuttingDown (cancel_loop order q) = shuttingDown q"
  by (induction order q rule: cancel_loop.induct)
    (simp_all add: stop_timer_def set_timer_def wg_add_def split: option.split)

lemma agree_shutdown:
  "agree fresh q d \<Longrightarrow> agree fresh (snd (fq_ShutDown q)) (snd (dq_ShutDown order d))"
  using fq_inv_ShutDown [of q]
  by (simp add: agree_def fq_ShutDown_def dq_ShutDown_def cq_ShutDown_def cancelDelayedEntries_def fq_values_def)

lemma agree_call:
  assumes "agree (set (added (call # calls))) q d" and "distinct (added (call # calls))"
  obtains ans q' d' where "do_call queue_methods call q = (ans, q')"
    "do_call (collapsingQueue_methods impl order) call d = (ans, d')" "agree (set (added calls)) q' d'"
proof (cases call)
  case (CallAdd x)
  with assms agree_add [of x "set (added calls)" q d] that show ?thesis
    by (simp add: queue_methods_def collapsingQueue_methods_def CollapsingQueue.defs)
next
  case CallLen
  have "length (queue (delegate q)) = length (fq_values q)" by (simp add: fq_values_def)
  with CallLen assms that show ?thesis
    by (simp add: queue_methods_def collapsingQueue_methods_def agree_def fq_Len_def cq_Len_def)
next
  case CallGet
  from agree_get [of "set (added calls)" q d None "()"] CallGet assms(1) obtain r q' d' where
    "fq_GetWithCallback None q () = (r, q', ())" "cq_GetWithCallback None d () = (r, d', ())"
    "agree (set (added calls)) q' d'" by auto
  with CallGet that show ?thesis
    by (simp add: queue_methods_def collapsingQueue_methods_def fq_Get_def cq_Get_def)
next
  case (CallGetWithCallback f c)
  with assms(1) have "agree (set (added calls)) q d" by simp
  from agree_get [OF this, of f c] obtain r q' d' c' where
    "fq_GetWithCallback f q c = (r, q', c')" "cq_GetWithCallback f d c = (r, d', c')"
    "agree (set (added calls)) q' d'" .
  with CallGetWithCallback that show ?thesis
    by (simp add: queue_methods_def collapsingQueue_methods_def)
next
  case CallShutDown
  with assms agree_shutdown [of "set (added calls)" q d "order d"] that show ?thesis
    by (simp add: queue_methods_def collapsingQueue_methods_def)
next
  case CallShuttingDown
  with assms that show ?thesis
    by (simp add: queue_methods_def collapsingQueue_methods_def agree_def fq_ShuttingDown_def cq_ShuttingDown_def)
qed

lemma agree_answers:
  "agree (set (added calls)) q d \<Longrightarrow> distinct (added calls) \<Longrightarrow>
   queue_answers queue_methods calls q = queue_answers (collapsingQueue_methods impl order) calls d"
proof (induction calls arbitrary: q d)
  case (Cons call calls)
  from agree_call [OF Cons.prems, of impl order] obtain ans q' d' where step:
    "do_call queue_methods call q = (ans, q')"
    "do_call (collapsingQueue_methods impl order) call d = (ans, d')" "agree (set (added calls)) q' d'" .
  have "distinct (added calls)" using Cons.prems(2) by (cases call) simp_all
  from Cons.IH [OF step(3) this] step(1,2) show ?case by simp
qed simp

section \<open>Property\<close>



text \<open>A value added twice tells them apart.\<close>

lemma queues_differ_on_duplicates:
  "queue_answers queue_methods [CallAdd ''a'', CallAdd ''a'', CallLen] NewQueue = [AnsNone, AnsNone, AnsLen 2]
   \<and> queue_answers (collapsingQueue_methods impl order) [CallAdd ''a'', CallAdd ''a'', CallLen] New_dq =
       [AnsNone, AnsNone, AnsLen 1]"
  by (simp add: queue_methods_def collapsingQueue_methods_def fq_defs cq_defs fq_Len_def cq_Len_def NewQueue_def
      New_dq_def collapsingQueue.defs NewCollapsingQueue_def set_op_defs Let_def)

end
