(* ===== verification/Go_Functions.thy ===== *)
theory Go_Functions
  imports Prelude
begin

text \<open>
  The functional interfaces of the package \<open>function\<close> with their adaptors, the futures of
  \<open>util/async\<close> and the generic helpers of \<open>util/types\<close>. An interface with one method is
  the type of that method: a call takes the context and passes the world \<open>'w\<close> along. The
  named function types (\<open>SupplierFunc\<close>, ...) implement the interface by calling the
  function. The zero value of a Go type is an argument of the definitions that use it.
\<close>

type_synonym ('ctx, 'w, 'r, 'e, 'p) supplier = "'ctx \<Rightarrow> ('w, ('r, 'e) result, 'p) go"
type_synonym ('ctx, 'w, 'a, 'e, 'p) consumer = "'ctx \<Rightarrow> 'a \<Rightarrow> ('w, 'e option, 'p) go"
type_synonym ('ctx, 'w, 'a, 'r, 'e, 'p) gofunction = "'ctx \<Rightarrow> 'a \<Rightarrow> ('w, ('r, 'e) result, 'p) go"
type_synonym ('ctx, 'w, 'e, 'p) runnable = "'ctx \<Rightarrow> ('w, 'e option, 'p) go"

section \<open>function/function.go, function/supplier.go\<close>

definition FunctionFunc_Apply ::
  "('ctx, 'w, 'a, 'r, 'e, 'p) gofunction \<Rightarrow> ('ctx, 'w, 'a, 'r, 'e, 'p) gofunction" where
  "FunctionFunc_Apply f ctx arg = f ctx arg"

definition NewFunctionFromFunc ::
  "('ctx, 'w, 'a, 'r, 'e, 'p) gofunction \<Rightarrow> ('ctx, 'w, 'a, 'r, 'e, 'p) gofunction" where
  "NewFunctionFromFunc funcToCall = FunctionFunc_Apply funcToCall"

definition SupplierFunc_Get ::
  "('ctx, 'w, 'r, 'e, 'p) supplier \<Rightarrow> ('ctx, 'w, 'r, 'e, 'p) supplier" where
  "SupplierFunc_Get f ctx = f ctx"

definition NewSupplierFromFunc ::
  "('ctx, 'w, 'r, 'e, 'p) supplier \<Rightarrow> ('ctx, 'w, 'r, 'e, 'p) supplier" where
  "NewSupplierFromFunc funcToCall = SupplierFunc_Get funcToCall"

definition NewSupplierFromFunction ::
  "'a \<Rightarrow> ('ctx, 'w, 'a, 'r, 'e, 'p) gofunction \<Rightarrow> ('ctx, 'w, 'r, 'e, 'p) supplier" where
  "NewSupplierFromFunction arg func = NewSupplierFromFunc (\<lambda>ctx. func ctx arg)"

definition NewSupplierFromValue :: "'r \<Rightarrow> ('ctx, 'w, 'r, 'e, 'p) supplier" where
  "NewSupplierFromValue value = NewSupplierFromFunc (\<lambda>_. go_return (value, None))"

section \<open>function/consumer.go, function/runnable.go\<close>

definition ConsumerFunc_Accept ::
  "('ctx, 'w, 'a, 'e, 'p) consumer \<Rightarrow> ('ctx, 'w, 'a, 'e, 'p) consumer" where
  "ConsumerFunc_Accept f ctx arg = f ctx arg"

definition NewConsumerFromFunc ::
  "('ctx, 'w, 'a, 'e, 'p) consumer \<Rightarrow> ('ctx, 'w, 'a, 'e, 'p) consumer" where
  "NewConsumerFromFunc funcToCall = ConsumerFunc_Accept funcToCall"

definition NewConsumerFromFunction ::
  "('ctx, 'w, 'a, 'r, 'e, 'p) gofunction \<Rightarrow> ('ctx, 'w, 'a, 'e, 'p) consumer" where
  "NewConsumerFromFunction func =
     NewConsumerFromFunc (\<lambda>ctx arg. go_bind (func ctx arg) (\<lambda>(_, err). go_return err))"

definition RunnableFunc_Run ::
  "('ctx, 'w, 'e, 'p) runnable \<Rightarrow> ('ctx, 'w, 'e, 'p) runnable" where
  "RunnableFunc_Run f ctx = f ctx"

definition NewRunnableFromFunc ::
  "('ctx, 'w, 'e, 'p) runnable \<Rightarrow> ('ctx, 'w, 'e, 'p) runnable" where
  "NewRunnableFromFunc funcToCall = RunnableFunc_Run funcToCall"

definition NewRunnableFromConsumer ::
  "'a \<Rightarrow> ('ctx, 'w, 'a, 'e, 'p) consumer \<Rightarrow> ('ctx, 'w, 'e, 'p) runnable" where
  "NewRunnableFromConsumer arg consumer = NewRunnableFromFunc (\<lambda>ctx. consumer ctx arg)"

definition NewRunnableFromFunction ::
  "('ctx, 'w, 'a, 'r, 'e, 'p) gofunction \<Rightarrow> 'a \<Rightarrow> ('ctx, 'w, 'e, 'p) runnable" where
  "NewRunnableFromFunction func arg = NewRunnableFromConsumer arg (NewConsumerFromFunction func)"

definition NewRunnableFromSupplier ::
  "('ctx, 'w, 'r, 'e, 'p) supplier \<Rightarrow> ('ctx, 'w, 'e, 'p) runnable" where
  "NewRunnableFromSupplier supplier =
     NewRunnableFromFunc (\<lambda>ctx. go_bind (supplier ctx) (\<lambda>(_, err). go_return err))"

text \<open>A \<open>NamedRunnable\<close> is a runnable with a name; \<open>defaultNamedRunnable\<close> pairs the two.\<close>

record ('ctx, 'w, 'e, 'p) NamedRunnable =
  Name :: string
  Run :: "('ctx, 'w, 'e, 'p) runnable"

definition NewNamedRunnable ::
  "string \<Rightarrow> ('ctx, 'w, 'e, 'p) runnable \<Rightarrow> ('ctx, 'w, 'e, 'p) NamedRunnable" where
  "NewNamedRunnable n r = \<lparr>Name = n, Run = (\<lambda>ctx. r ctx)\<rparr>"

section \<open>util/async and util/types\<close>

text \<open>
  A pointer is an address of a store; \<open>ToPointer\<close> allocates, \<open>ToValue\<close> reads it and
  panics on \<open>nil\<close> (\<open>None\<close>).
\<close>

definition ToPointer :: "'t \<Rightarrow> 't list \<Rightarrow> nat option \<times> 't list" where
  "ToPointer t st = (Some (length st), st @ [t])"

definition ToValue :: "nat option \<Rightarrow> ('t list, 't, string) go" where
  "ToValue p st =
     (case p of None \<Rightarrow> (Panic ''nil dereference'', st)
      | Some a \<Rightarrow> (if a < length st then (Ret (st ! a), st) else (Panic ''bad address'', st)))"

type_synonym ('ctx, 'w, 'r, 'e, 'p) Future = "'ctx \<Rightarrow> ('w, ('r, 'e) result, 'p) go"

record ('ctx, 'w, 'r, 'e, 'p) functionalFuture =
  underlyingFunc :: "'ctx \<Rightarrow> ('w, ('r, 'e) result, 'p) go"

definition functionalFuture_Get ::
  "('ctx, 'w, 'r, 'e, 'p) functionalFuture \<Rightarrow> ('ctx, 'w, 'r, 'e, 'p) Future" where
  "functionalFuture_Get f ctx = underlyingFunc f ctx"

definition NewFunctionalFuture ::
  "('ctx \<Rightarrow> ('w, ('r, 'e) result, 'p) go) \<Rightarrow> ('ctx, 'w, 'r, 'e, 'p) Future" where
  "NewFunctionalFuture f = functionalFuture_Get \<lparr>underlyingFunc = f\<rparr>"

definition MapFuture ::
  "'r2 \<Rightarrow> ('ctx, 'w, 'r, 'e, 'p) Future \<Rightarrow> ('ctx, 'w, 'r, 'r2, 'e, 'p) gofunction
     \<Rightarrow> ('ctx, 'w, 'r2, 'e, 'p) Future" where
  "MapFuture zero future fn = NewFunctionalFuture (\<lambda>ctx.
     go_bind (future ctx) (\<lambda>(val, err).
       case err of Some e \<Rightarrow> go_return (zero, Some e) | None \<Rightarrow> fn ctx val))"

lemmas adaptor_defs = FunctionFunc_Apply_def NewFunctionFromFunc_def SupplierFunc_Get_def
  NewSupplierFromFunc_def NewSupplierFromFunction_def NewSupplierFromValue_def
  ConsumerFunc_Accept_def NewConsumerFromFunc_def NewConsumerFromFunction_def
  RunnableFunc_Run_def NewRunnableFromFunc_def NewRunnableFromConsumer_def
  NewRunnableFromFunction_def NewRunnableFromSupplier_def NewNamedRunnable_def

lemmas future_defs = functionalFuture_Get_def NewFunctionalFuture_def MapFuture_def

section \<open>What an adaptor keeps\<close>

text \<open>The error-only view of a call: its effects and panics, without the value.\<close>

definition error_only :: "('w, ('r, 'e) result, 'p) go \<Rightarrow> ('w, 'e option, 'p) go" where
  "error_only m w =
     (case m w of (Ret (_, err), w') \<Rightarrow> (Ret err, w') | (Panic p, w') \<Rightarrow> (Panic p, w'))"

lemma error_only_bind: "go_bind m (\<lambda>(_, err). go_return err) = error_only m"
  by (rule ext) (simp add: error_only_def go_bind_def go_return_def split: prod.split outcome.split)

lemma NewSupplierFromFunc_id [simp, go_simps]: "NewSupplierFromFunc f = f"
  by (rule ext) (simp add: adaptor_defs)

lemma NewRunnableFromFunc_id [simp, go_simps]: "NewRunnableFromFunc f = f"
  by (rule ext) (simp add: adaptor_defs)

lemma NewSupplierFromFunction_apply [simp, go_simps]:
  "NewSupplierFromFunction arg func ctx = func ctx arg"
  by (simp add: adaptor_defs)

lemma NewRunnableFromConsumer_apply [simp, go_simps]:
  "NewRunnableFromConsumer arg consumer ctx = consumer ctx arg"
  by (simp add: adaptor_defs)

lemma NewRunnableFromFunction_apply: "NewRunnableFromFunction func arg ctx = error_only (func ctx arg)"
  by (simp add: adaptor_defs error_only_bind)

lemma NewRunnableFromSupplier_apply: "NewRunnableFromSupplier s ctx = error_only (s ctx)"
  by (simp add: adaptor_defs error_only_bind)

lemma MapFuture_Panic: "f ctx w = (Panic p, w') \<Longrightarrow> MapFuture z f fn ctx w = (Panic p, w')"
  by (simp add: future_defs go_bind_def)

lemma MapFuture_error: "f ctx w = (Ret (v, Some e), w') \<Longrightarrow>
   MapFuture z f fn ctx w = (Ret (z, Some e), w')"
  by (simp add: future_defs go_bind_def go_return_def)

lemma MapFuture_value: "f ctx w = (Ret (v, None), w') \<Longrightarrow> MapFuture z f fn ctx w = fn ctx v w'"
  by (simp add: future_defs go_bind_def)

lemma MapFuture_compose:
  "MapFuture z2 (MapFuture z1 f g) h ctx w =
     MapFuture z2 f (\<lambda>ctx v. MapFuture z2 (\<lambda>c. g c v) h ctx) ctx w"
proof (cases "f ctx w")
  case (Pair r w')
  show ?thesis
  proof (cases r)
    case (Ret x)
    with Pair show ?thesis
      by (cases x; cases "snd x")
        (auto simp: MapFuture_error MapFuture_value future_defs go_bind_def go_return_def
          split: prod.split outcome.split option.split)
  qed (use Pair in \<open>simp add: MapFuture_Panic\<close>)
qed

section \<open>Properties\<close>

text \<open>
  Every adaptor of the package \<open>function\<close> calls what it wraps exactly once with
  the same context and argument and passes effects, panics and error on unchanged: the
  two routes from a function to a runnable (through a consumer, through a supplier) agree, and
  a supplier made from a value returns it without any effect.
\<close>

theorem adaptors_transparent:
  "NewSupplierFromFunction arg func ctx w = func ctx arg w
   \<and> NewRunnableFromFunction func arg ctx w = error_only (func ctx arg) w
   \<and> NewRunnableFromSupplier (NewSupplierFromFunction arg func) ctx w
       = NewRunnableFromFunction func arg ctx w
   \<and> NewRunnableFromConsumer arg (NewConsumerFromFunction func) ctx w
       = NewRunnableFromFunction func arg ctx w
   \<and> NewSupplierFromValue v ctx w = (Ret (v, None), w)
   \<and> Run (NewNamedRunnable n (NewRunnableFromFunction func arg)) ctx w
       = error_only (func ctx arg) w"
  by (simp add: NewRunnableFromFunction_apply NewRunnableFromSupplier_apply)
    (simp add: adaptor_defs error_only_bind go_return_def)

text \<open>
  \<open>MapFuture\<close> runs the mapping function only on a future without error, hands an
  error on with the zero value and without calling the function, passes panics, and mapping
  twice is mapping the composed function once.
\<close>

theorem MapFuture_laws:
  "(case f ctx w of
      (Panic p, w') \<Rightarrow> MapFuture z f fn ctx w = (Panic p, w')
    | (Ret (v, Some e), w') \<Rightarrow> MapFuture z f fn ctx w = (Ret (z, Some e), w')
    | (Ret (v, None), w') \<Rightarrow> MapFuture z f fn ctx w = fn ctx v w')
   \<and> MapFuture z2 (MapFuture z f fn) h ctx w =
       MapFuture z2 f (\<lambda>ctx v. MapFuture z2 (\<lambda>c. fn c v) h ctx) ctx w"
  using MapFuture_compose [of z2 z f fn h ctx w]
  by (auto simp: MapFuture_Panic MapFuture_error MapFuture_value
      split: prod.split outcome.split option.split)

end
