(* ===== verification/Computing_Future.thy ===== *)
theory Computing_Future
  imports Go_Functions Collapsing_Queue
begin

text \<open>
  \<open>defaultComputingFuture\<close> of \<open>internal/futures/computing_future.go\<close>. \<open>Compute\<close> runs the
  supplier while it holds the lock of the condition variable, stores what it returned (or the
  error of a recovered panic with the zero value \<open>zero\<close>) and broadcasts. \<open>Get\<close> waits
  until a result is stored. The world \<open>'w\<close> is what the suppliers act on.
\<close>

record ('r, 'e) computationResult =
  cr_result :: 'r
  cr_err :: "'e option"

record ('ctx, 'w, 'r, 'e, 'p) computingFuture =
  supplier :: "('ctx, 'w, 'r, 'e, 'p) supplier"
  computationResult :: "('r, 'e) computationResult option"

definition NewDefaultComputingFuture ::
  "('ctx, 'w, 'r, 'e, 'p) supplier \<Rightarrow> ('ctx, 'w, 'r, 'e, 'p) computingFuture" where
  "NewDefaultComputingFuture s = \<lparr>supplier = s, computationResult = None\<rparr>"

text \<open>The closure \<open>catchPanic\<close> acts on the future's field and on the world.\<close>

definition catchPanic ::
  "'ctx \<Rightarrow> (('ctx, 'w, 'r, 'e, 'p) computingFuture \<times> 'w, 'e option, 'p) go" where
  "catchPanic ctx = (\<lambda>(d, w).
     case supplier d ctx w of
       (Ret (result, err), w') \<Rightarrow>
         (Ret None, (d\<lparr>computationResult := Some \<lparr>cr_result = result, cr_err = err\<rparr>\<rparr>, w'))
     | (Panic p, w') \<Rightarrow> (Panic p, (d, w')))"

definition handle_in ::
  "('ctx \<Rightarrow> 'p \<Rightarrow> 'w \<Rightarrow> 'e \<times> 'w) \<Rightarrow> 'ctx \<Rightarrow> 'p \<Rightarrow> 'd \<times> 'w \<Rightarrow> 'e \<times> 'd \<times> 'w" where
  "handle_in handle ctx p = (\<lambda>(d, w). case handle ctx p w of (e, w') \<Rightarrow> (e, d, w'))"

definition Compute ::
  "('ctx \<Rightarrow> 'p \<Rightarrow> 'w \<Rightarrow> 'e \<times> 'w) \<Rightarrow> 'r \<Rightarrow> 'ctx \<Rightarrow> ('ctx, 'w, 'r, 'e, 'p) computingFuture
     \<Rightarrow> 'w \<Rightarrow> wake \<times> ('ctx, 'w, 'r, 'e, 'p) computingFuture \<times> 'w" where
  "Compute handle zero ctx d w =
     (if computationResult d \<noteq> None then (NoWake, d, w)
      else (case (RunWithRecoveryLoggingWithError (handle_in handle) ctx catchPanic (d, w)
                    :: ('e option, unit) outcome \<times> _) of
          (Ret None, d', w') \<Rightarrow> (Broadcast, d', w')
        | (Ret (Some hasPanic), d', w') \<Rightarrow>
            (Broadcast,
             d'\<lparr>computationResult := Some \<lparr>cr_result = zero, cr_err = Some hasPanic\<rparr>\<rparr>, w')
        | (Panic _, d', w') \<Rightarrow> (NoWake, d', w')))"

text \<open>
  One pass of \<open>Get\<close> under the lock: \<open>None\<close> when the loop waits.
\<close>

definition Get_result ::
  "('ctx, 'w, 'r, 'e, 'p) computingFuture \<Rightarrow> ('r, 'e) result option" where
  "Get_result d =
     (case computationResult d of None \<Rightarrow> None | Some c \<Rightarrow> Some (cr_result c, cr_err c))"

text \<open>
  What a supplier's call comes to once panics are errors: the reference the future's result is
  compared with.
\<close>

definition supplied ::
  "('ctx \<Rightarrow> 'p \<Rightarrow> 'w \<Rightarrow> 'e \<times> 'w) \<Rightarrow> 'r \<Rightarrow> ('ctx, 'w, 'r, 'e, 'p) supplier \<Rightarrow> 'ctx \<Rightarrow> 'w
     \<Rightarrow> ('r, 'e) result \<times> 'w" where
  "supplied handle zero s ctx w =
     (case s ctx w of
        (Ret r, w') \<Rightarrow> (r, w')
      | (Panic p, w') \<Rightarrow> (case handle ctx p w' of (e, w'') \<Rightarrow> ((zero, Some e), w'')))"

lemma Compute_set: "computationResult d \<noteq> None \<Longrightarrow> Compute handle zero ctx d w = (NoWake, d, w)"
  by (simp add: Compute_def)

lemma Compute_unset:
  assumes "computationResult d = None"
  shows "Compute handle zero ctx d w =
    (case supplied handle zero (supplier d) ctx w of
       ((r, e), w') \<Rightarrow>
         (Broadcast, d\<lparr>computationResult := Some \<lparr>cr_result = r, cr_err = e\<rparr>\<rparr>, w'))"
proof (cases "supplier d ctx w")
  case (Pair o' w')
  with assms show ?thesis
    by (cases o'; cases "handle ctx (case o' of Panic p \<Rightarrow> p) w'")
      (simp_all add: Compute_def RunWithRecoveryLoggingWithError_def catchPanic_def handle_in_def
        supplied_def split: prod.splits)
qed

lemma Compute_supplier [simp]: "supplier (fst (snd (Compute handle zero ctx d w))) = supplier d"
  by (cases "computationResult d") (simp_all add: Compute_set Compute_unset split: prod.split)

lemma Compute_result:
  "Get_result (fst (snd (Compute handle zero ctx d w))) =
     (case Get_result d of Some r \<Rightarrow> Some r | None \<Rightarrow> Some (fst (supplied handle zero (supplier d) ctx w)))"
  by (cases "computationResult d") (simp_all add: Compute_set Compute_unset Get_result_def split: prod.split)

lemma Compute_sets: "computationResult (fst (snd (Compute handle zero ctx d w))) \<noteq> None"
  by (cases "computationResult d") (simp_all add: Compute_set Compute_unset split: prod.split)

section \<open>Goroutines on one future\<close>

text \<open>
  Any number of goroutines call \<open>Compute\<close> and \<open>Get\<close>. \<open>lock\<close> names the goroutine whose
  \<open>Compute\<close> is running the supplier; it holds the lock all the time, so no other call gets
  in. Everything else on the world happens in \<open>FEnv\<close>. The counter \<open>runs\<close> records how
  often a supplier run was started.
\<close>

datatype ('ctx, 'r, 'e) fgo =
    FOutside
  | FComputing 'ctx          \<comment> \<open>holds the lock, supplier running\<close>
  | FParked | FWoken         \<comment> \<open>in \<open>cond.Wait\<close> of \<open>Get\<close>, about to re-test\<close>
  | FGot "('r, 'e) result"   \<comment> \<open>\<open>Get\<close> returned\<close>

record ('ctx, 'w, 'r, 'e, 'p) fsys =
  fut :: "('ctx, 'w, 'r, 'e, 'p) computingFuture"
  fworld :: 'w
  lock :: "nat option"
  runs :: nat
  fgos :: "('ctx, 'r, 'e) fgo list"

datatype ('ctx, 'w) fact =
    FBegin nat 'ctx | FEnd nat | FGet nat | FResume nat | FEnv 'w

fun fwake :: "('ctx, 'r, 'e) fgo \<Rightarrow> ('ctx, 'r, 'e) fgo" where
  "fwake FParked = FWoken"
| "fwake g = g"

definition after_future_get ::
  "('ctx, 'w, 'r, 'e, 'p) computingFuture \<Rightarrow> ('ctx, 'r, 'e) fgo" where
  "after_future_get d = (case Get_result d of None \<Rightarrow> FParked | Some r \<Rightarrow> FGot r)"

fun fexec :: "('ctx \<Rightarrow> 'p \<Rightarrow> 'w \<Rightarrow> 'e \<times> 'w) \<Rightarrow> 'r \<Rightarrow> ('ctx, 'w, 'r, 'e, 'p) fsys
    \<Rightarrow> ('ctx, 'w) fact \<Rightarrow> ('ctx, 'w, 'r, 'e, 'p) fsys option" where
  "fexec handle zero s (FBegin i ctx) =
     (if lock s = None \<and> i < length (fgos s) \<and> fgos s ! i = FOutside
      then Some (if computationResult (fut s) \<noteq> None then s
                 else s\<lparr>lock := Some i, runs := Suc (runs s), fgos := (fgos s)[i := FComputing ctx]\<rparr>)
      else None)"
| "fexec handle zero s (FEnd i) =
     (if lock s = Some i \<and> i < length (fgos s)
      then (case fgos s ! i of
          FComputing ctx \<Rightarrow>
            (case Compute handle zero ctx (fut s) (fworld s) of
               (wk, d, w) \<Rightarrow> Some (s\<lparr>fut := d, fworld := w, lock := None,
                  fgos := (let gs = (fgos s)[i := FOutside]
                           in if wk = Broadcast then map fwake gs else gs)\<rparr>))
        | _ \<Rightarrow> None)
      else None)"
| "fexec handle zero s (FGet i) =
     (if lock s = None \<and> i < length (fgos s) \<and> fgos s ! i = FOutside
      then Some (s\<lparr>fgos := (fgos s)[i := after_future_get (fut s)]\<rparr>) else None)"
| "fexec handle zero s (FResume i) =
     (if lock s = None \<and> i < length (fgos s) \<and> fgos s ! i = FWoken
      then Some (s\<lparr>fgos := (fgos s)[i := after_future_get (fut s)]\<rparr>) else None)"
| "fexec handle zero s (FEnv w) = Some (s\<lparr>fworld := w\<rparr>)"

definition finit :: "('ctx, 'w, 'r, 'e, 'p) supplier \<Rightarrow> ('ctx, 'w, 'r, 'e, 'p) fsys \<Rightarrow> bool" where
  "finit s0 s \<longleftrightarrow> (\<exists>n w. s = \<lparr>fut = NewDefaultComputingFuture s0, fworld = w, lock = None,
     runs = 0, fgos = replicate n FOutside\<rparr>)"

text \<open>
  The invariant: the lock is held exactly while a goroutine computes; the supplier was started
  at most once, and exactly once when it is running or a result is stored; whoever got a result
  got the stored one; with a stored result nobody is parked.
\<close>

definition f_inv :: "('ctx, 'w, 'r, 'e, 'p) fsys \<Rightarrow> bool" where
  "f_inv s \<longleftrightarrow>
     (\<forall>i < length (fgos s). (\<exists>ctx. fgos s ! i = FComputing ctx) \<longleftrightarrow> lock s = Some i)
     \<and> (\<forall>i. lock s = Some i \<longrightarrow> i < length (fgos s) \<and> computationResult (fut s) = None)
     \<and> runs s = (if lock s = None \<and> computationResult (fut s) = None then 0 else 1)
     \<and> (\<forall>r. FGot r \<in> set (fgos s) \<longrightarrow> Get_result (fut s) = Some r)
     \<and> (FParked \<in> set (fgos s) \<longrightarrow> computationResult (fut s) = None)"

lemma fwake_eq [simp]:
  "fwake g = FComputing ctx \<longleftrightarrow> g = FComputing ctx"
  "fwake g = FGot r \<longleftrightarrow> g = FGot r" "FGot r = fwake g \<longleftrightarrow> g = FGot r"
  "fwake g \<noteq> FParked" "FParked \<noteq> fwake g"
  by (cases g; auto)+

lemma after_future_get_eq [simp]:
  "after_future_get d \<noteq> FComputing ctx" "after_future_get d \<noteq> FOutside"
  "after_future_get d = FParked \<longleftrightarrow> computationResult d = None"
  "FParked = after_future_get d \<longleftrightarrow> computationResult d = None"
  "after_future_get d = FGot r \<longleftrightarrow> Get_result d = Some r"
  "FGot r = after_future_get d \<longleftrightarrow> Get_result d = Some r"
  by (auto simp: after_future_get_def Get_result_def split: option.splits)

lemma Get_result_None [simp]: "Get_result d = None \<longleftrightarrow> computationResult d = None"
  by (simp add: Get_result_def split: option.split)

lemma f_inv_begin:
  assumes "f_inv s" and "fexec handle zero s (FBegin i ctx) = Some t"
  shows "f_inv t"
proof (cases "computationResult (fut s)")
  case None
  with assms(2) have i: "lock s = None" "i < length (fgos s)" "fgos s ! i = FOutside"
    and t: "t = s\<lparr>lock := Some i, runs := Suc (runs s), fgos := (fgos s)[i := FComputing ctx]\<rparr>"
    by (auto split: if_splits)
  show ?thesis
    unfolding f_inv_def t
    using assms(1) i None
    by (intro conjI) (auto simp: f_inv_def nth_update dest!: in_set_update)
next
  case (Some r)
  with assms show ?thesis by (auto split: if_splits)
qed

lemma f_inv_get:
  assumes "f_inv s" and "lock s = None" and "i < length (fgos s)"
  shows "f_inv (s\<lparr>fgos := (fgos s)[i := after_future_get (fut s)]\<rparr>)"
  unfolding f_inv_def
  using assms
  by (intro conjI) (auto simp: f_inv_def nth_update dest!: in_set_update)

lemma f_inv_end:
  assumes "f_inv s" and "fexec handle zero s (FEnd i) = Some t"
  shows "f_inv t"
proof -
  from assms(2) have i: "lock s = Some i" "i < length (fgos s)" by (auto split: if_splits)
  with assms(1) have unset: "computationResult (fut s) = None"
    and others: "\<forall>j < length (fgos s). (\<exists>c. fgos s ! j = FComputing c) \<longrightarrow> j = i"
    by (auto simp: f_inv_def)
  from assms(1) i obtain ctx where ctx: "fgos s ! i = FComputing ctx" unfolding f_inv_def by metis
  have nogot: "FGot r \<notin> set (fgos s)" for r
    using assms(1) unset unfolding f_inv_def by (metis Get_result_None option.discI)
  obtain r e w where sup: "supplied handle zero (supplier (fut s)) ctx (fworld s) = ((r, e), w)"
    by (metis surj_pair)
  have t: "t = s\<lparr>fut := (fut s)\<lparr>computationResult := Some \<lparr>cr_result = r, cr_err = e\<rparr>\<rparr>,
      fworld := w, lock := None, fgos := map fwake ((fgos s)[i := FOutside])\<rparr>"
    using assms(2) i ctx by (auto simp: Compute_unset [OF unset] sup Let_def)
  have "\<forall>j < length (fgos s). \<not> (\<exists>c. map fwake ((fgos s)[i := FOutside]) ! j = FComputing c)"
    using others by (auto simp: nth_update)
  then show ?thesis
    unfolding f_inv_def t
    using assms(1) i unset nogot
    by (intro conjI) (auto simp: f_inv_def dest!: in_set_update)
qed

interpretation fut: transition_invariant "finit s0" "by_exec (fexec handle zero)" f_inv
proof (unfold_locales, goal_cases)
  case (1 s)
  then show ?case
    by (auto simp: finit_def f_inv_def NewDefaultComputingFuture_def)
next
  case (2 s a t)
  show ?case
  proof (cases a)
    case (FBegin i ctx)
    with 2 show ?thesis by (auto simp: by_exec_def intro: f_inv_begin simp del: fexec.simps)
  next
    case (FEnd i)
    with 2 show ?thesis by (auto simp: by_exec_def intro: f_inv_end simp del: fexec.simps)
  next
    case (FGet i)
    with 2 show ?thesis by (auto simp: by_exec_def split: if_splits intro: f_inv_get)
  next
    case (FResume i)
    with 2 show ?thesis by (auto simp: by_exec_def split: if_splits intro: f_inv_get)
  next
    case (FEnv w)
    with 2 show ?thesis by (auto simp: by_exec_def f_inv_def)
  qed
qed

lemma fexec_keeps_result:
  "fexec handle zero s a = Some t \<Longrightarrow> Get_result (fut s) = Some r \<Longrightarrow> Get_result (fut t) = Some r"
  by (cases a)
    (auto simp: Get_result_def Compute_set Let_def split: if_splits option.splits fgo.splits)

lemma path_keeps_result:
  "path (by_exec (fexec handle zero)) s as t \<Longrightarrow> Get_result (fut s) = Some r
     \<Longrightarrow> Get_result (fut t) = Some r"
  by (induction rule: path.induct) (auto simp: by_exec_def intro: fexec_keeps_result simp del: fexec.simps)

section \<open>Properties\<close>

text \<open>
  \<open>Compute\<close> stores what the supplier returned, or the zero value and the error of
  the recovered panic, and wakes every waiting \<open>Get\<close>; a second \<open>Compute\<close> does nothing, not
  even to the world; \<open>Get\<close> returns the stored result from then on.
\<close>

theorem Compute_spec:
  assumes "Compute handle zero ctx (NewDefaultComputingFuture s0) w = (wk, d, w')"
  shows "wk = Broadcast \<and> Get_result (NewDefaultComputingFuture s0) = None
    \<and> Get_result d = Some (fst (supplied handle zero s0 ctx w))
    \<and> w' = snd (supplied handle zero s0 ctx w)
    \<and> Compute handle zero ctx2 d w2 = (NoWake, d, w2)"
  using assms
  by (auto simp: Compute_unset NewDefaultComputingFuture_def Get_result_def Compute_set
      split: prod.splits)

theorem Compute_spec_witness:
  "\<exists>d w'. Compute (\<lambda>_ p (w::nat). (p @ ''!'', w + 10)) (0::nat) ()
      (NewDefaultComputingFuture (\<lambda>_ w. (Panic ''boom'', w + 1))) 5 = (Broadcast, d, w')
    \<and> Get_result d = Some (0, Some ''boom!'') \<and> w' = 16"
proof -
  let ?h = "\<lambda>(_::unit) p (w::nat). (p @ ''!'', w + 10)"
  let ?s = "\<lambda>(_::unit) (w::nat). (Panic ''boom'', w + 1)
    :: ((nat, string) result, string) outcome \<times> nat"
  obtain wk d w' where c: "Compute ?h (0::nat) () (NewDefaultComputingFuture ?s) 5 = (wk, d, w')"
    by (metis surj_pair)
  from Compute_spec [OF c, of "()" 0] c show ?thesis
    by (simp add: supplied_def)
qed

text \<open>
  Claim C25: whatever the number of goroutines and the order of their calls, the supplier is
  started at most once, no \<open>Get\<close> returns before a result is stored, every \<open>Get\<close> that
  returned has the stored result, which no later step changes, and once it is stored no
  \<open>Get\<close> is left parked.
\<close>

theorem future_single_assignment:
  assumes "reach (finit s0) (by_exec (fexec handle zero)) s"
  shows "runs s \<le> 1
    \<and> (\<forall>r. FGot r \<in> set (fgos s) \<longrightarrow> Get_result (fut s) = Some r)
    \<and> (Get_result (fut s) \<noteq> None \<longrightarrow> runs s = 1 \<and> FParked \<notin> set (fgos s))
    \<and> (\<forall>as t r. path (by_exec (fexec handle zero)) s as t \<and> Get_result (fut s) = Some r
         \<longrightarrow> Get_result (fut t) = Some r)"
  using fut.inv_reach [OF assms] path_keeps_result [of handle zero s]
  by (auto simp: f_inv_def split: if_splits)

theorem future_single_assignment_witness:
  "\<exists>s :: (unit, nat, nat, string, string) fsys.
     fgos s = [FOutside, FGot (7, None), FGot (7, None)] \<and> runs s = 1"
proof -
  let ?h = "\<lambda>(_::unit) (p::string) (w::nat). (p, w)"
  let ?s0 = "\<lambda>(_::unit) (w::nat). (Ret (w, None), w + 1)
    :: ((nat, string) result, string) outcome \<times> nat"
  let ?i = "\<lparr>fut = NewDefaultComputingFuture ?s0, fworld = 6, lock = None, runs = 0,
     fgos = [FOutside, FOutside, FOutside]\<rparr>"
  have init: "finit ?s0 ?i"
    unfolding finit_def by (rule exI [of _ 3], rule exI [of _ 6]) (simp add: numeral_3_eq_3)
  let ?as = "[FGet 1, FBegin 0 (), FEnv 7, FEnd 0, FBegin 0 (), FGet 2, FResume 1]"
  have "\<exists>s. run (fexec ?h 0) ?i ?as = Some s \<and> Get_result (fut s) \<noteq> None
      \<and> fgos s = [FOutside, FGot (7, None), FGot (7, None)]"
    by (simp add: Compute_unset supplied_def NewDefaultComputingFuture_def after_future_get_def
        Get_result_def Let_def)
  then obtain s where s: "run (fexec ?h 0) ?i ?as = Some s" and f: "Get_result (fut s) \<noteq> None"
    "fgos s = [FOutside, FGot (7, None), FGot (7, None)]" by blast
  from future_single_assignment [OF run_reach [of "finit ?s0", OF init s]] f show ?thesis
    by metis
qed

end
