(* ===== verification/Worker_Pool.thy ===== *)
theory Worker_Pool
  imports Queue_Threads Fifo_Queue Computing_Future
begin

text \<open>
  \<open>defaultSupplierWorkerPool\<close> of \<open>workerpool/supplier_workerpool.go\<close> with its options. The
  pool is a machine: one submission at a time holds \<open>submitLock\<close> and goes through the loads
  and decisions of \<open>needAdditionalWorker\<close>, the start of a worker and the \<open>Add\<close>; every
  worker goes through the program points of \<open>runWorkerLoop\<close>. Each atomic load, atomic add
  and critical section of the queue is a step of its own, so that all their interleavings are
  paths of the machine. The FIFO queue, its condition variable and the futures are the models
  of \<open>Fifo_Queue\<close>, \<open>Queue_Threads\<close> and \<open>Computing_Future\<close>.
\<close>

section \<open>Configuration\<close>

record 'tag Config =
  maxNumberOfWorkers :: "int option"
  tags :: "'tag list"

definition WithMaxNumberOfWorkers :: "int \<Rightarrow> 'tag Config \<Rightarrow> 'tag Config" where
  "WithMaxNumberOfWorkers maxNumberOfThreads c =
     (if maxNumberOfThreads < 1 then c else c\<lparr>maxNumberOfWorkers := Some maxNumberOfThreads\<rparr>)"

definition WithMetricTags :: "'tag list \<Rightarrow> 'tag Config \<Rightarrow> 'tag Config" where
  "WithMetricTags ts c = c\<lparr>tags := ts\<rparr>"

definition apply_options :: "('tag Config \<Rightarrow> 'tag Config) list \<Rightarrow> 'tag Config" where
  "apply_options opts = fold (\<lambda>opt c. opt c) opts \<lparr>maxNumberOfWorkers = None, tags = []\<rparr>"

section \<open>State\<close>

text \<open>
  A wrapper object names its future by the address of the future in \<open>futures\<close>.
\<close>

record 'ctx workerPoolWrapperObject =
  contextToRunFutureWith :: 'ctx
  underlyingFuture :: nat

text \<open>The flags are \<open>initialSubmitMade\<close>.\<close>

datatype worker =
    WLoop bool      \<comment> \<open>at the top of the loop, about to take the queue's lock\<close>
  | WParked bool    \<comment> \<open>in \<open>cond.Wait\<close> of \<open>GetWithCallback\<close>\<close>
  | WWoken bool     \<comment> \<open>signalled there\<close>
  | WTaken nat      \<comment> \<open>the delegate handed out the element, \<open>Done\<close> comes next\<close>
  | WRun nat        \<comment> \<open>\<open>GetWithCallback\<close> returned; computing the future\<close>
  | WMark           \<comment> \<open>computed; \<open>markQueueLength\<close> and \<open>numberFree.Add(1)\<close> come next\<close>
  | WStopped bool   \<comment> \<open>\<open>startWorker\<close> returned after the queue reported the shutdown\<close>
  | WDied           \<comment> \<open>\<open>startWorker\<close> returned after a panic during the shutdown\<close>

text \<open>Who holds \<open>submitLock\<close>, and how far \<open>Submit\<close> got.\<close>

datatype ('ctx, 'w, 'r, 'e, 'p) submission =
    NoSubmit
  | Loaded 'ctx "('ctx, 'w, 'r, 'e, 'p) supplier" int    \<comment> \<open>\<open>notDoingWorkCount\<close> read\<close>
  | AskLen 'ctx "('ctx, 'w, 'r, 'e, 'p) supplier" int    \<comment> \<open>about to read \<open>queue.Len()\<close>\<close>
  | Decided 'ctx "('ctx, 'w, 'r, 'e, 'p) supplier" bool  \<comment> \<open>\<open>needAdditionalWorker\<close> returned\<close>
  | Ready 'ctx "('ctx, 'w, 'r, 'e, 'p) supplier"         \<comment> \<open>about to \<open>queue.Add\<close>\<close>

text \<open>
  The last three fields are history: the wrapper objects the queue accepted, those it handed to
  a worker and those whose \<open>Compute\<close> was called, each in that order.
\<close>

record ('ctx, 'w, 'r, 'e, 'p, 'tag) pool =
  config :: "'tag Config"
  pqueue :: "'ctx workerPoolWrapperObject item_queue"
  numberFree :: int
  totalCount :: int
  submitting :: "('ctx, 'w, 'r, 'e, 'p) submission"
  ctxDone :: bool
  workers :: "worker list"
  futures :: "('ctx, 'w, 'r, 'e, 'p) computingFuture list"
  world :: 'w
  accepted :: "nat list"
  taken :: "nat list"
  computed :: "nat list"

definition NewDefaultSupplierWorkerPool ::
  "('tag Config \<Rightarrow> 'tag Config) list \<Rightarrow> 'w \<Rightarrow> ('ctx, 'w, 'r, 'e, 'p, 'tag) pool" where
  "NewDefaultSupplierWorkerPool opts w =
     \<lparr>config = apply_options opts, pqueue = NewQueue, numberFree = 0, totalCount = 0,
      submitting = NoSubmit, ctxDone = False, workers = [], futures = [], world = w,
      accepted = [], taken = [], computed = []\<rparr>"

section \<open>Steps\<close>

text \<open>
  \<open>needAdditionalWorker\<close>: the decision after the loads of \<open>numberFree\<close> and \<open>totalCount\<close>
  (\<open>None\<close>: it goes on to read the queue's length), then the decision on the length.
\<close>

definition need_by_count :: "'tag Config \<Rightarrow> int \<Rightarrow> int \<Rightarrow> bool option" where
  "need_by_count cfg notDoingWorkCount mapSize =
     (if (case maxNumberOfWorkers cfg of None \<Rightarrow> False | Some m \<Rightarrow> m \<le> mapSize) then Some False
      else if notDoingWorkCount = 0 then Some True
      else None)"

definition need_by_length :: "int \<Rightarrow> nat \<Rightarrow> bool" where
  "need_by_length notDoingWorkCount len \<longleftrightarrow> notDoingWorkCount \<le> int len"

definition startWorkerAsync :: "('ctx, 'w, 'r, 'e, 'p, 'tag) pool \<Rightarrow> ('ctx, 'w, 'r, 'e, 'p, 'tag) pool" where
  "startWorkerAsync s = s\<lparr>totalCount := totalCount s + 1, workers := workers s @ [WLoop False]\<rparr>"

text \<open>
  After \<open>runWorkerLoop\<close> returned or panicked, \<open>startWorker\<close> returns when the queue is
  shutting down and runs the loop again otherwise.
\<close>

definition startWorker_next :: "worker \<Rightarrow> 'v item_queue \<Rightarrow> worker" where
  "startWorker_next stop q = (if fq_ShuttingDown q then stop else WLoop False)"

fun w_parked :: "worker \<Rightarrow> bool" where
  "w_parked (WParked _) = True"
| "w_parked _ = False"

fun w_awake :: "worker \<Rightarrow> worker" where
  "w_awake (WParked b) = WWoken b"
| "w_awake g = g"

definition wake_workers :: "wake \<Rightarrow> nat option \<Rightarrow> worker list \<Rightarrow> worker list option" where
  "wake_workers = wake_by w_parked w_awake"

definition free_callback :: "bool \<Rightarrow> int \<Rightarrow> int" where
  "free_callback initialSubmitMade n = (if initialSubmitMade then n - 1 else n)"

definition worker_get :: "nat \<Rightarrow> bool \<Rightarrow> ('ctx, 'w, 'r, 'e, 'p, 'tag) pool
    \<Rightarrow> ('ctx, 'w, 'r, 'e, 'p, 'tag) pool" where
  "worker_get i b s =
     (case fq_take (Some (free_callback b)) (pqueue s) (numberFree s) of
        (Item p, q, n) \<Rightarrow>
          s\<lparr>pqueue := q, numberFree := n, workers := (workers s)[i := WTaken p],
            taken := taken s @ [p]\<rparr>
      | (Waits, q, n) \<Rightarrow>
          s\<lparr>pqueue := q, numberFree := n, workers := (workers s)[i := WParked b]\<rparr>
      | (ShutDownSeen, q, n) \<Rightarrow>
          s\<lparr>pqueue := q, numberFree := n,
            workers := (workers s)[i := startWorker_next (WStopped b) q]\<rparr>
      | (PopPanics, q, n) \<Rightarrow>
          s\<lparr>pqueue := q, numberFree := n,
            workers := (workers s)[i := startWorker_next WDied q]\<rparr>)"

definition worker_compute :: "('ctx \<Rightarrow> 'p \<Rightarrow> 'w \<Rightarrow> 'e \<times> 'w) \<Rightarrow> 'r \<Rightarrow> nat \<Rightarrow> nat
    \<Rightarrow> ('ctx, 'w, 'r, 'e, 'p, 'tag) pool \<Rightarrow> ('ctx, 'w, 'r, 'e, 'p, 'tag) pool" where
  "worker_compute handle zero i p s =
     (let el = cells (pqueue s) ! p; f = underlyingFuture el
      in case Compute handle zero (contextToRunFutureWith el) (futures s ! f) (world s) of
           (_, d, w) \<Rightarrow>
             s\<lparr>futures := (futures s)[f := d], world := w,
               workers := (workers s)[i := WMark], computed := computed s @ [p]\<rparr>)"

definition submit_add :: "'ctx \<Rightarrow> ('ctx, 'w, 'r, 'e, 'p) supplier \<Rightarrow> nat option
    \<Rightarrow> ('ctx, 'w, 'r, 'e, 'p, 'tag) pool \<Rightarrow> ('ctx, 'w, 'r, 'e, 'p, 'tag) pool option" where
  "submit_add ctx sp c s =
     (let el = \<lparr>contextToRunFutureWith = ctx, underlyingFuture = length (futures s)\<rparr>
      in case fq_Add el (pqueue s) of
           (wk, q) \<Rightarrow>
             (case wake_workers wk c (workers s) of
                None \<Rightarrow> None
              | Some ws \<Rightarrow>
                  Some (s\<lparr>futures := futures s @ [NewDefaultComputingFuture sp], pqueue := q,
                    workers := ws, submitting := NoSubmit,
                    accepted := (if fq_ShuttingDown (pqueue s) then accepted s
                      else accepted s @ [length (cells (pqueue s))])\<rparr>)))"

text \<open>The goroutine that waits for the parent context and then shuts the queue down.\<close>

definition shutDownQueueIfNeeded :: "('ctx, 'w, 'r, 'e, 'p, 'tag) pool
    \<Rightarrow> ('ctx, 'w, 'r, 'e, 'p, 'tag) pool option" where
  "shutDownQueueIfNeeded s =
     (if ctxDone s
      then (case fq_ShutDown (pqueue s) of
          (wk, q) \<Rightarrow> map_option (\<lambda>ws. s\<lparr>pqueue := q, workers := ws\<rparr>)
            (wake_workers wk None (workers s)))
      else None)"

text \<open>
  The metrics client is only called when tags are configured; all that matters of it here is
  that it may panic.
\<close>

definition emits_metrics :: "'tag Config \<Rightarrow> bool" where
  "emits_metrics cfg \<longleftrightarrow> length (tags cfg) > 0"

datatype ('ctx, 'w, 'r, 'e, 'p) pact =
    PSubmit 'ctx "('ctx, 'w, 'r, 'e, 'p) supplier"  \<comment> \<open>lock, load \<open>numberFree\<close>\<close>
  | PCount | PLen | PStart | PEnqueue "nat option"
  | PPanic                                           \<comment> \<open>\<open>markWorkerCount\<close> panics in \<open>Submit\<close>\<close>
  | WGet nat | WDone nat "nat option" | WCompute nat | WFree nat
  | WPanic nat                                       \<comment> \<open>\<open>markQueueLength\<close> panics in the worker\<close>
  | PCancel | PClose | PEnv 'w

fun pexec :: "('ctx \<Rightarrow> 'p \<Rightarrow> 'w \<Rightarrow> 'e \<times> 'w) \<Rightarrow> 'r \<Rightarrow> ('ctx, 'w, 'r, 'e, 'p, 'tag) pool
    \<Rightarrow> ('ctx, 'w, 'r, 'e, 'p) pact \<Rightarrow> ('ctx, 'w, 'r, 'e, 'p, 'tag) pool option" where
  "pexec handle zero s (PSubmit ctx sp) =
     (if submitting s = NoSubmit then Some (s\<lparr>submitting := Loaded ctx sp (numberFree s)\<rparr>)
      else None)"
| "pexec handle zero s PCount =
     (case submitting s of
        Loaded ctx sp n \<Rightarrow>
          Some (s\<lparr>submitting := (case need_by_count (config s) n (totalCount s) of
              Some b \<Rightarrow> Decided ctx sp b | None \<Rightarrow> AskLen ctx sp n)\<rparr>)
      | _ \<Rightarrow> None)"
| "pexec handle zero s PLen =
     (case submitting s of
        AskLen ctx sp n \<Rightarrow>
          Some (s\<lparr>submitting := Decided ctx sp (need_by_length n (fq_Len (pqueue s)))\<rparr>)
      | _ \<Rightarrow> None)"
| "pexec handle zero s PStart =
     (case submitting s of
        Decided ctx sp b \<Rightarrow>
          Some ((if b then startWorkerAsync s else s)\<lparr>submitting := Ready ctx sp\<rparr>)
      | _ \<Rightarrow> None)"
| "pexec handle zero s PPanic =
     (case submitting s of
        Decided ctx sp b \<Rightarrow>
          (if b \<and> emits_metrics (config s)
           then Some ((startWorkerAsync s)\<lparr>submitting := NoSubmit\<rparr>) else None)
      | _ \<Rightarrow> None)"
| "pexec handle zero s (PEnqueue c) =
     (case submitting s of Ready ctx sp \<Rightarrow> submit_add ctx sp c s | _ \<Rightarrow> None)"
| "pexec handle zero s (WGet i) =
     (if i < length (workers s)
      then (case workers s ! i of
          WLoop b \<Rightarrow> Some (worker_get i b s) | WWoken b \<Rightarrow> Some (worker_get i b s) | _ \<Rightarrow> None)
      else None)"
| "pexec handle zero s (WDone i c) =
     (if i < length (workers s)
      then (case workers s ! i of
          WTaken p \<Rightarrow>
            (case fq_mark_done p (pqueue s) of
               (wk, q) \<Rightarrow> map_option (\<lambda>ws. s\<lparr>pqueue := q, workers := ws\<rparr>)
                  (wake_workers wk c ((workers s)[i := WRun p])))
        | _ \<Rightarrow> None)
      else None)"
| "pexec handle zero s (WCompute i) =
     (if i < length (workers s)
      then (case workers s ! i of WRun p \<Rightarrow> Some (worker_compute handle zero i p s) | _ \<Rightarrow> None)
      else None)"
| "pexec handle zero s (WFree i) =
     (if i < length (workers s) \<and> workers s ! i = WMark
      then Some (s\<lparr>numberFree := numberFree s + 1, workers := (workers s)[i := WLoop True]\<rparr>)
      else None)"
| "pexec handle zero s (WPanic i) =
     (if i < length (workers s) \<and> workers s ! i = WMark \<and> emits_metrics (config s)
      then Some (s\<lparr>workers := (workers s)[i := startWorker_next WDied (pqueue s)]\<rparr>) else None)"
| "pexec handle zero s PCancel = Some (s\<lparr>ctxDone := True\<rparr>)"
| "pexec handle zero s PClose =
     (if fq_ShuttingDown (pqueue s) then None else shutDownQueueIfNeeded s)"
| "pexec handle zero s (PEnv w) = Some (s\<lparr>world := w\<rparr>)"

text \<open>
  The options a client can pass are those the package makes; \<open>Config\<close> has no exported field.
\<close>

definition is_option :: "('tag Config \<Rightarrow> 'tag Config) \<Rightarrow> bool" where
  "is_option opt \<longleftrightarrow> (\<exists>m. opt = WithMaxNumberOfWorkers m) \<or> (\<exists>ts. opt = WithMetricTags ts)"

definition pinit :: "('ctx, 'w, 'r, 'e, 'p, 'tag) pool \<Rightarrow> bool" where
  "pinit s \<longleftrightarrow> (\<exists>opts w. (\<forall>opt \<in> set opts. is_option opt) \<and> s = NewDefaultSupplierWorkerPool opts w)"

section \<open>Workers and lists of workers\<close>

text \<open>A worker as the queue's condition variable sees it, and what it holds.\<close>

fun gor :: "worker \<Rightarrow> nat goroutine" where
  "gor (WParked _) = GetParked"
| "gor (WWoken _) = GetWoken"
| "gor (WTaken p) = Holds p"
| "gor _ = Outside"

fun has_task :: "worker \<Rightarrow> nat list" where
  "has_task (WTaken p) = [p]"
| "has_task (WRun p) = [p]"
| "has_task _ = []"

text \<open>Workers looking for work: those counted in \<open>numberFree\<close>, and those just started.\<close>

fun looking :: "bool \<Rightarrow> worker \<Rightarrow> bool" where
  "looking b (WLoop c) = (b = c)"
| "looking b (WParked c) = (b = c)"
| "looking b (WWoken c) = (b = c)"
| "looking b _ = False"

fun stopped :: "worker \<Rightarrow> bool" where
  "stopped (WStopped _) = True"
| "stopped _ = False"

text \<open>
  What \<open>numberFree\<close> counts: a worker that leaves its loop on a shutdown does not take itself
  out of the count.
\<close>

definition in_numberFree :: "worker \<Rightarrow> bool" where
  "in_numberFree g \<longleftrightarrow> looking True g \<or> g = WStopped True"

definition tasks_of :: "worker list \<Rightarrow> nat list" where
  "tasks_of ws = concat (map has_task ws)"

definition count_free :: "worker list \<Rightarrow> nat" where
  "count_free ws = length (filter in_numberFree ws)"

definition count_looking :: "bool \<Rightarrow> worker list \<Rightarrow> nat" where
  "count_looking b ws = length (filter (looking b) ws)"

lemma gor_awake: "gor (w_awake g) = awake (gor g)"
  by (cases g) simp_all

lemma parked_gor: "parked (gor g) = w_parked g"
  by (cases g) simp_all

lemma w_awake_simps [simp]:
  "has_task (w_awake g) = has_task g" "looking b (w_awake g) = looking b g"
  "stopped (w_awake g) = stopped g" "in_numberFree (w_awake g) = in_numberFree g" "w_awake g = WDied \<longleftrightarrow> g = WDied"
  by (cases g; simp add: in_numberFree_def)+

lemma wake_workers_gor:
  "wake_workers wk c ws = Some ws' \<Longrightarrow> wake_up wk c (map gor ws) = Some (map gor ws')"
  unfolding wake_workers_def by (erule wake_by_map) (simp_all add: parked_gor gor_awake)

lemma wake_workers_same:
  "wake_workers wk c ws = Some ws' \<Longrightarrow> (\<And>g. f (w_awake g) = f g) \<Longrightarrow> map f ws' = map f ws"
  unfolding wake_workers_def wake_by_def
  by (auto simp: map_update list_update_same_conv split: wake.splits option.splits if_splits)

lemma count_looking_map: "count_looking b ws = length (filter id (map (looking b) ws))"
  by (simp add: count_looking_def filter_map o_def)

lemma count_free_map: "count_free ws = length (filter id (map in_numberFree ws))"
  by (simp add: count_free_def filter_map o_def)

lemma wake_workers_frame:
  assumes "wake_workers wk c ws = Some ws'"
  shows "length ws' = length ws" "tasks_of ws' = tasks_of ws"
    "count_looking b ws' = count_looking b ws"
    "count_free ws' = count_free ws"
    "(\<exists>g \<in> set ws'. stopped g) \<longleftrightarrow> (\<exists>g \<in> set ws. stopped g)" "WDied \<in> set ws' \<longleftrightarrow> WDied \<in> set ws"
proof -
  note same = wake_workers_same [OF assms]
  show "length ws' = length ws"
    using assms unfolding wake_workers_def by (rule wake_by_length)
  show "tasks_of ws' = tasks_of ws" unfolding tasks_of_def using same [of has_task] by simp
  show "count_looking b ws' = count_looking b ws"
    unfolding count_looking_map using same [of "looking b"] by simp
  show "count_free ws' = count_free ws"
    unfolding count_free_map using same [of in_numberFree] by simp
  have "map stopped ws' = map stopped ws" by (rule same) simp
  then have "True \<in> set (map stopped ws') \<longleftrightarrow> True \<in> set (map stopped ws)"
    by (rule arg_cong)
  then show "(\<exists>g \<in> set ws'. stopped g) \<longleftrightarrow> (\<exists>g \<in> set ws. stopped g)" by auto
  have "map (\<lambda>g. g = WDied) ws' = map (\<lambda>g. g = WDied) ws" by (rule same) simp
  then have "True \<in> set (map (\<lambda>g. g = WDied) ws') \<longleftrightarrow> True \<in> set (map (\<lambda>g. g = WDied) ws)"
    by (rule arg_cong)
  then show "WDied \<in> set ws' \<longleftrightarrow> WDied \<in> set ws" by auto
qed

lemma wake_workers_enabled: "\<exists>c ws'. wake_workers Signal c ws = Some ws'"
proof (cases "list_ex w_parked ws")
  case True
  then obtain j where "j < length ws" "w_parked (ws ! j)" by (auto simp: list_ex_iff in_set_conv_nth)
  then show ?thesis
    by (intro exI [of _ "Some j"]) (simp add: wake_workers_def wake_by_def)
next
  case False
  then show ?thesis by (intro exI [of _ None]) (simp add: wake_workers_def wake_by_def)
qed

lemma wake_workers_NoWake: "wake_workers NoWake c ws = Some ws' \<longleftrightarrow> c = None \<and> ws' = ws"
  by (auto simp: wake_workers_def wake_by_def)

lemma wake_workers_Signal:
  assumes "wake_workers Signal c ws = Some ws'"
  obtains "ws' = ws" | j where "j < length ws" "w_parked (ws ! j)" "ws' = ws[j := w_awake (ws ! j)]"
proof (cases c)
  case None
  with assms have "ws' = ws" by (simp add: wake_workers_def wake_by_def split: if_splits)
  then show ?thesis by (rule that(1))
next
  case (Some j)
  with assms have "j < length ws" "w_parked (ws ! j)" "ws' = ws[j := w_awake (ws ! j)]"
    by (simp_all add: wake_workers_def wake_by_def split: if_splits)
  then show ?thesis by (rule that(2))
qed

lemma wake_workers_possible: "wk \<noteq> Broadcast \<Longrightarrow> \<exists>c ws'. wake_workers wk c ws = Some ws'"
  using wake_workers_enabled [of ws] by (cases wk) (auto simp: wake_workers_NoWake)

lemma tasks_of_update:
  "i < length ws \<Longrightarrow> mset (tasks_of (ws[i := g])) + mset (has_task (ws ! i)) =
     mset (tasks_of ws) + mset (has_task g)"
  unfolding tasks_of_def by (rule mset_concat_map_update)

lemma tasks_of_snoc [simp]: "tasks_of (ws @ [g]) = tasks_of ws @ has_task g"
  by (simp add: tasks_of_def)

lemma count_looking_update:
  "i < length ws \<Longrightarrow> count_looking b (ws[i := g]) + (if looking b (ws ! i) then 1 else 0) =
     count_looking b ws + (if looking b g then 1 else 0)"
  unfolding count_looking_def by (rule length_filter_update)

lemma count_looking_snoc [simp]:
  "count_looking b (ws @ [g]) = count_looking b ws + (if looking b g then 1 else 0)"
  by (simp add: count_looking_def)

lemma count_free_update:
  "i < length ws \<Longrightarrow> count_free (ws[i := g]) + (if in_numberFree (ws ! i) then 1 else 0) =
     count_free ws + (if in_numberFree g then 1 else 0)"
  unfolding count_free_def by (rule length_filter_update)

lemma count_free_snoc [simp]:
  "count_free (ws @ [g]) = count_free ws + (if in_numberFree g then 1 else 0)"
  by (simp add: count_free_def)

lemma in_numberFree_simps [simp]:
  "in_numberFree (WLoop b) = b" "in_numberFree (WParked b) = b" "in_numberFree (WWoken b) = b"
  "in_numberFree (WStopped b) = b" "\<not> in_numberFree (WTaken p)" "\<not> in_numberFree (WRun p)"
  "\<not> in_numberFree WMark" "\<not> in_numberFree WDied"
  by (auto simp: in_numberFree_def)

lemma map_gor_update: "gor g = gor (ws ! i) \<Longrightarrow> map gor (ws[i := g]) = map gor ws"
  by (cases "i < length ws") (simp_all add: map_update list_update_same_conv list_update_beyond)

section \<open>What the steps do\<close>

declare pexec.simps [simp del]

lemma worker_get_empty:
  "queue (delegate (pqueue s)) = [] \<Longrightarrow>
   worker_get i b s = s\<lparr>workers := (workers s)[i := if shuttingDown (delegate (pqueue s)) then WStopped b
     else WParked b]\<rparr>"
  by (simp add: worker_get_def fq_take_Nil startWorker_next_def fq_ShuttingDown_def
      cq_ShuttingDown_def)

lemma worker_get_item:
  "queue (delegate (pqueue s)) = p # ps \<Longrightarrow>
   worker_get i b s = s\<lparr>
     pqueue := (pqueue s)\<lparr>delegate := (delegate (pqueue s))\<lparr>queue := ps,
       processing := finsert p (processing (delegate (pqueue s))),
       dirty := dirty (delegate (pqueue s)) |-| {|p|}\<rparr>\<rparr>,
     numberFree := numberFree s - (if b then 1 else 0),
     workers := (workers s)[i := WTaken p], taken := taken s @ [p]\<rparr>"
  by (simp add: worker_get_def fq_take_Cons free_callback_def)

lemma worker_compute_fields [simp]:
  "config (worker_compute h z i p s) = config s" "pqueue (worker_compute h z i p s) = pqueue s"
  "numberFree (worker_compute h z i p s) = numberFree s"
  "totalCount (worker_compute h z i p s) = totalCount s"
  "submitting (worker_compute h z i p s) = submitting s"
  "ctxDone (worker_compute h z i p s) = ctxDone s"
  "workers (worker_compute h z i p s) = (workers s)[i := WMark]"
  "accepted (worker_compute h z i p s) = accepted s" "taken (worker_compute h z i p s) = taken s"
  "computed (worker_compute h z i p s) = computed s @ [p]"
  by (simp_all add: worker_compute_def Let_def split_beta)

lemma worker_compute_futures:
  assumes "f = underlyingFuture (cells (pqueue s) ! p)"
    and "ctx = contextToRunFutureWith (cells (pqueue s) ! p)"
  shows "futures (worker_compute h z i p s) =
    (futures s)[f := fst (snd (Compute h z ctx (futures s ! f) (world s)))]"
  by (simp add: worker_compute_def Let_def split_beta assms)

lemma pexec_WGet_cases:
  assumes "pexec handle zero s (WGet i) = Some t"
  obtains b where "i < length (workers s)" "workers s ! i = WLoop b \<or> workers s ! i = WWoken b"
    "t = worker_get i b s"
  using assms by (auto simp: pexec.simps split: if_splits worker.splits)

lemma pexec_WDone_cases:
  assumes "pexec handle zero s (WDone i c) = Some t"
  obtains p wk q ws where "i < length (workers s)" "workers s ! i = WTaken p"
    "fq_mark_done p (pqueue s) = (wk, q)" "wake_workers wk c ((workers s)[i := WRun p]) = Some ws"
    "t = s\<lparr>pqueue := q, workers := ws\<rparr>"
  using assms by (auto simp: pexec.simps split: if_splits worker.splits prod.splits)

lemma pexec_WCompute_cases:
  assumes "pexec handle zero s (WCompute i) = Some t"
  obtains p where "i < length (workers s)" "workers s ! i = WRun p"
    "t = worker_compute handle zero i p s"
  using assms by (auto simp: pexec.simps split: if_splits worker.splits)

lemma pexec_PEnqueue_cases:
  assumes "pexec handle zero s (PEnqueue c) = Some t"
  obtains ctx sp wk q ws where "submitting s = Ready ctx sp"
    "fq_Add \<lparr>contextToRunFutureWith = ctx, underlyingFuture = length (futures s)\<rparr> (pqueue s) = (wk, q)"
    "wake_workers wk c (workers s) = Some ws"
    "t = s\<lparr>futures := futures s @ [NewDefaultComputingFuture sp], pqueue := q,
        workers := ws, submitting := NoSubmit,
        accepted := (if fq_ShuttingDown (pqueue s) then accepted s
          else accepted s @ [length (cells (pqueue s))])\<rparr>"
  using assms
  by (auto simp: submit_add_def Let_def pexec.simps split: submission.splits prod.splits option.splits)

lemma pexec_PClose_cases:
  assumes "pexec handle zero s PClose = Some t"
  obtains "ctxDone s" "\<not> shuttingDown (delegate (pqueue s))"
    "t = s\<lparr>pqueue := snd (fq_ShutDown (pqueue s)), workers := map w_awake (workers s)\<rparr>"
  using assms
  by (auto simp: fq_ShutDown_def cq_ShutDown_def wake_workers_def wake_by_def fq_ShuttingDown_def
      cq_ShuttingDown_def pexec.simps shutDownQueueIfNeeded_def split: if_splits)

section \<open>The invariants\<close>

text \<open>
  The queue with the workers on its condition variable, as \<open>Queue_Threads\<close> sees them; the
  counters; the way of every task; the workers that have stopped.
\<close>

definition pool_queue_inv :: "('ctx, 'w, 'r, 'e, 'p, 'tag) pool \<Rightarrow> bool" where
  "pool_queue_inv s \<longleftrightarrow> fq_inv (pqueue s)
     \<and> q_inv \<lparr>q_of = delegate (pqueue s), gos = map gor (workers s)\<rparr>"

definition below_max :: "('ctx, 'w, 'r, 'e, 'p, 'tag) pool \<Rightarrow> bool" where
  "below_max s \<longleftrightarrow> (\<forall>m. maxNumberOfWorkers (config s) = Some m \<longrightarrow> int (length (workers s)) < m)"

definition pool_count_inv :: "('ctx, 'w, 'r, 'e, 'p, 'tag) pool \<Rightarrow> bool" where
  "pool_count_inv s \<longleftrightarrow>
     numberFree s = int (count_free (workers s))
     \<and> totalCount s = int (length (workers s))
     \<and> (\<forall>m. maxNumberOfWorkers (config s) = Some m \<longrightarrow> 1 \<le> m \<and> int (length (workers s)) \<le> m)
     \<and> (accepted s \<noteq> [] \<longrightarrow> workers s \<noteq> [])
     \<and> (case submitting s of
          NoSubmit \<Rightarrow> True
        | Loaded _ _ n \<Rightarrow> 0 \<le> n \<and> (n \<noteq> 0 \<longrightarrow> workers s \<noteq> [])
        | AskLen _ _ n \<Rightarrow> workers s \<noteq> [] \<and> below_max s
        | Decided _ _ b \<Rightarrow> (if b then below_max s else workers s \<noteq> [])
        | Ready _ _ \<Rightarrow> workers s \<noteq> [])"

definition pool_task_inv :: "('ctx, 'w, 'r, 'e, 'p, 'tag) pool \<Rightarrow> bool" where
  "pool_task_inv s \<longleftrightarrow>
     length (cells (pqueue s)) = length (futures s)
     \<and> (\<forall>p < length (cells (pqueue s)). underlyingFuture (cells (pqueue s) ! p) = p)
     \<and> accepted s = taken s @ queue (delegate (pqueue s))
     \<and> mset (taken s) = mset (tasks_of (workers s)) + mset (computed s)
     \<and> distinct (accepted s) \<and> (\<forall>p \<in> set (accepted s). p < length (futures s))
     \<and> (\<forall>p < length (futures s). computationResult (futures s ! p) \<noteq> None \<longleftrightarrow> p \<in> set (computed s))"

definition pool_stop_inv :: "('ctx, 'w, 'r, 'e, 'p, 'tag) pool \<Rightarrow> bool" where
  "pool_stop_inv s \<longleftrightarrow>
     ((\<exists>g \<in> set (workers s). stopped g) \<longrightarrow>
        shuttingDown (delegate (pqueue s)) \<and> queue (delegate (pqueue s)) = [])
     \<and> (WDied \<in> set (workers s) \<longrightarrow> shuttingDown (delegate (pqueue s)) \<and> tags (config s) \<noteq> [])
     \<and> (shuttingDown (delegate (pqueue s)) \<longrightarrow> ctxDone s)"

definition p_inv :: "('ctx, 'w, 'r, 'e, 'p, 'tag) pool \<Rightarrow> bool" where
  "p_inv s \<longleftrightarrow> pool_queue_inv s \<and> pool_count_inv s \<and> pool_task_inv s \<and> pool_stop_inv s"

subsection \<open>The queue\<close>

lemma q_inv_grow:
  "q_inv \<lparr>q_of = q, gos = gs\<rparr> \<Longrightarrow> q_inv \<lparr>q_of = q, gos = gs @ [Outside]\<rparr>"
  by (auto simp: q_inv_def held_items_def count_woken_def)

lemma fq_mark_done_wake:
  "fq_mark_done p q = (wk, q') \<Longrightarrow> cq_Done p (delegate q) = (wk, delegate q') \<and> cells q' = cells q"
  by (auto simp: fq_mark_done_def split: prod.splits)

lemma fq_Add_wake:
  "fq_Add v q = (wk, q') \<Longrightarrow> cq_Add (length (cells q)) (delegate q) = (wk, delegate q')
     \<and> cells q' = cells q @ [v]"
  by (auto simp: fq_Add_def Let_def split: prod.splits)

lemma pool_queue_WTaken:
  assumes "pool_queue_inv s" and "i < length (workers s)" and "workers s ! i = WTaken p"
  shows "p |\<in>| processing (delegate (pqueue s))"
proof -
  have "WTaken p \<in> set (workers s)" using assms(2,3) by (metis nth_mem)
  then have "p \<in> set (held_items (map gor (workers s)))"
    unfolding held_items_def by (auto intro!: bexI [of _ "WTaken p"])
  then have "p \<in># mset (held_items (map gor (workers s)))" by simp
  with assms(1) show ?thesis by (simp add: pool_queue_inv_def q_inv_def)
qed

lemma pool_queue_update:
  assumes "pool_queue_inv s" and "gor g = gor (workers s ! i)"
  shows "pool_queue_inv (s\<lparr>workers := (workers s)[i := g]\<rparr>)"
  using assms by (simp add: pool_queue_inv_def map_gor_update)

lemma pool_queue_get:
  assumes "pool_queue_inv s" and "i < length (workers s)"
    and "workers s ! i = WLoop b \<or> workers s ! i = WWoken b"
  shows "pool_queue_inv (worker_get i b s)"
proof -
  let ?q = "delegate (pqueue s)" and ?gs = "map gor (workers s)"
  have i: "i < length ?gs" "?gs ! i = Outside \<or> ?gs ! i = GetWoken" using assms(2,3) by auto
  have inv: "q_inv \<lparr>q_of = ?q, gos = ?gs\<rparr>" "fq_inv (pqueue s)"
    using assms(1) by (auto simp: pool_queue_inv_def)
  show ?thesis
  proof (cases "queue ?q")
    case Nil
    then have "cq_Get ?q = (if shuttingDown ?q then ShutDownSeen else Waits, ?q)"
      by (simp add: cq_Get_Nil_Get)
    from q_inv_get [OF inv(1) i this] inv(2) Nil show ?thesis
      by (simp add: pool_queue_inv_def worker_get_empty map_update split: if_splits)
  next
    case (Cons p ps)
    from q_inv_get [OF inv(1) i cq_Get_Cons_Get [OF Cons]]
      fq_inv_take [OF inv(2) fq_take_Cons [OF Cons, of None "()"]]
    show ?thesis
      by (simp add: pool_queue_inv_def worker_get_item [OF Cons] map_update)
  qed
qed

lemma cq_no_Broadcast: "fst (cq_Add x q) \<noteq> Broadcast" "fst (cq_Done x q) \<noteq> Broadcast"
  by (simp_all add: cq_Add_def cq_Done_def Let_def)

text \<open>Marking a task done does not touch what waits in the queue, and wakes at most one worker.\<close>

lemma WDone_frame:
  assumes q: "pool_queue_inv s" and step: "pexec handle zero s (WDone i c) = Some t"
  obtains p wk q' ws where "i < length (workers s)" "workers s ! i = WTaken p"
    "wake_workers wk c ((workers s)[i := WRun p]) = Some ws" "wk \<noteq> Broadcast"
    "t = s\<lparr>pqueue := q', workers := ws\<rparr>" "queue (delegate q') = queue (delegate (pqueue s))"
    "shuttingDown (delegate q') = shuttingDown (delegate (pqueue s))" "cells q' = cells (pqueue s)"
proof -
  from step obtain p wk q' ws where st: "i < length (workers s)" "workers s ! i = WTaken p"
    "fq_mark_done p (pqueue s) = (wk, q')" "wake_workers wk c ((workers s)[i := WRun p]) = Some ws"
    "t = s\<lparr>pqueue := q', workers := ws\<rparr>" by (rule pexec_WDone_cases)
  note d = fq_mark_done_wake [OF st(3)]
  from pool_queue_WTaken [OF q st(1,2)] q have "p |\<notin>| dirty (delegate (pqueue s))"
    by (auto simp: pool_queue_inv_def fq_inv_def)
  then have "queue (delegate q') = queue (delegate (pqueue s))"
    using d cq_Done_queue [of p "delegate (pqueue s)"] by simp
  moreover have "shuttingDown (delegate q') = shuttingDown (delegate (pqueue s))"
    using d cq_Done_frame(2) [of p "delegate (pqueue s)"] by simp
  moreover have "wk \<noteq> Broadcast" using d cq_no_Broadcast(2) [of p "delegate (pqueue s)"] by auto
  ultimately show ?thesis using that st(1,2,4,5) d by blast
qed

lemma pool_queue_done:
  assumes "pool_queue_inv s" and "pexec handle zero s (WDone i c) = Some t"
  shows "pool_queue_inv t"
proof -
  from assms(2) obtain p wk q ws where st: "i < length (workers s)" "workers s ! i = WTaken p"
    "fq_mark_done p (pqueue s) = (wk, q)" "wake_workers wk c ((workers s)[i := WRun p]) = Some ws"
    "t = s\<lparr>pqueue := q, workers := ws\<rparr>" by (rule pexec_WDone_cases)
  note d = fq_mark_done_wake [OF st(3)]
  have "fq_inv q"
    using fq_inv_mark_done [of "pqueue s" p] pool_queue_WTaken [OF assms(1) st(1,2)] assms(1) st(3)
    by (simp add: pool_queue_inv_def)
  moreover have "q_inv \<lparr>q_of = delegate q, gos = map gor ws\<rparr>"
    using assms(1) st(1,2) d wake_workers_gor [OF st(4)]
    q_inv_finish [of "delegate (pqueue s)" "map gor (workers s)" i p wk "delegate q" c "map gor ws"]
    by (simp add: pool_queue_inv_def map_update)
  ultimately show ?thesis by (simp add: pool_queue_inv_def st(5))
qed

lemma pool_queue_enqueue:
  assumes "pool_queue_inv s" and "pexec handle zero s (PEnqueue c) = Some t"
  shows "pool_queue_inv t"
proof -
  from assms(2) obtain ctx sp wk q ws where st:
    "fq_Add \<lparr>contextToRunFutureWith = ctx, underlyingFuture = length (futures s)\<rparr> (pqueue s) = (wk, q)"
    "wake_workers wk c (workers s) = Some ws" and t: "pqueue t = q" "workers t = ws"
    by (auto elim!: pexec_PEnqueue_cases)
  have "fq_inv q" using fq_inv_Add [of "pqueue s"] assms(1) st(1)
    by (metis pool_queue_inv_def snd_conv)
  moreover have "q_inv \<lparr>q_of = delegate q, gos = map gor ws\<rparr>"
    using assms(1) fq_Add_wake [OF st(1)] wake_workers_gor [OF st(2)]
    by (auto simp: pool_queue_inv_def intro: q_inv_add)
  ultimately show ?thesis by (simp add: pool_queue_inv_def t)
qed

lemma pool_queue_close:
  assumes "pool_queue_inv s" and "pexec handle zero s PClose = Some t"
  shows "pool_queue_inv t"
proof -
  have t: "pqueue t = snd (fq_ShutDown (pqueue s))" "workers t = map w_awake (workers s)"
    using assms(2) by (auto elim!: pexec_PClose_cases)
  have "map gor (workers t) = map awake (map gor (workers s))" by (simp add: t gor_awake)
  moreover have "q_inv \<lparr>q_of = delegate (pqueue t), gos = map awake (map gor (workers s))\<rparr>"
    using assms(1) by (intro q_inv_broadcast [where b = False]) (auto simp: pool_queue_inv_def t cq_ShutDown_def)
  ultimately show ?thesis
    using assms(1) by (simp add: pool_queue_inv_def t(1) fq_inv_ShutDown)
qed

lemma pool_queue_step:
  assumes "pool_queue_inv s" and "pexec handle zero s a = Some t"
  shows "pool_queue_inv t"
proof (cases a)
  case (WGet i)
  with assms show ?thesis by (auto elim!: pexec_WGet_cases intro: pool_queue_get)
next
  case (WDone i c)
  with assms show ?thesis by (auto intro: pool_queue_done)
next
  case (PEnqueue c)
  with assms show ?thesis by (auto intro: pool_queue_enqueue)
next
  case PClose
  with assms show ?thesis by (auto intro: pool_queue_close)
next
  case PStart
  with assms show ?thesis
    by (auto simp: pexec.simps startWorkerAsync_def pool_queue_inv_def q_inv_grow split: submission.splits)
next
  case PPanic
  with assms show ?thesis
    by (auto simp: pexec.simps startWorkerAsync_def pool_queue_inv_def q_inv_grow
        split: submission.splits if_splits)
next
  case (WCompute i)
  with assms(2) obtain p where "workers s ! i = WRun p" "t = worker_compute handle zero i p s"
    by (auto elim: pexec_WCompute_cases)
  with assms(1) show ?thesis
    by (simp add: pool_queue_inv_def map_gor_update)
next
  case (WFree i)
  with assms show ?thesis
    by (auto simp: pexec.simps pool_queue_inv_def map_gor_update split: if_splits)
next
  case (WPanic i)
  with assms show ?thesis
    by (auto simp: pexec.simps pool_queue_inv_def map_gor_update startWorker_next_def split: if_splits)
qed (use assms in \<open>auto simp: pexec.simps pool_queue_inv_def split: submission.splits if_splits\<close>)

subsection \<open>The counters\<close>

lemma below_max_need:
  "need_by_count (config s) n (totalCount s) = r \<Longrightarrow> r \<noteq> Some False \<Longrightarrow>
   totalCount s = int (length (workers s)) \<Longrightarrow> below_max s"
  by (auto simp: need_by_count_def below_max_def split: option.splits if_splits)

lemma need_by_count_False:
  "need_by_count cfg n tot = Some False \<longleftrightarrow>
     (\<exists>m. maxNumberOfWorkers cfg = Some m \<and> m \<le> tot)"
  by (auto simp: need_by_count_def split: option.splits)

lemma need_by_count_None:
  "need_by_count cfg n tot = None \<Longrightarrow> n \<noteq> 0"
  by (auto simp: need_by_count_def split: if_splits)

lemma pool_count_workers:
  assumes "pool_count_inv s" and "length ws = length (workers s)"
    and "numberFree s + int (count_free ws) = n + int (count_free (workers s))"
  shows "pool_count_inv (s\<lparr>numberFree := n, workers := ws\<rparr>)"
proof -
  have "ws = [] \<longleftrightarrow> workers s = []" using assms(2) by (metis length_0_conv)
  with assms show ?thesis
    by (auto simp: pool_count_inv_def below_max_def split: submission.split)
qed

lemma pool_count_frame:
  "pool_count_inv s \<Longrightarrow> config t = config s \<Longrightarrow> numberFree t = numberFree s \<Longrightarrow>
   totalCount t = totalCount s \<Longrightarrow> accepted t = accepted s \<Longrightarrow> submitting t = submitting s \<Longrightarrow>
   workers t = workers s \<Longrightarrow> pool_count_inv t"
  by (cases "submitting s") (auto simp: pool_count_inv_def below_max_def split: if_splits)

lemma pool_count_submit:
  assumes inv: "pool_count_inv s"
  shows "pexec handle zero s (PSubmit ctx sp) = Some t \<Longrightarrow> pool_count_inv t"
    and "pexec handle zero s PCount = Some t \<Longrightarrow> pool_count_inv t"
    and "pexec handle zero s PLen = Some t \<Longrightarrow> pool_count_inv t"
    and "pexec handle zero s PStart = Some t \<Longrightarrow> pool_count_inv t"
    and "pexec handle zero s PPanic = Some t \<Longrightarrow> pool_count_inv t"
proof -
  show "pexec handle zero s (PSubmit ctx sp) = Some t \<Longrightarrow> pool_count_inv t"
    using inv
    by (auto simp: pexec.simps pool_count_inv_def below_max_def count_free_def split: if_splits)
next
  assume step: "pexec handle zero s PCount = Some t"
  then obtain c g n where sub: "submitting s = Loaded c g n" by (auto simp: pexec.simps split: submission.splits)
  show "pool_count_inv t"
  proof (cases "need_by_count (config s) n (totalCount s)")
    case None
    with step sub inv below_max_need [OF None] need_by_count_None [OF None] show ?thesis
      by (auto simp: pexec.simps pool_count_inv_def below_max_def)
  next
    case (Some b)
    show ?thesis
    proof (cases b)
      case True
      with step sub inv Some below_max_need [OF Some] show ?thesis
        by (auto simp: pexec.simps pool_count_inv_def below_max_def)
    next
      case False
      with step sub inv Some show ?thesis
        by (auto simp: pexec.simps pool_count_inv_def below_max_def need_by_count_False)
    qed
  qed
next
  assume "pexec handle zero s PLen = Some t"
  with inv show "pool_count_inv t"
    by (auto simp: pexec.simps pool_count_inv_def below_max_def split: submission.splits)
next
  assume "pexec handle zero s PStart = Some t"
  with inv show "pool_count_inv t"
    by (auto simp: pexec.simps pool_count_inv_def below_max_def startWorkerAsync_def
        split: submission.splits if_splits)
next
  assume "pexec handle zero s PPanic = Some t"
  with inv show "pool_count_inv t"
    by (auto simp: pexec.simps pool_count_inv_def below_max_def startWorkerAsync_def
        split: submission.splits if_splits)
qed

lemma pool_count_get:
  assumes inv: "pool_count_inv s" and i: "i < length (workers s)"
    and g: "workers s ! i = WLoop b \<or> workers s ! i = WWoken b"
  shows "pool_count_inv (worker_get i b s)"
proof (cases "queue (delegate (pqueue s))")
  case Nil
  let ?g = "if shuttingDown (delegate (pqueue s)) then WStopped b else WParked b"
  have "pool_count_inv (s\<lparr>numberFree := numberFree s, workers := (workers s)[i := ?g]\<rparr>)"
    using count_free_update [OF i, of ?g] g
    by (intro pool_count_workers [OF inv]) auto
  with Nil show ?thesis by (simp add: worker_get_empty)
next
  case (Cons p ps)
  have "pool_count_inv (s\<lparr>numberFree := numberFree s - (if b then 1 else 0),
      workers := (workers s)[i := WTaken p]\<rparr>)"
    using count_free_update [OF i, of "WTaken p"] g
    by (intro pool_count_workers [OF inv]) (auto split: if_splits)
  with Cons show ?thesis
    by (auto simp: worker_get_item elim!: pool_count_frame)
qed

lemma pool_count_done:
  assumes inv: "pool_count_inv s" and step: "pexec handle zero s (WDone i c) = Some t"
  shows "pool_count_inv t"
proof -
  from step obtain p wk q ws where st: "i < length (workers s)" "workers s ! i = WTaken p"
    "wake_workers wk c ((workers s)[i := WRun p]) = Some ws"
    "t = s\<lparr>pqueue := q, workers := ws\<rparr>" by (rule pexec_WDone_cases)
  have "pool_count_inv (s\<lparr>numberFree := numberFree s, workers := ws\<rparr>)"
    using wake_workers_frame [OF st(3)] count_free_update [OF st(1), of "WRun p"] st(2)
    by (intro pool_count_workers [OF inv]) auto
  then show ?thesis by (rule pool_count_frame) (simp_all add: st(4))
qed

lemma pool_count_enqueue:
  assumes inv: "pool_count_inv s" and step: "pexec handle zero s (PEnqueue c) = Some t"
  shows "pool_count_inv t"
proof -
  from step obtain ctx sp wk ws where st: "submitting s = Ready ctx sp"
    "wake_workers wk c (workers s) = Some ws" and t: "workers t = ws" "config t = config s"
    "numberFree t = numberFree s" "totalCount t = totalCount s" "submitting t = NoSubmit"
    by (auto elim!: pexec_PEnqueue_cases)
  from inv st(1) have "workers s \<noteq> []" by (simp add: pool_count_inv_def)
  moreover note wake_workers_frame [OF st(2)]
  ultimately show ?thesis
    using inv by (auto simp: pool_count_inv_def t)
qed

lemma pool_count_close:
  assumes inv: "pool_count_inv s" and step: "pexec handle zero s PClose = Some t"
  shows "pool_count_inv t"
proof -
  have t: "t = s\<lparr>pqueue := snd (fq_ShutDown (pqueue s)), workers := map w_awake (workers s)\<rparr>"
    using step by (auto elim!: pexec_PClose_cases)
  have "wake_workers Broadcast None (workers s) = Some (map w_awake (workers s))"
    by (simp add: wake_workers_def wake_by_def)
  note f = wake_workers_frame [OF this]
  have "pool_count_inv (s\<lparr>numberFree := numberFree s, workers := map w_awake (workers s)\<rparr>)"
    using f by (intro pool_count_workers [OF inv]) auto
  then show ?thesis by (rule pool_count_frame) (simp_all add: t)
qed

lemma pool_count_one:
  assumes inv: "pool_count_inv s" and i: "i < length (workers s)"
    and n: "n = numberFree s + (if in_numberFree g then 1 else 0)
      - (if in_numberFree (workers s ! i) then 1 else 0)"
  shows "pool_count_inv (s\<lparr>numberFree := n, workers := (workers s)[i := g]\<rparr>)"
  using count_free_update [OF i, of g] n
  by (intro pool_count_workers [OF inv]) (auto split: if_splits)

lemma pool_count_step:
  assumes inv: "pool_count_inv s" and step: "pexec handle zero s a = Some t"
  shows "pool_count_inv t"
proof (cases a)
  case (WGet i)
  with assms show ?thesis by (auto elim!: pexec_WGet_cases intro: pool_count_get)
next
  case (WCompute i)
  with step obtain p where p: "i < length (workers s)" "workers s ! i = WRun p"
    "t = worker_compute handle zero i p s" by (auto elim: pexec_WCompute_cases)
  have "pool_count_inv (s\<lparr>numberFree := numberFree s, workers := (workers s)[i := WMark]\<rparr>)"
    using p by (intro pool_count_one [OF inv]) auto
  then show ?thesis by (rule pool_count_frame) (simp_all add: p(3))
next
  case (WFree i)
  then have p: "i < length (workers s)" "workers s ! i = WMark"
    and t: "t = s\<lparr>numberFree := numberFree s + 1, workers := (workers s)[i := WLoop True]\<rparr>"
    using step by (auto simp: pexec.simps split: if_splits)
  show ?thesis unfolding t using p by (intro pool_count_one [OF inv]) auto
next
  case (WPanic i)
  then have p: "i < length (workers s)" "workers s ! i = WMark"
    and t: "t = s\<lparr>workers := (workers s)[i := startWorker_next WDied (pqueue s)]\<rparr>"
    using step by (auto simp: pexec.simps split: if_splits)
  have "pool_count_inv (s\<lparr>numberFree := numberFree s,
      workers := (workers s)[i := startWorker_next WDied (pqueue s)]\<rparr>)"
    using p by (intro pool_count_one [OF inv]) (auto simp: startWorker_next_def)
  then show ?thesis by (rule pool_count_frame) (simp_all add: t)
next
  case PCancel
  with inv step show ?thesis by (auto simp: pexec.simps elim!: pool_count_frame)
next
  case (PEnv w)
  with inv step show ?thesis by (auto simp: pexec.simps elim!: pool_count_frame)
qed (use assms in \<open>auto intro: pool_count_submit pool_count_done pool_count_enqueue pool_count_close\<close>)

subsection \<open>The tasks\<close>

lemma pool_task_frame:
  "pool_task_inv s \<Longrightarrow> cells (pqueue t) = cells (pqueue s) \<Longrightarrow>
   queue (delegate (pqueue t)) = queue (delegate (pqueue s)) \<Longrightarrow> futures t = futures s \<Longrightarrow>
   accepted t = accepted s \<Longrightarrow> taken t = taken s \<Longrightarrow> computed t = computed s \<Longrightarrow>
   mset (tasks_of (workers t)) = mset (tasks_of (workers s)) \<Longrightarrow> pool_task_inv t"
  unfolding pool_task_inv_def by metis

lemma tasks_of_update_same:
  "i < length ws \<Longrightarrow> has_task g = has_task (ws ! i) \<Longrightarrow>
   mset (tasks_of (ws[i := g])) = mset (tasks_of ws)"
  using tasks_of_update [of i ws g] by simp

lemma pool_task_get:
  assumes inv: "pool_task_inv s" and i: "i < length (workers s)"
    and g: "workers s ! i = WLoop b \<or> workers s ! i = WWoken b"
  shows "pool_task_inv (worker_get i b s)"
proof (cases "queue (delegate (pqueue s))")
  case Nil
  with i g show ?thesis
    by (intro pool_task_frame [OF inv])
      (auto simp: worker_get_empty intro!: tasks_of_update_same)
next
  case (Cons p ps)
  have "mset (tasks_of ((workers s)[i := WTaken p])) = mset (tasks_of (workers s)) + {#p#}"
    using tasks_of_update [OF i, of "WTaken p"] g by auto
  with inv Cons show ?thesis by (auto simp: worker_get_item pool_task_inv_def)
qed

lemma pool_task_done:
  assumes inv: "pool_task_inv s" and q: "pool_queue_inv s"
    and step: "pexec handle zero s (WDone i c) = Some t"
  shows "pool_task_inv t"
proof -
  from WDone_frame [OF q step] obtain p wk q' ws where st: "i < length (workers s)" "workers s ! i = WTaken p"
    "wake_workers wk c ((workers s)[i := WRun p]) = Some ws" "wk \<noteq> Broadcast"
    and t: "t = s\<lparr>pqueue := q', workers := ws\<rparr>" "queue (delegate q') = queue (delegate (pqueue s))"
      "cells q' = cells (pqueue s)" by metis
  moreover have "mset (tasks_of ws) = mset (tasks_of (workers s))"
    using wake_workers_frame [OF st(3)] tasks_of_update_same [OF st(1), of "WRun p"] st(2) by simp
  ultimately show ?thesis by (intro pool_task_frame [OF inv]) simp_all
qed

lemma pool_task_WRun:
  assumes inv: "pool_task_inv s" and "i < length (workers s)" and "has_task (workers s ! i) = [p]"
  shows "p \<in> set (taken s)" "p < length (futures s)" "underlyingFuture (cells (pqueue s) ! p) = p"
    "p \<notin> set (computed s)"
proof -
  have "p \<in># mset (tasks_of (workers s))"
    using assms(2,3) by (auto simp: tasks_of_def intro!: bexI [of _ "workers s ! i"])
  moreover have m: "mset (taken s) = mset (tasks_of (workers s)) + mset (computed s)"
    using inv by (simp add: pool_task_inv_def)
  ultimately have "p \<in># mset (taken s)" by simp
  then show taken: "p \<in> set (taken s)" by simp
  with inv show "p < length (futures s)" "underlyingFuture (cells (pqueue s) ! p) = p"
    by (auto simp: pool_task_inv_def)
  have "distinct (taken s)" using inv by (auto simp: pool_task_inv_def)
  then have "count (mset (taken s)) p \<le> 1" by (simp add: distinct_count_atmost_1 split: if_splits)
  moreover have "0 < count (mset (tasks_of (workers s))) p"
    using \<open>p \<in># mset (tasks_of (workers s))\<close> by (simp only: count_greater_zero_iff)
  moreover have "count (mset (taken s)) p
      = count (mset (tasks_of (workers s))) p + count (mset (computed s)) p"
    by (simp only: m count_union)
  ultimately have "count (mset (computed s)) p = 0" by linarith
  then show "p \<notin> set (computed s)" by (metis count_eq_zero_iff set_mset_mset)
qed

lemma pool_task_compute:
  assumes inv: "pool_task_inv s" and i: "i < length (workers s)" and g: "workers s ! i = WRun p"
  shows "pool_task_inv (worker_compute handle zero i p s)"
proof -
  have p: "p \<in> set (taken s)" "p < length (futures s)" "underlyingFuture (cells (pqueue s) ! p) = p"
    using pool_task_WRun [OF inv i, of p] g by auto
  note futs = worker_compute_futures [OF p(3) [symmetric] refl, of handle zero i]
  have m: "mset (taken s) = mset (tasks_of ((workers s)[i := WMark])) + mset (computed s @ [p])"
    using tasks_of_update [OF i, of WMark] g inv by (simp add: pool_task_inv_def)
  have c: "\<forall>k < length (futures s). computationResult (futures (worker_compute handle zero i p s) ! k) \<noteq> None
      \<longleftrightarrow> k \<in> set (computed s @ [p])"
    using inv Compute_sets by (auto simp: pool_task_inv_def futs nth_update)
  show ?thesis
    using inv m c by (auto simp: pool_task_inv_def futs)
qed

lemma pool_task_enqueue:
  assumes inv: "pool_task_inv s" and q: "pool_queue_inv s"
    and step: "pexec handle zero s (PEnqueue c) = Some t"
  shows "pool_task_inv t"
proof -
  from step obtain ctx sp wk q' ws where
    add: "fq_Add \<lparr>contextToRunFutureWith = ctx, underlyingFuture = length (futures s)\<rparr> (pqueue s) = (wk, q')"
    and ws: "wake_workers wk c (workers s) = Some ws"
    and t: "pqueue t = q'" "workers t = ws" "taken t = taken s" "computed t = computed s"
      "futures t = futures s @ [NewDefaultComputingFuture sp]"
      "accepted t = (if fq_ShuttingDown (pqueue s) then accepted s
        else accepted s @ [length (cells (pqueue s))])"
    by (auto elim!: pexec_PEnqueue_cases)
  let ?n = "length (cells (pqueue s))"
  have fresh: "?n |\<notin>| dirty (delegate (pqueue s))" "?n |\<notin>| processing (delegate (pqueue s))"
    using fq_Add_fresh q by (auto simp: pool_queue_inv_def)
  have "queue (delegate q') = (if fq_ShuttingDown (pqueue s) then queue (delegate (pqueue s))
      else queue (delegate (pqueue s)) @ [?n])"
    using fq_Add_wake [OF add] cq_Add_queue [of ?n "delegate (pqueue s)"] fresh
    by (simp add: fq_ShuttingDown_def cq_ShuttingDown_def)
  moreover have "tasks_of ws = tasks_of (workers s)" using wake_workers_frame [OF ws] by simp
  moreover have "set (computed s) \<subseteq> set (taken s)"
    using inv by (metis mset_subset_eq_add_right pool_task_inv_def set_mset_mono set_mset_mset)
  moreover have acc: "set (taken s) \<subseteq> set (accepted s)" "\<forall>k \<in> set (accepted s). k < ?n"
    and n: "?n = length (futures s)"
    using inv by (auto simp: pool_task_inv_def)
  moreover have "length (futures s) \<notin> set (computed s)"
    using calculation(3) acc n by auto
  ultimately show ?thesis
    using inv fq_Add_wake [OF add]
    by (auto simp: pool_task_inv_def t nth_append less_Suc_eq NewDefaultComputingFuture_def)
qed

lemma pool_task_one:
  assumes inv: "pool_task_inv s" and i: "i < length (workers s)"
    and g: "has_task g = has_task (workers s ! i)"
  shows "pool_task_inv (s\<lparr>numberFree := n, workers := (workers s)[i := g]\<rparr>)"
  using tasks_of_update_same [OF i g] by (intro pool_task_frame [OF inv]) simp_all

lemma pool_task_step:
  assumes inv: "pool_task_inv s" and q: "pool_queue_inv s"
    and step: "pexec handle zero s a = Some t"
  shows "pool_task_inv t"
proof (cases a)
  case (WGet i)
  with assms show ?thesis by (auto elim!: pexec_WGet_cases intro: pool_task_get)
next
  case (WCompute i)
  with assms show ?thesis by (auto elim!: pexec_WCompute_cases intro: pool_task_compute)
next
  case (WFree i)
  with step show ?thesis
    by (auto simp: pexec.simps split: if_splits intro!: pool_task_frame [OF inv] tasks_of_update_same)
next
  case (WPanic i)
  with step show ?thesis
    by (auto simp: pexec.simps startWorker_next_def split: if_splits
        intro!: pool_task_frame [OF inv] tasks_of_update_same)
next
  case PStart
  with step show ?thesis
    by (auto simp: pexec.simps startWorkerAsync_def split: submission.splits if_splits
        intro!: pool_task_frame [OF inv])
next
  case PPanic
  with step show ?thesis
    by (auto simp: pexec.simps startWorkerAsync_def split: submission.splits if_splits
        intro!: pool_task_frame [OF inv])
next
  case PClose
  have "tasks_of (map w_awake (workers s)) = tasks_of (workers s)"
    by (simp add: tasks_of_def o_def)
  with PClose step show ?thesis
    by (auto elim!: pexec_PClose_cases intro!: pool_task_frame [OF inv]) (simp add: cq_ShutDown_def)
next
  case (WDone i c)
  with assms show ?thesis by (auto intro: pool_task_done)
next
  case (PEnqueue c)
  with assms show ?thesis by (auto intro: pool_task_enqueue)
qed (use step in \<open>auto simp: pexec.simps split: submission.splits if_splits
       intro!: pool_task_frame [OF inv]\<close>)

subsection \<open>Stopped workers\<close>

lemma pool_stop_frame:
  assumes "pool_stop_inv s" and "config t = config s"
    and "shuttingDown (delegate (pqueue t)) = shuttingDown (delegate (pqueue s))"
    and "queue (delegate (pqueue s)) = [] \<and> shuttingDown (delegate (pqueue s))
      \<longrightarrow> queue (delegate (pqueue t)) = []"
    and "ctxDone s \<longrightarrow> ctxDone t"
    and "\<And>g. g \<in> set (workers t) \<Longrightarrow> stopped g \<Longrightarrow> \<exists>h \<in> set (workers s). stopped h"
    and "WDied \<in> set (workers t) \<Longrightarrow> WDied \<in> set (workers s)"
  shows "pool_stop_inv t"
  using assms by (auto simp: pool_stop_inv_def)

lemma pool_stop_get:
  assumes inv: "pool_stop_inv s" and i: "i < length (workers s)"
  shows "pool_stop_inv (worker_get i b s)"
proof (cases "queue (delegate (pqueue s))")
  case Nil
  with inv show ?thesis
    by (auto simp: worker_get_empty pool_stop_inv_def dest!: in_set_update split: if_splits)
next
  case (Cons p ps)
  with inv show ?thesis
    by (auto simp: worker_get_item pool_stop_inv_def dest!: in_set_update)
qed

lemma pool_stop_done:
  assumes inv: "pool_stop_inv s" and q: "pool_queue_inv s" and step: "pexec handle zero s (WDone i c) = Some t"
  shows "pool_stop_inv t"
proof -
  from WDone_frame [OF q step] obtain p wk q' ws where
    ws: "wake_workers wk c ((workers s)[i := WRun p]) = Some ws" and t: "t = s\<lparr>pqueue := q', workers := ws\<rparr>"
      "queue (delegate q') = queue (delegate (pqueue s))"
      "shuttingDown (delegate q') = shuttingDown (delegate (pqueue s))" by metis
  with wake_workers_frame(5,6) [OF ws] show ?thesis
    by (intro pool_stop_frame [OF inv]) (auto dest!: in_set_update)
qed

lemma pool_stop_enqueue:
  assumes inv: "pool_stop_inv s" and step: "pexec handle zero s (PEnqueue c) = Some t"
  shows "pool_stop_inv t"
proof -
  from step obtain ctx sp wk q' ws where
    add: "fq_Add \<lparr>contextToRunFutureWith = ctx, underlyingFuture = length (futures s)\<rparr> (pqueue s) = (wk, q')"
    and ws: "wake_workers wk c (workers s) = Some ws"
    and t: "pqueue t = q'" "workers t = ws" "config t = config s" "ctxDone t = ctxDone s"
    by (auto elim!: pexec_PEnqueue_cases)
  have "shuttingDown (delegate q') = shuttingDown (delegate (pqueue s))"
    "shuttingDown (delegate (pqueue s)) \<longrightarrow> queue (delegate q') = queue (delegate (pqueue s))"
    using fq_Add_wake [OF add] cq_Add_queue [of "length (cells (pqueue s))" "delegate (pqueue s)"]
      cq_Add_frame(2) [of "length (cells (pqueue s))" "delegate (pqueue s)"] by auto
  with wake_workers_frame(5,6) [OF ws] show ?thesis
    by (intro pool_stop_frame [OF inv]) (auto simp: t)
qed

lemma pool_stop_close:
  assumes inv: "pool_stop_inv s" and step: "pexec handle zero s PClose = Some t"
  shows "pool_stop_inv t"
proof -
  from step have t: "ctxDone s" "t = s\<lparr>pqueue := snd (fq_ShutDown (pqueue s)), workers := map w_awake (workers s)\<rparr>"
    by (auto elim!: pexec_PClose_cases)
  have "wake_workers Broadcast None (workers s) = Some (map w_awake (workers s))"
    by (simp add: wake_workers_def wake_by_def)
  from wake_workers_frame(5,6) [OF this] inv t(1) show ?thesis
    by (auto simp: t(2) pool_stop_inv_def cq_ShutDown_def simp del: set_map)
qed

lemma pool_stop_step:
  assumes inv: "pool_stop_inv s" and q: "pool_queue_inv s" and step: "pexec handle zero s a = Some t"
  shows "pool_stop_inv t"
proof (cases a)
  case (WGet i)
  with assms show ?thesis by (auto elim!: pexec_WGet_cases intro: pool_stop_get)
next
  case (WCompute i)
  with step obtain p where "t = worker_compute handle zero i p s" by (auto elim: pexec_WCompute_cases)
  then show ?thesis by (intro pool_stop_frame [OF inv]) (auto dest!: in_set_update)
next
  case (WFree i)
  with step show ?thesis
    by (auto simp: pexec.simps split: if_splits dest!: in_set_update intro!: pool_stop_frame [OF inv])
next
  case (WPanic i)
  with step inv show ?thesis
    by (auto simp: pexec.simps startWorker_next_def fq_ShuttingDown_def cq_ShuttingDown_def
        pool_stop_inv_def emits_metrics_def split: if_splits dest!: in_set_update)
next
  case PStart
  with step show ?thesis
    by (auto simp: pexec.simps startWorkerAsync_def split: submission.splits if_splits
        intro!: pool_stop_frame [OF inv])
next
  case PPanic
  with step show ?thesis
    by (auto simp: pexec.simps startWorkerAsync_def split: submission.splits if_splits
        intro!: pool_stop_frame [OF inv])
next
  case PClose
  with step show ?thesis by (auto intro: pool_stop_close [OF inv])
next
  case (WDone i c)
  with step show ?thesis by (auto intro: pool_stop_done [OF inv q])
next
  case (PEnqueue c)
  with step show ?thesis by (auto intro: pool_stop_enqueue [OF inv])
qed (use step in \<open>auto simp: pexec.simps split: submission.splits if_splits
       intro!: pool_stop_frame [OF inv]\<close>)

subsection \<open>All together\<close>

lemma apply_options_max:
  assumes "\<forall>opt \<in> set opts. is_option opt"
  shows "case maxNumberOfWorkers (apply_options opts) of None \<Rightarrow> True | Some m \<Rightarrow> 1 \<le> m"
proof -
  have "case maxNumberOfWorkers (fold (\<lambda>opt c. opt c) opts c) of None \<Rightarrow> True | Some m \<Rightarrow> 1 \<le> m"
    if "case maxNumberOfWorkers c of None \<Rightarrow> True | Some m \<Rightarrow> 1 \<le> m"
      "\<forall>opt \<in> set opts. is_option opt" for c :: "'a Config"
    using that
  proof (induction opts arbitrary: c)
    case (Cons opt opts)
    have "case maxNumberOfWorkers (opt c) of None \<Rightarrow> True | Some m \<Rightarrow> 1 \<le> m"
      using Cons.prems by (auto simp: is_option_def WithMaxNumberOfWorkers_def WithMetricTags_def)
    with Cons show ?case by simp
  qed simp
  from this [OF _ assms] show ?thesis by (simp add: apply_options_def)
qed

lemma p_inv_init: "pinit s \<Longrightarrow> p_inv s"
proof -
  assume "pinit s"
  then obtain opts w where o: "\<forall>opt \<in> set opts. is_option opt"
    and s: "s = NewDefaultSupplierWorkerPool opts w" by (auto simp: pinit_def)
  have "q_inv \<lparr>q_of = NewCollapsingQueue, gos = []\<rparr>"
    by (rule q_inv_init) (auto simp: qinit_def)
  then show "p_inv s"
    using apply_options_max [OF o] fq_inv_New
    by (auto simp: p_inv_def s NewDefaultSupplierWorkerPool_def pool_queue_inv_def pool_count_inv_def
        pool_task_inv_def pool_stop_inv_def count_free_def tasks_of_def)
      (simp_all add: NewQueue_def NewCollapsingQueue_def)
qed

lemma p_inv_step: "p_inv s \<Longrightarrow> pexec handle zero s a = Some t \<Longrightarrow> p_inv t"
  unfolding p_inv_def
  by (intro conjI; elim conjE;
      erule (1) pool_queue_step pool_count_step pool_task_step pool_stop_step; assumption)

section \<open>Coming to rest\<close>

text \<open>
  The internal steps are those of the workers and of the submission in progress; new
  submissions, the cancellation, the shutdown, a metrics client that makes \<open>Submit\<close> panic and
  the rest of the world are external. Each
  internal step lowers the rank, so the pool comes to rest when left alone.
\<close>

fun pinternal :: "('ctx, 'w, 'r, 'e, 'p) pact \<Rightarrow> bool" where
  "pinternal (PSubmit _ _) = False"
| "pinternal PCancel = False"
| "pinternal PPanic = False"
| "pinternal PClose = False"
| "pinternal (PEnv _) = False"
| "pinternal _ = True"

fun worker_rank :: "worker \<Rightarrow> nat" where
  "worker_rank (WLoop _) = 1"
| "worker_rank (WWoken _) = 1"
| "worker_rank (WTaken _) = 5"
| "worker_rank (WRun _) = 3"
| "worker_rank WMark = 2"
| "worker_rank _ = 0"

fun submission_rank :: "('ctx, 'w, 'r, 'e, 'p) submission \<Rightarrow> nat" where
  "submission_rank NoSubmit = 0"
| "submission_rank (Loaded _ _ _) = 11"
| "submission_rank (AskLen _ _ _) = 10"
| "submission_rank (Decided _ _ _) = 9"
| "submission_rank (Ready _ _) = 7"

definition pool_rank :: "('ctx, 'w, 'r, 'e, 'p, 'tag) pool \<Rightarrow> nat" where
  "pool_rank s = submission_rank (submitting s) + sum_list (map worker_rank (workers s))
     + 5 * length (queue (delegate (pqueue s)))"

lemma worker_rank_wake:
  assumes "wake_workers wk c ws = Some ws'" and "wk \<noteq> Broadcast"
  shows "sum_list (map worker_rank ws') \<le> Suc (sum_list (map worker_rank ws))"
proof (cases wk)
  case Signal
  with assms(1) have "wake_workers Signal c ws = Some ws'" by simp
  then show ?thesis
  proof (cases rule: wake_workers_Signal)
    case 1
    then show ?thesis by simp
  next
    case (2 j)
    then have "worker_rank (w_awake (ws ! j)) = 1" "worker_rank (ws ! j) = 0"
      by (cases "ws ! j"; simp)+
    with 2 sum_list_map_update [OF 2(1), of worker_rank "w_awake (ws ! j)"] show ?thesis by simp
  qed
qed (use assms in \<open>auto simp: wake_workers_NoWake\<close>)

lemma pool_rank_update:
  assumes "i < length (workers s)" and "worker_rank g < worker_rank (workers s ! i)"
  shows "sum_list (map worker_rank ((workers s)[i := g])) < sum_list (map worker_rank (workers s))"
  using sum_list_map_update [OF assms(1), of worker_rank g] assms(2) by simp

lemma pool_rank_get:
  assumes i: "i < length (workers s)" and g: "workers s ! i = WLoop b \<or> workers s ! i = WWoken b"
  shows "pool_rank (worker_get i b s) < pool_rank s"
proof (cases "queue (delegate (pqueue s))")
  case Nil
  with i g show ?thesis
    by (auto simp: worker_get_empty pool_rank_def intro!: pool_rank_update)
next
  case (Cons p ps)
  show ?thesis
    using sum_list_map_update [OF i, of worker_rank "WTaken p"] g
    by (auto simp: worker_get_item [OF Cons] pool_rank_def Cons)
qed

lemma pool_rank_done:
  assumes q: "pool_queue_inv s" and step: "pexec handle zero s (WDone i c) = Some t"
  shows "pool_rank t < pool_rank s"
proof -
  from WDone_frame [OF q step] obtain p wk q' ws where st: "i < length (workers s)" "workers s ! i = WTaken p"
    "wake_workers wk c ((workers s)[i := WRun p]) = Some ws" "wk \<noteq> Broadcast"
    and t: "t = s\<lparr>pqueue := q', workers := ws\<rparr>" "queue (delegate q') = queue (delegate (pqueue s))" by metis
  note worker_rank_wake [OF st(3,4)] sum_list_map_update [OF st(1), of worker_rank "WRun p"]
  with st(2) show ?thesis by (simp add: pool_rank_def t)
qed

lemma pool_rank_enqueue:
  assumes step: "pexec handle zero s (PEnqueue c) = Some t"
  shows "pool_rank t < pool_rank s"
proof -
  from step obtain ctx sp wk q' ws where
    add: "fq_Add \<lparr>contextToRunFutureWith = ctx, underlyingFuture = length (futures s)\<rparr> (pqueue s) = (wk, q')"
    and ws: "wake_workers wk c (workers s) = Some ws" and sub: "submitting s = Ready ctx sp"
    and t: "pqueue t = q'" "workers t = ws" "submitting t = NoSubmit"
    by (auto elim!: pexec_PEnqueue_cases)
  note add' = fq_Add_wake [OF add]
  have "wk \<noteq> Broadcast"
    using add' cq_no_Broadcast(1) [of "length (cells (pqueue s))" "delegate (pqueue s)"] by auto
  note r = worker_rank_wake [OF ws this]
  have "length (queue (delegate q')) \<le> Suc (length (queue (delegate (pqueue s))))"
    using add' cq_Add_queue [of "length (cells (pqueue s))" "delegate (pqueue s)"] by auto
  with r sub show ?thesis by (simp add: pool_rank_def t)
qed

lemma pool_rank_step:
  assumes inv: "p_inv s" and step: "pexec handle zero s a = Some t" and int: "pinternal a"
  shows "pool_rank t < pool_rank s"
proof (cases a)
  case (WGet i)
  with step show ?thesis by (auto elim!: pexec_WGet_cases intro: pool_rank_get)
next
  case (WCompute i)
  with step obtain p where "i < length (workers s)" "workers s ! i = WRun p"
    "t = worker_compute handle zero i p s" by (auto elim: pexec_WCompute_cases)
  then show ?thesis by (simp add: pool_rank_def pool_rank_update)
next
  case (WFree i)
  with step show ?thesis
    by (auto simp: pexec.simps pool_rank_def split: if_splits intro!: pool_rank_update)
next
  case (WPanic i)
  with step show ?thesis
    by (auto simp: pexec.simps startWorker_next_def pool_rank_def split: if_splits
        intro!: pool_rank_update)
next
  case (WDone i c)
  with step inv show ?thesis by (auto simp: p_inv_def intro: pool_rank_done)
next
  case (PEnqueue c)
  with step show ?thesis by (auto intro: pool_rank_enqueue)
next
  case PCount
  with step show ?thesis
    by (auto simp: pexec.simps pool_rank_def split: submission.splits option.splits)
next
  case PLen
  with step show ?thesis
    by (auto simp: pexec.simps pool_rank_def split: submission.splits)
next
  case PStart
  with step show ?thesis
    by (auto simp: pexec.simps pool_rank_def startWorkerAsync_def split: submission.splits if_splits)
qed (use int in auto)

interpretation wp: ranked_system pinit "by_exec (pexec handle zero)" p_inv pinternal pool_rank
  by unfold_locales (auto simp: by_exec_def intro: p_inv_init p_inv_step pool_rank_step)

text \<open>A state in which no internal step is possible.\<close>

definition pool_at_rest :: "('ctx \<Rightarrow> 'p \<Rightarrow> 'w \<Rightarrow> 'e \<times> 'w) \<Rightarrow> 'r
    \<Rightarrow> ('ctx, 'w, 'r, 'e, 'p, 'tag) pool \<Rightarrow> bool" where
  "pool_at_rest handle zero s \<longleftrightarrow> (\<forall>a. pinternal a \<longrightarrow> pexec handle zero s a = None)"

lemma at_rest_submission:
  assumes "pool_at_rest handle zero s"
  shows "submitting s = NoSubmit"
proof (cases "submitting s")
  case (Loaded ctx sp n)
  then have "pexec handle zero s PCount \<noteq> None" by (simp add: pexec.simps)
  with assms show ?thesis by (auto simp: pool_at_rest_def)
next
  case (AskLen ctx sp n)
  then have "pexec handle zero s PLen \<noteq> None" by (simp add: pexec.simps)
  with assms show ?thesis by (auto simp: pool_at_rest_def)
next
  case (Decided ctx sp b)
  then have "pexec handle zero s PStart \<noteq> None" by (simp add: pexec.simps)
  with assms show ?thesis by (auto simp: pool_at_rest_def)
next
  case (Ready ctx sp)
  obtain wk q where add: "fq_Add \<lparr>contextToRunFutureWith = ctx,
      underlyingFuture = length (futures s)\<rparr> (pqueue s) = (wk, q)" by (metis surj_pair)
  have "wk \<noteq> Broadcast"
    using fq_Add_wake [OF add] cq_no_Broadcast(1) [of "length (cells (pqueue s))" "delegate (pqueue s)"]
    by auto
  then obtain c ws where "wake_workers wk c (workers s) = Some ws"
    using wake_workers_possible by blast
  with Ready add have "pexec handle zero s (PEnqueue c) \<noteq> None"
    by (simp add: pexec.simps submit_add_def Let_def)
  with assms show ?thesis by (auto simp: pool_at_rest_def)
qed

lemma at_rest_worker:
  assumes "pool_at_rest handle zero s" and i: "i < length (workers s)"
  shows "w_parked (workers s ! i) \<or> stopped (workers s ! i) \<or> workers s ! i = WDied"
proof (cases "workers s ! i")
  case (WTaken p)
  obtain wk q where d: "fq_mark_done p (pqueue s) = (wk, q)" by (metis surj_pair)
  have "wk \<noteq> Broadcast"
    using fq_mark_done_wake [OF d] cq_no_Broadcast(2) [of p "delegate (pqueue s)"] by auto
  then obtain c ws where "wake_workers wk c ((workers s)[i := WRun p]) = Some ws"
    using wake_workers_possible by blast
  with WTaken i d have "pexec handle zero s (WDone i c) \<noteq> None" by (simp add: pexec.simps)
  with assms show ?thesis by (auto simp: pool_at_rest_def)
next
  case (WLoop b)
  with i have "pexec handle zero s (WGet i) \<noteq> None" by (simp add: pexec.simps)
  with assms show ?thesis by (auto simp: pool_at_rest_def)
next
  case (WWoken b)
  with i have "pexec handle zero s (WGet i) \<noteq> None" by (simp add: pexec.simps)
  with assms show ?thesis by (auto simp: pool_at_rest_def)
next
  case (WRun p)
  with i have "pexec handle zero s (WCompute i) \<noteq> None" by (simp add: pexec.simps)
  with assms show ?thesis by (auto simp: pool_at_rest_def)
next
  case WMark
  with i have "pexec handle zero s (WFree i) \<noteq> None" by (simp add: pexec.simps)
  with assms show ?thesis by (auto simp: pool_at_rest_def)
qed simp_all

lemma parked_queue_empty:
  assumes "pool_queue_inv s" and "\<forall>g \<in> set (workers s). w_parked g \<or> stopped g \<or> g = WDied"
    and "g \<in> set (workers s)" and "w_parked g"
  shows "queue (delegate (pqueue s)) = []"
proof -
  have "GetParked \<in> set (map gor (workers s))"
    using assms(3,4) by (auto simp: image_iff elim!: w_parked.elims intro!: bexI [of _ g])
  with assms(1) have "length (queue (delegate (pqueue s))) \<le> count_woken (map gor (workers s))"
    by (simp add: pool_queue_inv_def q_inv_def)
  also have "count_woken (map gor (workers s)) = 0"
    using assms(2) by (auto simp: count_woken_def filter_empty_conv elim!: w_parked.elims stopped.elims)
  finally show ?thesis by simp
qed

text \<open>
  At rest every accepted task is computed, unless all workers died in a panicking metrics
  client during the shutdown.
\<close>

lemma at_rest_computed:
  assumes inv: "p_inv s" and rest: "pool_at_rest handle zero s"
    and alive: "\<exists>g \<in> set (workers s). g \<noteq> WDied" and p: "p \<in> set (accepted s)"
  shows "Get_result (futures s ! p) \<noteq> None"
proof -
  have all: "\<forall>g \<in> set (workers s). w_parked g \<or> stopped g \<or> g = WDied"
    using at_rest_worker [OF rest] by (metis in_set_conv_nth)
  have "queue (delegate (pqueue s)) = []"
  proof -
    from alive all obtain g where g: "g \<in> set (workers s)" "w_parked g \<or> stopped g" by blast
    then show ?thesis
      using inv parked_queue_empty [OF _ all, of g] by (auto simp: p_inv_def pool_stop_inv_def)
  qed
  moreover have "tasks_of (workers s) = []"
    using all by (auto simp: tasks_of_def elim!: w_parked.elims stopped.elims) 
  moreover have "pool_task_inv s" using inv by (simp add: p_inv_def)
  ultimately have "set (accepted s) = set (computed s)"
    by (auto simp: pool_task_inv_def dest: mset_eq_setD)
  with p \<open>pool_task_inv s\<close> show ?thesis by (auto simp: pool_task_inv_def)
qed

lemma accepted_has_workers: "p_inv s \<Longrightarrow> accepted s \<noteq> [] \<Longrightarrow> workers s \<noteq> []"
  by (simp add: p_inv_def pool_count_inv_def)

lemma no_tags_no_died: "p_inv s \<Longrightarrow> tags (config s) = [] \<Longrightarrow> WDied \<notin> set (workers s)"
  by (auto simp: p_inv_def pool_stop_inv_def)

section \<open>Results of the futures\<close>

definition pool_result_inv :: "('ctx \<Rightarrow> 'p \<Rightarrow> 'w \<Rightarrow> 'e \<times> 'w) \<Rightarrow> 'r
    \<Rightarrow> ('ctx, 'w, 'r, 'e, 'p, 'tag) pool \<Rightarrow> bool" where
  "pool_result_inv handle zero s \<longleftrightarrow>
     (\<forall>p r. p < length (futures s) \<longrightarrow> Get_result (futures s ! p) = Some r \<longrightarrow>
        (\<exists>w. r = fst (supplied handle zero (supplier (futures s ! p))
                        (contextToRunFutureWith (cells (pqueue s) ! p)) w)))"

lemma pool_result_frame:
  "pool_result_inv handle zero s \<Longrightarrow> futures t = futures s \<Longrightarrow> cells (pqueue t) = cells (pqueue s) \<Longrightarrow>
   pool_result_inv handle zero t"
  by (simp add: pool_result_inv_def)

lemma pool_result_compute:
  assumes inv: "pool_result_inv handle zero s" and p: "pool_task_inv s"
    and step: "pexec handle zero s (WCompute i) = Some t"
  shows "pool_result_inv handle zero t"
proof -
  from step obtain p where st: "i < length (workers s)" "workers s ! i = WRun p"
    and t: "t = worker_compute handle zero i p s" by (auto elim: pexec_WCompute_cases)
  note r = pool_task_WRun [OF p st(1), of p, unfolded st(2) has_task.simps, OF refl]
  have futs: "futures t = (futures s)[p := fst (snd (Compute handle zero
      (contextToRunFutureWith (cells (pqueue s) ! p)) (futures s ! p) (world s)))]"
    using worker_compute_futures [OF r(3) [symmetric] refl] by (simp add: t)
  have q: "pqueue t = pqueue s" by (simp add: t)
  show ?thesis
    unfolding pool_result_inv_def
  proof (intro allI impI)
    fix k r
    assume k: "k < length (futures t)" "Get_result (futures t ! k) = Some r"
    show "\<exists>w. r = fst (supplied handle zero (supplier (futures t ! k))
        (contextToRunFutureWith (cells (pqueue t) ! k)) w)"
    proof (cases "k = p \<and> Get_result (futures s ! p) = None")
      case True
      with k show ?thesis by (auto simp: futs q Compute_result)
    next
      case False
      with k have old: "k < length (futures s)" "Get_result (futures s ! k) = Some r"
        "supplier (futures t ! k) = supplier (futures s ! k)"
        by (auto simp: futs nth_update Compute_result split: if_splits option.splits)
      show ?thesis
        using inv [unfolded pool_result_inv_def, rule_format, OF old(1,2)] by (simp add: q old(3))
    qed
  qed
qed

lemma pool_result_step:
  assumes inv: "pool_result_inv handle zero s" and p: "pool_task_inv s"
    and step: "pexec handle zero s a = Some t"
  shows "pool_result_inv handle zero t"
proof (cases a)
  case (WGet i)
  with step obtain b where "t = worker_get i b s" by (auto elim!: pexec_WGet_cases)
  then show ?thesis
    by (cases "queue (delegate (pqueue s))")
      (auto simp: worker_get_empty worker_get_item intro!: pool_result_frame [OF inv])
next
  case (WCompute i)
  with step show ?thesis by (auto intro: pool_result_compute [OF inv p])
next
  case (WDone i c)
  with step show ?thesis
    by (auto elim!: pexec_WDone_cases dest!: fq_mark_done_wake intro!: pool_result_frame [OF inv])
next
  case (PEnqueue c)
  with step obtain ctx sp wk q' where
    add: "fq_Add \<lparr>contextToRunFutureWith = ctx, underlyingFuture = length (futures s)\<rparr> (pqueue s) = (wk, q')"
    and t: "pqueue t = q'" "futures t = futures s @ [NewDefaultComputingFuture sp]"
    by (auto elim!: pexec_PEnqueue_cases)
  have "length (cells (pqueue s)) = length (futures s)" using p by (simp add: pool_task_inv_def)
  with inv fq_Add_wake [OF add] show ?thesis
    by (auto simp: pool_result_inv_def t nth_append NewDefaultComputingFuture_def Get_result_def
        split: if_splits option.splits)
next
  case PClose
  with step show ?thesis by (auto elim!: pexec_PClose_cases intro!: pool_result_frame [OF inv])
qed (use step in \<open>auto simp: pexec.simps startWorkerAsync_def split: submission.splits if_splits
       intro!: pool_result_frame [OF inv]\<close>)

interpretation pr: transition_invariant pinit "by_exec (pexec handle zero)"
  "\<lambda>s. p_inv s \<and> pool_result_inv handle zero s"
proof (unfold_locales, goal_cases)
  case (1 s)
  then show ?case
    by (auto simp: p_inv_init) (auto simp: pinit_def NewDefaultSupplierWorkerPool_def pool_result_inv_def)
next
  case (2 s a t)
  then have "p_inv t" by (auto simp: by_exec_def intro: p_inv_step)
  moreover from 2 have "pool_result_inv handle zero t"
    by (auto simp: by_exec_def p_inv_def intro: pool_result_step)
  ultimately show ?case ..
qed

end
