(* ===== verification/Pool_Service.thy ===== *)
theory Pool_Service
  imports Worker_Pool
begin

text \<open>
  What the worker pool of \<open>Worker_Pool\<close> promises its clients: every task once, in the order
  of the submissions, within the configured number of workers, and with a result whenever the
  pool is left alone. Then the two places where it promises less: what a submission sees while a
  worker takes a task, and submissions after the shutdown.
\<close>

section \<open>Serialised submissions\<close>

text \<open>
  A submission whose steps run without a step of a worker in between, as \<open>submitLock\<close> alone
  does not guarantee.
\<close>

definition submit_serial :: "('ctx \<Rightarrow> 'p \<Rightarrow> 'w \<Rightarrow> 'e \<times> 'w) \<Rightarrow> 'r \<Rightarrow> ('ctx, 'w, 'r, 'e, 'p, 'tag) pool
    \<Rightarrow> 'ctx \<Rightarrow> ('ctx, 'w, 'r, 'e, 'p) supplier \<Rightarrow> nat option
    \<Rightarrow> ('ctx, 'w, 'r, 'e, 'p, 'tag) pool option" where
  "submit_serial handle zero s ctx sp c =
     (case run (pexec handle zero) s [PSubmit ctx sp, PCount] of
        None \<Rightarrow> None
      | Some t \<Rightarrow>
          (case submitting t of
             AskLen _ _ _ \<Rightarrow> run (pexec handle zero) t [PLen, PStart, PEnqueue c]
           | _ \<Rightarrow> run (pexec handle zero) t [PStart, PEnqueue c]))"

datatype ('ctx, 'w, 'r, 'e, 'p) sact =
  Serial 'ctx "('ctx, 'w, 'r, 'e, 'p) supplier" "nat option" | Other "('ctx, 'w, 'r, 'e, 'p) pact"

fun of_submission :: "('ctx, 'w, 'r, 'e, 'p) pact \<Rightarrow> bool" where
  "of_submission (PSubmit _ _) = True"
| "of_submission PCount = True"
| "of_submission PLen = True"
| "of_submission PStart = True"
| "of_submission PPanic = True"
| "of_submission (PEnqueue _) = True"
| "of_submission _ = False"

fun sexec :: "('ctx \<Rightarrow> 'p \<Rightarrow> 'w \<Rightarrow> 'e \<times> 'w) \<Rightarrow> 'r \<Rightarrow> ('ctx, 'w, 'r, 'e, 'p, 'tag) pool
    \<Rightarrow> ('ctx, 'w, 'r, 'e, 'p) sact \<Rightarrow> ('ctx, 'w, 'r, 'e, 'p, 'tag) pool option" where
  "sexec handle zero s (Serial ctx sp c) = submit_serial handle zero s ctx sp c"
| "sexec handle zero s (Other a) = (if of_submission a then None else pexec handle zero s a)"

text \<open>
  Enough workers: the maximum is reached, or there is a worker looking for work for every
  queued task.
\<close>

definition enough_workers :: "('ctx, 'w, 'r, 'e, 'p, 'tag) pool \<Rightarrow> bool" where
  "enough_workers s \<longleftrightarrow>
     (case maxNumberOfWorkers (config s) of None \<Rightarrow> False | Some m \<Rightarrow> m \<le> int (length (workers s)))
     \<or> length (queue (delegate (pqueue s))) \<le>
         count_looking True (workers s) + count_looking False (workers s)"

lemma count_looking_in_numberFree:
  "(\<forall>g \<in> set ws. \<not> stopped g) \<Longrightarrow> count_looking True ws = count_free ws"
  unfolding count_looking_def count_free_def
  by (rule arg_cong [where f = length], rule filter_cong) (auto simp: in_numberFree_def)

lemma serial_cases:
  assumes "submit_serial handle zero s ctx sp c = Some t" and "submitting s = NoSubmit"
  obtains b where
    "b = (case need_by_count (config s) (numberFree s) (totalCount s) of
        Some b \<Rightarrow> b | None \<Rightarrow> need_by_length (numberFree s) (fq_Len (pqueue s)))"
    "submit_add ctx sp c ((if b then startWorkerAsync s else s)\<lparr>submitting := Ready ctx sp\<rparr>) = Some t"
proof (cases "need_by_count (config s) (numberFree s) (totalCount s)")
  case None
  with assms that show ?thesis
    by (auto simp: submit_serial_def pexec.simps startWorkerAsync_def split: option.splits if_splits)
next
  case (Some b)
  with assms that show ?thesis
    by (auto simp: submit_serial_def pexec.simps startWorkerAsync_def split: option.splits if_splits)
qed

lemma submit_add_effect:
  assumes "submit_add ctx sp c s = Some t"
  shows "config t = config s" "submitting t = NoSubmit" "length (workers t) = length (workers s)"
    "count_looking b (workers t) = count_looking b (workers s)"
    "shuttingDown (delegate (pqueue t)) = shuttingDown (delegate (pqueue s))"
    "length (queue (delegate (pqueue t))) \<le> Suc (length (queue (delegate (pqueue s))))"
proof -
  from assms obtain wk q ws where
    add: "fq_Add \<lparr>contextToRunFutureWith = ctx, underlyingFuture = length (futures s)\<rparr> (pqueue s) = (wk, q)"
    and ws: "wake_workers wk c (workers s) = Some ws"
    and t: "t = s\<lparr>futures := futures s @ [NewDefaultComputingFuture sp], pqueue := q,
        workers := ws, submitting := NoSubmit,
        accepted := (if fq_ShuttingDown (pqueue s) then accepted s
          else accepted s @ [length (cells (pqueue s))])\<rparr>"
    by (auto simp: submit_add_def Let_def split: prod.splits option.splits)
  show "config t = config s" "submitting t = NoSubmit" by (simp_all add: t)
  show "length (workers t) = length (workers s)"
    "count_looking b (workers t) = count_looking b (workers s)"
    using wake_workers_frame [OF ws] by (simp_all add: t)
  show "shuttingDown (delegate (pqueue t)) = shuttingDown (delegate (pqueue s))"
    "length (queue (delegate (pqueue t))) \<le> Suc (length (queue (delegate (pqueue s))))"
    using fq_Add_wake [OF add] cq_Add_queue [of "length (cells (pqueue s))" "delegate (pqueue s)"]
      cq_Add_frame(2) [of "length (cells (pqueue s))" "delegate (pqueue s)"]
    by (auto simp: t)
qed

definition serial_inv :: "('ctx, 'w, 'r, 'e, 'p, 'tag) pool \<Rightarrow> bool" where
  "serial_inv s \<longleftrightarrow> p_inv s \<and> submitting s = NoSubmit
     \<and> (shuttingDown (delegate (pqueue s)) \<or> enough_workers s)"

lemma p_inv_run: "run (pexec handle zero) s as = Some t \<Longrightarrow> p_inv s \<Longrightarrow> p_inv t"
  by (rule wp.inv_path [OF path_run])

lemma serial_p_inv: "submit_serial handle zero s ctx sp c = Some t \<Longrightarrow> p_inv s \<Longrightarrow> p_inv t"
  unfolding submit_serial_def
  by (auto split: option.splits submission.splits dest: p_inv_run simp del: run.simps)

lemma serial_enough:
  assumes inv: "p_inv s" and sub: "submitting s = NoSubmit" and enough: "enough_workers s"
    and op: "\<not> shuttingDown (delegate (pqueue s))"
    and step: "submit_serial handle zero s ctx sp c = Some t"
  shows "enough_workers t"
proof -
  from step sub obtain b where
    b: "b = (case need_by_count (config s) (numberFree s) (totalCount s) of
        Some b \<Rightarrow> b | None \<Rightarrow> need_by_length (numberFree s) (fq_Len (pqueue s)))"
    and add: "submit_add ctx sp c ((if b then startWorkerAsync s else s)\<lparr>submitting := Ready ctx sp\<rparr>) = Some t"
    by (rule serial_cases)
  note eff = submit_add_effect [OF add]
  have "\<forall>g \<in> set (workers s). \<not> stopped g"
    using inv op by (auto simp: p_inv_def pool_stop_inv_def)
  from count_looking_in_numberFree [OF this] inv
  have n: "numberFree s = int (count_looking True (workers s))"
    and tot: "totalCount s = int (length (workers s))"
    by (simp_all add: p_inv_def pool_count_inv_def)
  show ?thesis
  proof (cases b)
    case True
    with eff enough show ?thesis
      by (auto simp: enough_workers_def startWorkerAsync_def split: option.splits)
  next
    case False
    with b n tot have "(case maxNumberOfWorkers (config s) of None \<Rightarrow> False | Some m \<Rightarrow> m \<le> int (length (workers s)))
        \<or> Suc (length (queue (delegate (pqueue s)))) \<le> count_looking True (workers s)"
      by (auto simp: need_by_count_def need_by_length_def fq_Len_def cq_Len_def split: option.splits if_splits)
    with eff False show ?thesis by (auto simp: enough_workers_def split: option.splits)
  qed
qed

lemma enough_workers_get:
  assumes enough: "enough_workers s" and op: "\<not> shuttingDown (delegate (pqueue t))"
    and step: "pexec handle zero s (WGet i) = Some t"
  shows "enough_workers t"
proof -
  from step obtain b where i: "i < length (workers s)" "workers s ! i = WLoop b \<or> workers s ! i = WWoken b"
    and t: "t = worker_get i b s" by (auto elim!: pexec_WGet_cases)
  show ?thesis
  proof (cases "queue (delegate (pqueue s))")
    case Nil
    with op have "t = s\<lparr>workers := (workers s)[i := WParked b]\<rparr>"
      by (auto simp: t worker_get_empty split: if_splits)
    with Nil enough show ?thesis by (auto simp: enough_workers_def)
  next
    case (Cons p ps)
    with enough i count_looking_update [OF i(1), of True "WTaken p"]
      count_looking_update [OF i(1), of False "WTaken p"]
    show ?thesis
      by (cases b) (auto simp: t worker_get_item enough_workers_def split: option.splits)
  qed
qed

lemma enough_workers_done:
  assumes q: "pool_queue_inv s" and enough: "enough_workers s" and step: "pexec handle zero s (WDone i c) = Some t"
  shows "enough_workers t"
proof -
  from WDone_frame [OF q step] obtain p wk q' ws where st: "i < length (workers s)" "workers s ! i = WTaken p"
    "wake_workers wk c ((workers s)[i := WRun p]) = Some ws"
    and t: "t = s\<lparr>pqueue := q', workers := ws\<rparr>" "queue (delegate q') = queue (delegate (pqueue s))" by metis
  have "count_looking b ws = count_looking b (workers s)" for b
    using wake_workers_frame(3) [OF st(3)] count_looking_update [OF st(1), of b "WRun p"] st(2) by simp
  with t(2) show ?thesis
    using enough wake_workers_frame(1) [OF st(3)] by (auto simp: enough_workers_def t(1) split: option.splits)
qed

lemma enough_workers_other:
  assumes inv: "p_inv s" and enough: "enough_workers s" and op: "\<not> shuttingDown (delegate (pqueue t))"
    and step: "pexec handle zero s a = Some t" and a: "\<not> of_submission a"
  shows "enough_workers t"
proof (cases a)
  case (WGet i)
  with step show ?thesis by (auto intro: enough_workers_get [OF enough op])
next
  case (WDone i c)
  with step inv show ?thesis by (auto simp: p_inv_def intro: enough_workers_done [OF _ enough])
next
  case (WCompute i)
  with step obtain p where st: "i < length (workers s)" "workers s ! i = WRun p"
    and t: "t = worker_compute handle zero i p s" by (auto elim: pexec_WCompute_cases)
  have "count_looking b ((workers s)[i := WMark]) = count_looking b (workers s)" for b
    using count_looking_update [OF st(1), of b WMark] st(2) by simp
  with enough show ?thesis by (auto simp: enough_workers_def t split: option.splits)
next
  case (WFree i)
  with step have st: "i < length (workers s)" "workers s ! i = WMark"
    and t: "t = s\<lparr>numberFree := numberFree s + 1, workers := (workers s)[i := WLoop True]\<rparr>"
    by (auto simp: pexec.simps split: if_splits)
  have "count_looking b (workers s) \<le> count_looking b ((workers s)[i := WLoop True])" for b
    using count_looking_update [OF st(1), of b "WLoop True"] st(2) by simp
  from this [of True] this [of False] enough show ?thesis
    by (auto simp: enough_workers_def t split: option.splits)
next
  case (WPanic i)
  with step op have st: "i < length (workers s)" "workers s ! i = WMark"
    and t: "t = s\<lparr>workers := (workers s)[i := WLoop False]\<rparr>"
    by (auto simp: pexec.simps startWorker_next_def fq_ShuttingDown_def cq_ShuttingDown_def split: if_splits)
  have "count_looking b (workers s) \<le> count_looking b ((workers s)[i := WLoop False])" for b
    using count_looking_update [OF st(1), of b "WLoop False"] st(2) by simp
  from this [of True] this [of False] enough show ?thesis
    by (auto simp: enough_workers_def t split: option.splits)
next
  case PClose
  with step op show ?thesis by (auto elim!: pexec_PClose_cases simp: cq_ShutDown_def)
qed (use a step enough in \<open>auto simp: pexec.simps enough_workers_def split: option.splits\<close>)

lemma pexec_keeps_NoSubmit:
  "pexec handle zero s a = Some t \<Longrightarrow> \<not> of_submission a \<Longrightarrow> submitting t = submitting s"
  by (cases a; cases "queue (delegate (pqueue s))")
    (auto elim!: pexec_WGet_cases pexec_WDone_cases pexec_WCompute_cases pexec_PClose_cases
      simp: worker_get_empty worker_get_item, (auto simp: pexec.simps split: if_splits))

lemma pexec_shuttingDown:
  assumes "p_inv s" and "pexec handle zero s a = Some t" and "shuttingDown (delegate (pqueue s))"
  shows "shuttingDown (delegate (pqueue t))"
proof (cases a)
  case (WDone i c)
  with assms show ?thesis
    by (auto elim!: pexec_WDone_cases dest!: fq_mark_done_wake)
      (metis cq_Done_frame(2) snd_conv)
next
  case (PEnqueue c)
  with assms show ?thesis
    by (auto elim!: pexec_PEnqueue_cases dest!: fq_Add_wake)
      (metis cq_Add_frame(2) snd_conv)+
next
  case (WGet i)
  with assms show ?thesis
    by (cases "queue (delegate (pqueue s))")
      (auto elim!: pexec_WGet_cases simp: worker_get_empty worker_get_item)
next
  case (WCompute i)
  with assms show ?thesis by (auto elim!: pexec_WCompute_cases)
next
  case PClose
  with assms show ?thesis by (auto elim!: pexec_PClose_cases)
qed (use assms in \<open>auto simp: pexec.simps startWorkerAsync_def split: submission.splits if_splits\<close>)

lemma serial_inv_step: "serial_inv s \<Longrightarrow> sexec handle zero s a = Some t \<Longrightarrow> serial_inv t"
proof (cases a)
  case (Serial ctx sp c)
  assume inv: "serial_inv s" and "sexec handle zero s a = Some t"
  with Serial have step: "submit_serial handle zero s ctx sp c = Some t" by simp
  from inv have s: "p_inv s" "submitting s = NoSubmit" by (auto simp: serial_inv_def)
  from step s(2) obtain b where
    add: "submit_add ctx sp c ((if b then startWorkerAsync s else s)\<lparr>submitting := Ready ctx sp\<rparr>) = Some t"
    by (rule serial_cases)
  have "shuttingDown (delegate (pqueue t)) = shuttingDown (delegate (pqueue s))"
    using submit_add_effect(5) [OF add] by (auto simp: startWorkerAsync_def)
  with inv serial_p_inv [OF step s(1)] serial_enough [OF s _ _ step] submit_add_effect(2) [OF add]
  show "serial_inv t" by (auto simp: serial_inv_def)
next
  case (Other p)
  assume inv: "serial_inv s" and "sexec handle zero s a = Some t"
  with Other have step: "pexec handle zero s p = Some t" "\<not> of_submission p"
    by (auto split: if_splits)
  from inv have s: "p_inv s" by (simp add: serial_inv_def)
  show "serial_inv t"
  proof (cases "shuttingDown (delegate (pqueue s))")
    case True
    with inv p_inv_step [OF s step(1)] pexec_keeps_NoSubmit [OF step] pexec_shuttingDown [OF s step(1)]
    show ?thesis by (simp add: serial_inv_def)
  next
    case False
    with inv p_inv_step [OF s step(1)] pexec_keeps_NoSubmit [OF step]
      enough_workers_other [OF s _ _ step]
    show ?thesis by (auto simp: serial_inv_def)
  qed
qed

lemma serial_inv_init: "pinit s \<Longrightarrow> serial_inv s"
  using p_inv_init [of s]
  by (auto simp: serial_inv_def pinit_def NewDefaultSupplierWorkerPool_def enough_workers_def
      NewQueue_def NewCollapsingQueue_def)

interpretation sr: transition_invariant pinit "by_exec (sexec handle zero)" serial_inv
  by unfold_locales (auto simp: by_exec_def intro: serial_inv_init serial_inv_step simp del: sexec.simps)

section \<open>Tasks the queue refused\<close>

lemma accepted_grows:
  assumes "p_inv s" and "pexec handle zero s a = Some t"
  shows "length (futures s) \<le> length (futures t)
    \<and> (\<forall>p < length (futures s). p \<in> set (accepted t) \<longrightarrow> p \<in> set (accepted s))"
proof (cases a)
  case (WGet i)
  with assms show ?thesis
    by (cases "queue (delegate (pqueue s))")
      (auto elim!: pexec_WGet_cases simp: worker_get_empty worker_get_item)
next
  case (WCompute i)
  with assms show ?thesis
    by (auto elim!: pexec_WCompute_cases simp: worker_compute_def Let_def split_beta)
next
  case (PEnqueue c)
  have "length (cells (pqueue s)) = length (futures s)"
    using assms(1) by (simp add: p_inv_def pool_task_inv_def)
  with PEnqueue assms show ?thesis by (auto elim!: pexec_PEnqueue_cases split: if_splits)
next
  case (WDone i c)
  with assms show ?thesis by (auto elim!: pexec_WDone_cases)
next
  case PClose
  with assms show ?thesis by (auto elim!: pexec_PClose_cases)
qed (use assms in \<open>auto simp: pexec.simps startWorkerAsync_def split: submission.splits if_splits\<close>)

lemma refused_stays_refused:
  "path (by_exec (pexec handle zero)) s as t \<Longrightarrow> p_inv s \<Longrightarrow> p < length (futures s) \<Longrightarrow>
   p \<notin> set (accepted s) \<Longrightarrow> p < length (futures t) \<and> p \<notin> set (accepted t) \<and> p_inv t"
proof (induction rule: path.induct)
  case (path_Cons s a t as u)
  from path_Cons.hyps(1) have step: "pexec handle zero s a = Some t" by (simp add: by_exec_def)
  from accepted_grows [OF path_Cons.prems(1) step] p_inv_step [OF path_Cons.prems(1) step]
    path_Cons show ?case by auto
qed simp

lemma refused_not_computed:
  assumes "p_inv s" and "p < length (futures s)" and "p \<notin> set (accepted s)"
  shows "Get_result (futures s ! p) = None"
proof -
  have t: "pool_task_inv s" using assms(1) by (simp add: p_inv_def)
  then have "set (computed s) \<subseteq> set (taken s)" "set (taken s) \<subseteq> set (accepted s)"
    by (metis mset_subset_eq_add_right pool_task_inv_def set_mset_mono set_mset_mset)
      (use t in \<open>auto simp: pool_task_inv_def\<close>)
  with assms t show ?thesis by (auto simp: pool_task_inv_def)
qed

section \<open>Properties\<close>

text \<open>A pool without metrics over a world that counts, and suppliers on it.\<close>

definition log_panic :: "unit \<Rightarrow> string \<Rightarrow> nat \<Rightarrow> string \<times> nat" where
  "log_panic _ p w = (p @ ''!'', w)"

definition tick :: "(unit, nat, nat, string, string) supplier" where
  "tick _ w = (Ret (w, None), w + 1)"

definition boom :: "(unit, nat, nat, string, string) supplier" where
  "boom _ w = (Panic ''boom'', w)"

definition pool0 :: "(nat Config \<Rightarrow> nat Config) list \<Rightarrow> (unit, nat, nat, string, string, nat) pool" where
  "pool0 opts = NewDefaultSupplierWorkerPool opts 7"

lemma pinit_pool0: "\<forall>opt \<in> set opts. is_option opt \<Longrightarrow> pinit (pool0 opts)"
  unfolding pinit_def pool0_def by blast

lemmas pool_eval = pool0_def NewDefaultSupplierWorkerPool_def apply_options_def
  WithMaxNumberOfWorkers_def pexec.simps need_by_count_def need_by_length_def startWorkerAsync_def
  submit_add_def shutDownQueueIfNeeded_def worker_get_def worker_compute_def startWorker_next_def wake_workers_def wake_by_def
  free_callback_def fq_defs cq_defs fq_Len_def cq_Len_def NewQueue_def NewCollapsingQueue_def
  set_op_defs Let_def Compute_unset NewDefaultComputingFuture_def supplied_def

text \<open>A pool of at most one worker runs one submission to the end and accepts a second.\<close>

definition one_done :: "(unit, nat, nat, string, string) pact list" where
  "one_done = [PSubmit () tick, PCount, PStart, PEnqueue None, PSubmit () boom, WGet 0, PCount,
     WDone 0 None, PStart, PEnqueue None, WCompute 0, WFree 0]"

lemma one_done_run:
  "\<exists>s. run (pexec log_panic 0) (pool0 [WithMaxNumberOfWorkers 1]) one_done = Some s
     \<and> accepted s = [0, 1] \<and> taken s = [0] \<and> computed s = [0] \<and> workers s = [WLoop True]
     \<and> Get_result (futures s ! 0) = Some (7, None) \<and> Get_result (futures s ! 1) = None
     \<and> length (futures s) = 2 \<and> totalCount s = 1 \<and> numberFree s = 1
     \<and> queue (delegate (pqueue s)) = [1] \<and> tags (config s) = []
     \<and> contextToRunFutureWith (cells (pqueue s) ! 0) = ()"
  by (simp add: one_done_def pool_eval tick_def boom_def Get_result_def)

lemma one_done_reach:
  obtains s :: "(unit, nat, nat, string, string, nat) pool"
    where "reach pinit (by_exec (pexec log_panic 0)) s" "accepted s = [0, 1]"
    "taken s = [0]" "computed s = [0]" "workers s = [WLoop True]"
    "Get_result (futures s ! 0) = Some (7, None)" "length (futures s) = 2" "tags (config s) = []"
proof -
  have "pinit (pool0 [WithMaxNumberOfWorkers 1])"
    by (rule pinit_pool0) (auto simp: is_option_def)
  then show ?thesis
    using one_done_run that run_reach [of pinit] by blast
qed

text \<open>
  Claim C6: every task once, in the order of acceptance. Under every interleaving of
  submissions, workers, shutdown and panics of the metrics client, the accepted tasks are those
  handed to workers so far, in that order, followed by those still queued; a task handed out is
  either with exactly one worker or was computed exactly once; a future has a result exactly
  when its task was computed.
\<close>

theorem pool_every_task_once:
  assumes "reach pinit (by_exec (pexec handle zero)) s"
  shows "accepted s = taken s @ queue (delegate (pqueue s)) \<and> distinct (accepted s)
    \<and> mset (taken s) = mset (tasks_of (workers s)) + mset (computed s)
    \<and> (\<forall>p < length (futures s). Get_result (futures s ! p) \<noteq> None \<longleftrightarrow> p \<in> set (computed s))"
  using wp.inv_reach [OF assms] unfolding p_inv_def pool_task_inv_def Get_result_None by blast

theorem pool_every_task_once_witness:
  "\<exists>s :: (unit, nat, nat, string, string, nat) pool.
     accepted s = [0, 1] \<and> queue (delegate (pqueue s)) = [1] \<and> computed s = [0]"
proof -
  obtain s :: "(unit, nat, nat, string, string, nat) pool"
    where s: "reach pinit (by_exec (pexec log_panic 0)) s" "accepted s = [0, 1]"
    "taken s = [0]" "computed s = [0]" by (rule one_done_reach) (auto intro: that)
  from pool_every_task_once [OF s(1)] s show ?thesis by (intro exI [of _ s]) simp
qed



text \<open>
  Claim C7: left alone, the pool finishes. From any reachable state every sequence of
  steps of the workers and of the submission in progress is bounded by the rank, such a
  sequence can be continued until none is possible, and then no submission hangs and every
  accepted task has its result, provided that not all workers died in a panicking metrics client
  during the shutdown, which needs metric tags to be configured.
\<close>

theorem pool_completes:
  assumes "reach pinit (by_exec (pexec handle zero)) s"
  shows "(\<forall>as t. path (by_exec (pexec handle zero)) s as t \<and> (\<forall>a \<in> set as. pinternal a)
        \<longrightarrow> length as \<le> pool_rank s)
    \<and> (\<exists>as t. path (by_exec (pexec handle zero)) s as t \<and> (\<forall>a \<in> set as. pinternal a)
        \<and> pool_at_rest handle zero t)
    \<and> (\<forall>as t. path (by_exec (pexec handle zero)) s as t \<and> pool_at_rest handle zero t
        \<and> ((\<exists>g \<in> set (workers t). g \<noteq> WDied) \<or> tags (config t) = [])
        \<longrightarrow> submitting t = NoSubmit
            \<and> (\<forall>p \<in> set (accepted t). Get_result (futures t ! p) \<noteq> None))"
proof (intro conjI)
  have inv: "p_inv s" using assms by (rule wp.inv_reach)
  show "\<forall>as t. path (by_exec (pexec handle zero)) s as t \<and> (\<forall>a \<in> set as. pinternal a)
      \<longrightarrow> length as \<le> pool_rank s"
    using wp.internal_path_bounded [OF _ inv] by fastforce
  show "\<exists>as t. path (by_exec (pexec handle zero)) s as t \<and> (\<forall>a \<in> set as. pinternal a)
      \<and> pool_at_rest handle zero t"
    using wp.comes_to_rest [OF inv, of handle zero]
    by (simp add: pool_at_rest_def by_exec_def)
  show "\<forall>as t. path (by_exec (pexec handle zero)) s as t \<and> pool_at_rest handle zero t
      \<and> ((\<exists>g \<in> set (workers t). g \<noteq> WDied) \<or> tags (config t) = [])
      \<longrightarrow> submitting t = NoSubmit \<and> (\<forall>p \<in> set (accepted t). Get_result (futures t ! p) \<noteq> None)"
  proof (intro allI impI, elim conjE)
    fix as t
    assume p: "path (by_exec (pexec handle zero)) s as t" and rest: "pool_at_rest handle zero t"
      and alive: "(\<exists>g \<in> set (workers t). g \<noteq> WDied) \<or> tags (config t) = []"
    have t: "p_inv t" using wp.inv_path [OF p inv] .
    have "\<forall>p \<in> set (accepted t). Get_result (futures t ! p) \<noteq> None"
    proof (cases "accepted t")
      case (Cons p ps)
      then obtain g gs where "workers t = g # gs"
        using accepted_has_workers [OF t] by (cases "workers t") auto
      then have "\<exists>g \<in> set (workers t). g \<noteq> WDied"
        using alive no_tags_no_died [OF t] by auto
      then show ?thesis using at_rest_computed [OF t rest] by blast
    qed simp
    then show "submitting t = NoSubmit \<and> (\<forall>p \<in> set (accepted t). Get_result (futures t ! p) \<noteq> None)"
      using at_rest_submission [OF rest] by (rule conjI [rotated])
  qed
qed

theorem pool_completes_witness:
  "\<exists>s t :: (unit, nat, nat, string, string, nat) pool.
     queue (delegate (pqueue s)) = [1] \<and> pool_at_rest log_panic 0 t \<and> accepted s = [0, 1]
     \<and> (\<exists>as. path (by_exec (pexec log_panic 0)) s as t)"
proof -
  obtain s :: "(unit, nat, nat, string, string, nat) pool"
    where s: "reach pinit (by_exec (pexec log_panic 0)) s" "accepted s = [0, 1]"
    "taken s = [0]" by (rule one_done_reach) (auto intro: that)
  from pool_completes [OF s(1)] obtain as t where "path (by_exec (pexec log_panic 0)) s as t"
    "pool_at_rest log_panic 0 t" by blast
  moreover have "queue (delegate (pqueue s)) = [1]"
    using wp.inv_reach [OF s(1)] s by (simp add: p_inv_def pool_task_inv_def)
  ultimately show ?thesis using s(2) by blast
qed

text \<open>
  The result a future holds is what its supplier returned when it was called with
  the context of the submission; a panic of the supplier becomes an error with the zero value
  and never reaches the worker.
\<close>

theorem pool_results_from_suppliers:
  assumes "reach pinit (by_exec (pexec handle zero)) s"
    and "p < length (futures s)" and "Get_result (futures s ! p) = Some r"
  shows "\<exists>w. r = fst (supplied handle zero (supplier (futures s ! p))
           (contextToRunFutureWith (cells (pqueue s) ! p)) w)"
  using pr.inv_reach [OF assms(1)] assms(2,3) unfolding pool_result_inv_def by blast

theorem pool_results_from_suppliers_witness:
  "\<exists>(s :: (unit, nat, nat, string, string, nat) pool) w.
     (7, None) = fst (supplied log_panic 0 (supplier (futures s ! 0))
        (contextToRunFutureWith (cells (pqueue s) ! 0)) w)"
proof -
  obtain s :: "(unit, nat, nat, string, string, nat) pool"
    where s: "reach pinit (by_exec (pexec log_panic 0)) s"
    "Get_result (futures s ! 0) = Some (7, None)" "length (futures s) = 2"
    by (rule one_done_reach) (auto intro: that)
  have "0 < length (futures s)" using s(3) by simp
  from pool_results_from_suppliers [OF s(1) this s(2)] show ?thesis by blast
qed

text \<open>
  When no worker takes a task during a submission, the pool has workers enough:
  until the shutdown, either the configured maximum is reached or for every queued task there is
  a worker that is looking for work, so that without a maximum no task waits behind a busy
  worker.
\<close>

theorem serial_submissions_enough_workers:
  assumes "reach pinit (by_exec (sexec handle zero)) s" and "\<not> fq_ShuttingDown (pqueue s)"
  shows "enough_workers s"
  using sr.inv_reach [OF assms(1)] assms(2)
  by (simp add: serial_inv_def fq_ShuttingDown_def cq_ShuttingDown_def)

theorem serial_submissions_enough_workers_witness:
  "\<exists>s :: (unit, nat, nat, string, string, nat) pool.
     queue (delegate (pqueue s)) = [1] \<and> enough_workers s \<and> length (workers s) = 2"
proof -
  have "pinit (pool0 [])" by (rule pinit_pool0) simp
  moreover have "\<exists>s. run (sexec log_panic 0) (pool0 []) [Serial () tick None, Other (WGet 0),
      Serial () boom None] = Some s \<and> \<not> fq_ShuttingDown (pqueue s)
      \<and> queue (delegate (pqueue s)) = [1] \<and> length (workers s) = 2"
    by (simp add: pool_eval submit_serial_def)
  ultimately show ?thesis using serial_submissions_enough_workers run_reach [of pinit] by metis
qed

text \<open>
  \<open>submitLock\<close> alone does not give that: a worker that takes its task between the
  load of \<open>numberFree\<close> and the call of \<open>queue.Len\<close> makes an unbounded pool leave a task
  queued behind its only worker, which is busy.
\<close>

theorem submission_race_leaves_task_waiting:
  "\<exists>s :: (unit, nat, nat, string, string, nat) pool.
     reach pinit (by_exec (pexec log_panic 0)) s \<and> maxNumberOfWorkers (config s) = None
     \<and> \<not> fq_ShuttingDown (pqueue s) \<and> submitting s = NoSubmit
     \<and> queue (delegate (pqueue s)) = [2] \<and> workers s = [WRun 1]"
proof -
  have "pinit (pool0 [])" by (rule pinit_pool0) simp
  moreover have "\<exists>s. run (pexec log_panic 0) (pool0 [])
      [PSubmit () tick, PCount, PStart, PEnqueue None, WGet 0, WDone 0 None, WCompute 0, WFree 0,
       PSubmit () tick, PCount, PLen, PStart, PEnqueue None,
       PSubmit () tick, PCount, WGet 0, PLen, WDone 0 None, PStart, PEnqueue None] = Some s
      \<and> maxNumberOfWorkers (config s) = None
      \<and> \<not> fq_ShuttingDown (pqueue s) \<and> submitting s = NoSubmit
      \<and> queue (delegate (pqueue s)) = [2] \<and> workers s = [WRun 1]"
    by (simp add: pool_eval tick_def)
  ultimately show ?thesis using run_reach [of pinit] by metis
qed

text \<open>
  A submission after the shutdown is never computed: \<open>queue.Add\<close> ignores the
  task, \<open>Submit\<close> still returns its future, and in every continuation that future has no
  result, so that every \<open>Get\<close> on it blocks forever.
\<close>

theorem late_submission_never_completes:
  assumes "reach pinit (by_exec (pexec handle zero)) s" and "fq_ShuttingDown (pqueue s)"
    and "pexec handle zero s (PEnqueue c) = Some t"
    and "path (by_exec (pexec handle zero)) t as u"
  shows "length (futures t) = Suc (length (futures s))
    \<and> Get_result (futures u ! length (futures s)) = None"
proof -
  have inv: "p_inv s" using assms(1) by (rule wp.inv_reach)
  then have "\<forall>p \<in> set (accepted s). p < length (futures s)"
    by (simp add: p_inv_def pool_task_inv_def)
  moreover have t: "length (futures t) = Suc (length (futures s))" "accepted t = accepted s"
    using assms(2,3) by (auto elim!: pexec_PEnqueue_cases)
  ultimately have "length (futures s) \<notin> set (accepted t)" by auto
  with refused_stays_refused [OF assms(4) p_inv_step [OF inv assms(3)], of "length (futures s)"] t(1)
  have "p_inv u" "length (futures s) < length (futures u)" "length (futures s) \<notin> set (accepted u)"
    by simp_all
  from refused_not_computed [OF this] t(1) show ?thesis by simp
qed

theorem late_submission_never_completes_witness:
  "\<exists>u :: (unit, nat, nat, string, string, nat) pool.
     pool_at_rest log_panic 0 u \<and> length (futures u) = 1 \<and> Get_result (futures u ! 0) = None"
proof -
  have init: "pinit (pool0 [])" by (rule pinit_pool0) simp
  have "\<exists>s t u. run (pexec log_panic 0) (pool0 []) [PCancel, PClose, PSubmit () tick, PCount, PStart] = Some s
      \<and> pexec log_panic 0 s (PEnqueue None) = Some t \<and> run (pexec log_panic 0) t [WGet 0] = Some u
      \<and> fq_ShuttingDown (pqueue s) \<and> length (futures s) = 0 \<and> length (futures u) = 1
      \<and> submitting u = NoSubmit \<and> workers u = [WStopped False]"
    by (simp add: pool_eval)
  then obtain s t u where run: "run (pexec log_panic 0) (pool0 [])
      [PCancel, PClose, PSubmit () tick, PCount, PStart] = Some s"
    "pexec log_panic 0 s (PEnqueue None) = Some t" "run (pexec log_panic 0) t [WGet 0] = Some u"
    and st: "fq_ShuttingDown (pqueue s)" "length (futures s) = 0" "length (futures u) = 1"
    "submitting u = NoSubmit" "workers u = [WStopped False]" by blast
  have "pexec log_panic 0 u a = None" if "pinternal a" for a
    using that st(4,5) by (cases a) (auto simp: pexec.simps less_Suc_eq nth_Cons')
  then have "pool_at_rest log_panic 0 u" by (simp add: pool_at_rest_def)
  with late_submission_never_completes [OF run_reach [of pinit, OF init run(1)] st(1) run(2)
      path_run [OF run(3)]] st show ?thesis by (intro exI [of _ u]) simp
qed

section \<open>No dangling pointers\<close>

text \<open>
  Claim C18: the heap of the pool is well formed. Every pointer that the queue lists, one of its two
  sets holds or a worker works on points to a wrapper object, whose future exists and
  is that of no other object; no pointer is both queued and held by a worker; the configured maximum, when there is one, is
  positive.
\<close>

theorem pool_well_formed:
  assumes "reach pinit (by_exec (pexec handle zero)) s"
  shows "length (cells (pqueue s)) = length (futures s)
    \<and> (\<forall>p. p \<in> set (queue (delegate (pqueue s)) @ tasks_of (workers s))
            \<or> p |\<in>| dirty (delegate (pqueue s)) |\<union>| processing (delegate (pqueue s))
          \<longrightarrow> p < length (cells (pqueue s)) \<and> underlyingFuture (cells (pqueue s) ! p) = p)
    \<and> distinct (queue (delegate (pqueue s)) @ tasks_of (workers s))
    \<and> (\<forall>m. maxNumberOfWorkers (config s) = Some m \<longrightarrow> 1 \<le> m)"
proof -
  have inv: "pool_task_inv s" "pool_count_inv s" "fq_inv (pqueue s)"
    using wp.inv_reach [OF assms] by (simp_all add: p_inv_def pool_queue_inv_def)
  have acc: "accepted s = taken s @ queue (delegate (pqueue s))" "distinct (accepted s)"
    and split: "mset (taken s) = mset (tasks_of (workers s)) + mset (computed s)"
    and len: "length (cells (pqueue s)) = length (futures s)"
    and refs: "\<forall>p \<in> set (accepted s). p < length (futures s)"
      "\<forall>p < length (cells (pqueue s)). underlyingFuture (cells (pqueue s) ! p) = p"
    using inv(1) unfolding pool_task_inv_def by blast+
  have sub: "set (tasks_of (workers s)) \<subseteq> set (taken s)"
    using arg_cong [OF split, of set_mset] by auto
  have "distinct (taken s)" using acc by simp
  then have "distinct (tasks_of (workers s) @ computed s)"
    by (rule mset_eq_imp_distinct_iff [THEN iffD1, rotated]) (simp add: split)
  with sub acc have "distinct (queue (delegate (pqueue s)) @ tasks_of (workers s))" by auto
  moreover have "p < length (cells (pqueue s)) \<and> underlyingFuture (cells (pqueue s) ! p) = p"
    if "p \<in> set (queue (delegate (pqueue s)) @ tasks_of (workers s))
      \<or> p |\<in>| dirty (delegate (pqueue s)) |\<union>| processing (delegate (pqueue s))" for p
  proof -
    from that have "p \<in> set (accepted s) \<or> p < length (cells (pqueue s))"
      using sub acc(1) inv(3) by (auto simp: fq_inv_def)
    with refs len show ?thesis by auto
  qed
  ultimately show ?thesis using len inv(2) by (auto simp: pool_count_inv_def)
qed

theorem pool_well_formed_witness:
  "\<exists>s :: (unit, nat, nat, string, string, nat) pool. reach pinit (by_exec (pexec log_panic 0)) s
     \<and> queue (delegate (pqueue s)) = [1] \<and> underlyingFuture (cells (pqueue s) ! 1) = 1"
proof -
  obtain s :: "(unit, nat, nat, string, string, nat) pool"
    where s: "reach pinit (by_exec (pexec log_panic 0)) s" "accepted s = [0, 1]" "taken s = [0]"
    by (rule one_done_reach) (auto intro: that)
  then have "queue (delegate (pqueue s)) = [1]"
    using wp.inv_reach [OF s(1)] by (simp add: p_inv_def pool_task_inv_def)
  with pool_well_formed [OF s(1)] s(1) show ?thesis by (intro exI [of _ s]) simp
qed

end
