(* ===== verification/Pool_Client.thy ===== *)
theory Pool_Client
  imports Pool_Service
begin

text \<open>
  The worker pool as its clients call it: \<open>Submit\<close> and \<open>Get\<close> as functions of the pool's
  state, for every scheduling of the workers. While a client waits (for \<open>submitLock\<close> or in
  \<open>Get\<close>) a scheduler chooses the next internal step; \<open>pick\<close> replaces a choice that is not
  possible by one that is, so every function is a scheduler. The calls return \<open>None\<close> when
  nothing more can happen, that is when the client would block forever. The locale
  \<open>supplier_pool\<close> is the contract the executors are written against, and it is interpreted on
  these functions.
\<close>

section \<open>Schedulers\<close>

definition possible_steps :: "('ctx, 'w, 'r, 'e, 'p, 'tag) pool \<Rightarrow> ('ctx, 'w, 'r, 'e, 'p) pact list" where
  "possible_steps s =
     (let is = [0..<length (workers s)]; cs = None # map Some is
      in [PCount, PLen, PStart] @ map PEnqueue cs @ map WGet is @ map WCompute is @ map WFree is
         @ concat (map (\<lambda>i. map (WDone i) cs) is))"

definition enabled :: "('ctx \<Rightarrow> 'p \<Rightarrow> 'w \<Rightarrow> 'e \<times> 'w) \<Rightarrow> 'r \<Rightarrow> ('ctx, 'w, 'r, 'e, 'p, 'tag) pool
    \<Rightarrow> ('ctx, 'w, 'r, 'e, 'p) pact \<Rightarrow> bool" where
  "enabled handle zero s a \<longleftrightarrow> pinternal a
     \<and> (case pexec handle zero s a of None \<Rightarrow> False | Some _ \<Rightarrow> True)"

definition pick :: "('ctx \<Rightarrow> 'p \<Rightarrow> 'w \<Rightarrow> 'e \<times> 'w) \<Rightarrow> 'r
    \<Rightarrow> (('ctx, 'w, 'r, 'e, 'p, 'tag) pool \<Rightarrow> ('ctx, 'w, 'r, 'e, 'p) pact)
    \<Rightarrow> ('ctx, 'w, 'r, 'e, 'p, 'tag) pool \<Rightarrow> ('ctx, 'w, 'r, 'e, 'p) pact option" where
  "pick handle zero sched s =
     (if enabled handle zero s (sched s) then Some (sched s)
      else List.find (enabled handle zero s) (possible_steps s))"

text \<open>Internal steps in the scheduler's order until \<open>until\<close> holds; the fuel bounds their number.\<close>

fun drive :: "('ctx \<Rightarrow> 'p \<Rightarrow> 'w \<Rightarrow> 'e \<times> 'w) \<Rightarrow> 'r
    \<Rightarrow> (('ctx, 'w, 'r, 'e, 'p, 'tag) pool \<Rightarrow> ('ctx, 'w, 'r, 'e, 'p) pact)
    \<Rightarrow> (('ctx, 'w, 'r, 'e, 'p, 'tag) pool \<Rightarrow> bool) \<Rightarrow> nat
    \<Rightarrow> ('ctx, 'w, 'r, 'e, 'p, 'tag) pool \<Rightarrow> ('ctx, 'w, 'r, 'e, 'p, 'tag) pool option" where
  "drive handle zero sched until 0 s = (if until s then Some s else None)"
| "drive handle zero sched until (Suc fuel) s =
     (if until s then Some s
      else case pick handle zero sched s of
          None \<Rightarrow> None
        | Some a \<Rightarrow>
            (case pexec handle zero s a of
               None \<Rightarrow> None
             | Some t \<Rightarrow> drive handle zero sched until fuel t))"

definition pool_Submit where
  "pool_Submit handle zero sched ctx sp s =
     (case pexec handle zero s (PSubmit ctx sp) of
        None \<Rightarrow> None
      | Some t \<Rightarrow> map_option (\<lambda>u. (length (futures u) - 1, u))
          (drive handle zero sched (\<lambda>u. case submitting u of NoSubmit \<Rightarrow> True | _ \<Rightarrow> False)
             (pool_rank t) t))"

definition pool_Get where
  "pool_Get handle zero sched (ctx :: 'ctx) f s =
     (case drive handle zero sched (\<lambda>u. Get_result (futures u ! f) \<noteq> None) (pool_rank s) s of
        None \<Rightarrow> None
      | Some u \<Rightarrow> map_option (\<lambda>r. (r, u)) (Get_result (futures u ! f)))"

lemma find_None_or: "List.find P xs = None \<longleftrightarrow> (\<forall>x \<in> set xs. \<not> P x)"
  by (induction xs) auto

lemma wake_workers_choice:
  assumes "wake_workers wk c ws = Some ws'"
  shows "c \<in> set (None # map Some [0..<length ws])"
  using assms by (cases wk; cases c) (auto simp: wake_workers_def wake_by_def split: if_splits)

lemma enabled_iff: "enabled handle zero s a \<longleftrightarrow> pinternal a \<and> pexec handle zero s a \<noteq> None"
  by (auto simp: enabled_def split: option.split)

lemma enabled_in_possible:
  assumes "enabled handle zero s a"
  shows "\<exists>b \<in> set (possible_steps s). enabled handle zero s b"
proof -
  from assms obtain t where t: "pexec handle zero s a = Some t" and int: "pinternal a"
    by (auto simp: enabled_iff)
  show ?thesis
  proof (cases a)
    case (WPanic i)
    with t have "i < length (workers s)" "workers s ! i = WMark" by (auto simp: pexec.simps split: if_splits)
    then show ?thesis
      by (intro bexI [of _ "WFree i"]) (auto simp: possible_steps_def Let_def enabled_iff pexec.simps)
  next
    case (PEnqueue c)
    with t obtain wk ws where "wake_workers wk c (workers s) = Some ws"
      by (auto elim: pexec_PEnqueue_cases)
    from wake_workers_choice [OF this] assms PEnqueue show ?thesis
      by (intro bexI [of _ a]) (auto simp: possible_steps_def Let_def)
  next
    case (WDone i c)
    with t obtain p wk ws where "i < length (workers s)"
      "wake_workers wk c ((workers s)[i := WRun p]) = Some ws"
      by (auto elim: pexec_WDone_cases)
    with wake_workers_choice [OF this(2)] assms WDone show ?thesis
      by (intro bexI [of _ a]) (auto simp: possible_steps_def Let_def)
  qed (use assms t int in \<open>auto simp: possible_steps_def Let_def pexec.simps
         split: if_splits intro!: bexI [of _ a]\<close>)
qed

lemma pick_enabled: "pick handle zero sched s = Some a \<Longrightarrow> enabled handle zero s a"
  by (auto simp: pick_def find_Some_iff split: if_splits)

lemma pick_None:
  assumes "pick handle zero sched s = None"
  shows "pool_at_rest handle zero s"
proof -
  from assms have "\<forall>b \<in> set (possible_steps s). \<not> enabled handle zero s b"
    by (simp add: pick_def find_None_or split: if_splits)
  then have "\<not> enabled handle zero s a" for a
    using enabled_in_possible [of handle zero s a] by blast
  then show ?thesis by (simp add: pool_at_rest_def enabled_iff)
qed

text \<open>
  With the rank as fuel, \<open>drive\<close> ends in a state that satisfies \<open>until\<close>, when every state
  at rest does.
\<close>

lemma drive_stops:
  fixes J :: "('ctx, 'w, 'r, 'e, 'p, 'tag) pool \<Rightarrow> bool"
  assumes "\<And>s a t. J s \<Longrightarrow> pexec handle zero s a = Some t \<Longrightarrow> pinternal a \<Longrightarrow> J t"
    and "\<And>s. J s \<Longrightarrow> p_inv s"
    and "\<And>s. J s \<Longrightarrow> pool_at_rest handle zero s \<Longrightarrow> until s"
  shows "J s \<Longrightarrow> pool_rank s \<le> fuel \<Longrightarrow>
    \<exists>t. drive handle zero sched until fuel s = Some t \<and> until t \<and> J t"
proof (induction fuel arbitrary: s)
  case 0
  have "pool_at_rest handle zero s"
    unfolding pool_at_rest_def
  proof (intro allI impI)
    fix a :: "('ctx, 'w, 'r, 'e, 'p) pact"
    assume "pinternal a"
    then show "pexec handle zero s a = None"
      using pool_rank_step [OF assms(2) [OF 0(1)], of handle zero a] 0(2)
      by (cases "pexec handle zero s a") auto
  qed
  with 0 assms(3) show ?case by auto
next
  case (Suc fuel)
  show ?case
  proof (cases "until s")
    case False
    with assms(3) [OF Suc.prems(1)] obtain a where a: "pick handle zero sched s = Some a"
      using pick_None by (metis not_None_eq)
    from pick_enabled [OF this] obtain t where t: "pexec handle zero s a = Some t" "pinternal a"
      by (auto simp: enabled_iff)
    have "pool_rank t \<le> fuel"
      using pool_rank_step [OF assms(2) [OF Suc.prems(1)] t] Suc.prems(2) by simp
    from Suc.IH [OF assms(1) [OF Suc.prems(1) t] this] False a t show ?thesis by simp
  qed (use Suc in auto)
qed

section \<open>What internal steps keep\<close>

definition promised :: "('ctx, 'w, 'r, 'e, 'p, 'tag) pool \<Rightarrow> nat
    \<Rightarrow> ('ctx \<times> ('ctx, 'w, 'r, 'e, 'p) supplier) option" where
  "promised s f = (if f < length (futures s)
     then Some (contextToRunFutureWith (cells (pqueue s) ! f), supplier (futures s ! f)) else None)"

definition answer :: "('ctx, 'w, 'r, 'e, 'p, 'tag) pool \<Rightarrow> nat \<Rightarrow> ('r, 'e) result option" where
  "answer s f = (if f < length (futures s) then Get_result (futures s ! f) else None)"

text \<open>An open pool that is between submissions has accepted all the tasks it was given.\<close>

definition open_inv :: "('ctx \<Rightarrow> 'p \<Rightarrow> 'w \<Rightarrow> 'e \<times> 'w) \<Rightarrow> 'r \<Rightarrow> ('ctx, 'w, 'r, 'e, 'p, 'tag) pool \<Rightarrow> bool" where
  "open_inv handle zero s \<longleftrightarrow> p_inv s \<and> pool_result_inv handle zero s
     \<and> \<not> shuttingDown (delegate (pqueue s)) \<and> (\<forall>f < length (futures s). f \<in> set (accepted s))"

definition pool_ok :: "('ctx \<Rightarrow> 'p \<Rightarrow> 'w \<Rightarrow> 'e \<times> 'w) \<Rightarrow> 'r \<Rightarrow> ('ctx, 'w, 'r, 'e, 'p, 'tag) pool \<Rightarrow> bool" where
  "pool_ok handle zero s \<longleftrightarrow> open_inv handle zero s \<and> submitting s = NoSubmit"

lemma internal_keeps_open:
  assumes "p_inv s" and "pexec handle zero s a = Some t" and "a \<noteq> PClose"
  shows "shuttingDown (delegate (pqueue t)) = shuttingDown (delegate (pqueue s))"
proof (cases a)
  case (WDone i c)
  with assms show ?thesis
    by (auto elim!: pexec_WDone_cases dest!: fq_mark_done_wake) (metis cq_Done_frame(2) snd_conv)+
next
  case (PEnqueue c)
  with assms show ?thesis
    by (auto elim!: pexec_PEnqueue_cases dest!: fq_Add_wake) (metis cq_Add_frame(2) snd_conv)+
next
  case (WGet i)
  with assms show ?thesis
    by (cases "queue (delegate (pqueue s))")
      (auto elim!: pexec_WGet_cases simp: worker_get_empty worker_get_item)
next
  case (WCompute i)
  with assms show ?thesis by (auto elim!: pexec_WCompute_cases)
qed (use assms in \<open>auto simp: pexec.simps startWorkerAsync_def split: submission.splits if_splits\<close>)

lemma pexec_keeps_futures:
  assumes "p_inv s" and "pexec handle zero s a = Some t" and "\<And>c. a \<noteq> PEnqueue c"
  shows "cells (pqueue t) = cells (pqueue s) \<and> accepted t = accepted s
    \<and> length (futures t) = length (futures s)
    \<and> (\<forall>f < length (futures s). supplier (futures t ! f) = supplier (futures s ! f))
    \<and> (\<forall>f < length (futures s). \<forall>r. Get_result (futures s ! f) = Some r
        \<longrightarrow> Get_result (futures t ! f) = Some r)"
proof (cases a)
  case (WCompute i)
  with assms(2) obtain p where st: "i < length (workers s)" "workers s ! i = WRun p"
    and t: "t = worker_compute handle zero i p s" by (auto elim: pexec_WCompute_cases)
  have "pool_task_inv s" using assms(1) by (simp add: p_inv_def)
  note r = pool_task_WRun [OF this st(1), of p, unfolded st(2) has_task.simps, OF refl]
  have "futures t = (futures s)[p := fst (snd (Compute handle zero
      (contextToRunFutureWith (cells (pqueue s) ! p)) (futures s ! p) (world s)))]"
    using worker_compute_futures [OF r(3) [symmetric] refl] by (simp add: t)
  then show ?thesis by (auto simp: t nth_update Compute_result)
next
  case (WGet i)
  with assms show ?thesis
    by (cases "queue (delegate (pqueue s))")
      (auto elim!: pexec_WGet_cases simp: worker_get_empty worker_get_item)
next
  case (WDone i c)
  with assms show ?thesis by (auto elim!: pexec_WDone_cases dest!: fq_mark_done_wake)
next
  case PClose
  with assms show ?thesis by (auto elim!: pexec_PClose_cases)
qed (use assms in \<open>auto simp: pexec.simps startWorkerAsync_def split: submission.splits if_splits\<close>)

lemma open_inv_step:
  assumes inv: "open_inv handle zero s" and step: "pexec handle zero s a = Some t" and a: "pinternal a"
  shows "open_inv handle zero t"
proof -
  have p: "p_inv s" "pool_task_inv s" using inv by (simp_all add: open_inv_def p_inv_def)
  have "\<forall>f < length (futures t). f \<in> set (accepted t)"
  proof (cases "\<exists>c. a = PEnqueue c")
    case True
    with step inv p(2) show ?thesis
      by (auto elim!: pexec_PEnqueue_cases
          simp: open_inv_def fq_ShuttingDown_def cq_ShuttingDown_def pool_task_inv_def less_Suc_eq)
  next
    case False
    with pexec_keeps_futures [OF p(1) step] inv show ?thesis by (auto simp: open_inv_def)
  qed
  moreover have "a \<noteq> PClose" using a by auto
  ultimately show ?thesis
    using inv p_inv_step [OF p(1) step] pool_result_step [OF _ p(2) step]
      internal_keeps_open [OF p(1) step]
    by (simp add: open_inv_def)
qed

lemma open_at_rest:
  assumes "open_inv handle zero s" and "pool_at_rest handle zero s" and "f < length (futures s)"
  shows "Get_result (futures s ! f) \<noteq> None"
proof -
  from assms have f: "f \<in> set (accepted s)" and p: "p_inv s"
    and "WDied \<notin> set (workers s)"
    by (auto simp: open_inv_def p_inv_def pool_stop_inv_def)
  moreover from f have "accepted s \<noteq> []" by (cases "accepted s") auto
  then have "workers s \<noteq> []" by (rule accepted_has_workers [OF p])
  ultimately have "\<exists>g \<in> set (workers s). g \<noteq> WDied" by (cases "workers s") auto
  from at_rest_computed [OF p assms(2) this f] show ?thesis .
qed

text \<open>
  The progress of one submission: until it ends the promises are those before it, then the
  new future is added to them.
\<close>

fun in_submission :: "'ctx \<Rightarrow> ('ctx, 'w, 'r, 'e, 'p) supplier \<Rightarrow> ('ctx, 'w, 'r, 'e, 'p) submission \<Rightarrow> bool" where
  "in_submission ctx sp NoSubmit \<longleftrightarrow> False"
| "in_submission ctx sp (Loaded c x _) \<longleftrightarrow> c = ctx \<and> x = sp"
| "in_submission ctx sp (AskLen c x _) \<longleftrightarrow> c = ctx \<and> x = sp"
| "in_submission ctx sp (Decided c x _) \<longleftrightarrow> c = ctx \<and> x = sp"
| "in_submission ctx sp (Ready c x) \<longleftrightarrow> c = ctx \<and> x = sp"

definition submission_inv where
  "submission_inv handle zero s0 ctx sp s \<longleftrightarrow> open_inv handle zero s
     \<and> (\<forall>f r. answer s0 f = Some r \<longrightarrow> answer s f = Some r)
     \<and> (in_submission ctx sp (submitting s) \<and> promised s = promised s0
          \<and> length (futures s) = length (futures s0)
        \<or> submitting s = NoSubmit \<and> length (futures s) = Suc (length (futures s0))
          \<and> promised s = (promised s0)(length (futures s0) \<mapsto> (ctx, sp)))"

definition waiting_inv where
  "waiting_inv handle zero s0 s \<longleftrightarrow> pool_ok handle zero s \<and> promised s = promised s0
     \<and> length (futures s) = length (futures s0)
     \<and> (\<forall>f r. answer s0 f = Some r \<longrightarrow> answer s f = Some r)"

lemma promised_keep:
  assumes "p_inv s" and "pexec handle zero s a = Some t" and "\<And>c. a \<noteq> PEnqueue c"
  shows "promised t = promised s" "answer s f = Some r \<Longrightarrow> answer t f = Some r"
    "length (futures t) = length (futures s)"
proof -
  note k = pexec_keeps_futures [OF assms]
  then show "promised t = promised s" by (auto simp: promised_def fun_eq_iff)
  show "length (futures t) = length (futures s)" using k by blast
  show "answer t f = Some r" if "answer s f = Some r"
    using k that unfolding answer_def by metis
qed

lemma pexec_submitting:
  assumes "pexec handle zero s a = Some t" and "pinternal a" and "\<And>c. a \<noteq> PEnqueue c"
  shows "(in_submission ctx sp (submitting s) \<longrightarrow> in_submission ctx sp (submitting t))
    \<and> (submitting s = NoSubmit \<longrightarrow> submitting t = NoSubmit)"
proof (cases "of_submission a")
  case False
  with pexec_keeps_NoSubmit [OF assms(1)] show ?thesis by simp
next
  case True
  with assms show ?thesis
    by (cases a) (auto simp: pexec.simps startWorkerAsync_def split: submission.splits option.splits)
qed

lemma submission_inv_step:
  assumes inv: "submission_inv handle zero s0 ctx sp s" and step: "pexec handle zero s a = Some t"
    and a: "pinternal a"
  shows "submission_inv handle zero s0 ctx sp t"
proof -
  have o: "open_inv handle zero s" "p_inv s" "pool_task_inv s"
    using inv by (simp_all add: submission_inv_def open_inv_def p_inv_def)
  have t: "open_inv handle zero t" by (rule open_inv_step [OF o(1) step a])
  show ?thesis
  proof (cases "\<exists>c. a = PEnqueue c")
    case True
    then obtain c where "a = PEnqueue c" ..
    with step obtain ctx' sp' wk q where sub: "submitting s = Ready ctx' sp'"
      and add: "fq_Add \<lparr>contextToRunFutureWith = ctx', underlyingFuture = length (futures s)\<rparr> (pqueue s) = (wk, q)"
      and f: "futures t = futures s @ [NewDefaultComputingFuture sp']" "pqueue t = q"
        "submitting t = NoSubmit"
      by (auto elim!: pexec_PEnqueue_cases)
    have len: "length (cells (pqueue s)) = length (futures s)"
      using o(3) by (simp add: pool_task_inv_def)
    have "promised t = (promised s)(length (futures s) \<mapsto> (ctx', sp'))"
      using fq_Add_wake [OF add] len
      by (auto simp: promised_def fun_eq_iff f nth_append NewDefaultComputingFuture_def)
    moreover have "\<And>k r. answer s k = Some r \<Longrightarrow> answer t k = Some r"
      by (auto simp: answer_def f nth_append split: if_splits)
    ultimately show ?thesis
      using inv sub t f by (auto simp: submission_inv_def)
  next
    case False
    then have ne: "\<And>c. a \<noteq> PEnqueue c" by blast
    note k = promised_keep [OF o(2) step ne]
    from inv pexec_submitting [OF step a ne, of ctx sp] t k show ?thesis
      by (auto simp: submission_inv_def)
  qed
qed

lemma waiting_inv_step:
  assumes inv: "waiting_inv handle zero s0 s" and step: "pexec handle zero s a = Some t"
    and a: "pinternal a"
  shows "waiting_inv handle zero s0 t"
proof -
  have o: "open_inv handle zero s" "p_inv s" "submitting s = NoSubmit"
    using inv by (simp_all add: waiting_inv_def pool_ok_def open_inv_def)
  have ne: "\<And>c. a \<noteq> PEnqueue c" using step o(3) by (auto elim!: pexec_PEnqueue_cases)
  note k = promised_keep [OF o(2) step ne]
  from inv pexec_submitting [OF step a ne] open_inv_step [OF o(1) step a] k o(3) show ?thesis
    by (auto simp: waiting_inv_def pool_ok_def)
qed

section \<open>The contract of a pool\<close>

text \<open>
  A pool promises a fresh future for a submitted task; waiting for it ends with an
  answer that the task can give, and answers do not change.
\<close>

locale supplier_pool =
  fixes submit :: "'ctx \<Rightarrow> 'task \<Rightarrow> 's \<Rightarrow> ('f \<times> 's) option"
    and get :: "'ctx \<Rightarrow> 'f \<Rightarrow> 's \<Rightarrow> ('res \<times> 's) option"
    and ok :: "'s \<Rightarrow> bool" and promise :: "'s \<Rightarrow> 'f \<Rightarrow> ('ctx \<times> 'task) option"
    and answers :: "'s \<Rightarrow> 'f \<Rightarrow> 'res option" and gives :: "'ctx \<Rightarrow> 'task \<Rightarrow> 'res \<Rightarrow> bool"
  assumes submit_ok: "ok s \<Longrightarrow> \<exists>f s'. submit ctx task s = Some (f, s') \<and> ok s'
      \<and> promise s f = None \<and> promise s' = (promise s)(f \<mapsto> (ctx, task))
      \<and> (\<forall>g r. answers s g = Some r \<longrightarrow> answers s' g = Some r)"
    and get_ok: "ok s \<Longrightarrow> promise s f = Some (c, task) \<Longrightarrow> \<exists>r s'. get ctx f s = Some (r, s') \<and> ok s'
      \<and> promise s' = promise s \<and> answers s' f = Some r \<and> gives c task r
      \<and> (\<forall>g r. answers s g = Some r \<longrightarrow> answers s' g = Some r)"

definition gives_result :: "('ctx \<Rightarrow> 'p \<Rightarrow> 'w \<Rightarrow> 'e \<times> 'w) \<Rightarrow> 'r \<Rightarrow> 'ctx \<Rightarrow> ('ctx, 'w, 'r, 'e, 'p) supplier
    \<Rightarrow> ('r, 'e) result \<Rightarrow> bool" where
  "gives_result handle zero ctx sp r \<longleftrightarrow> (\<exists>w. r = fst (supplied handle zero sp ctx w))"

lemma pool_Submit_ok:
  assumes "pool_ok handle zero s"
  shows "\<exists>f s'. pool_Submit handle zero sched ctx sp s = Some (f, s') \<and> pool_ok handle zero s'
    \<and> promised s f = None \<and> promised s' = (promised s)(f \<mapsto> (ctx, sp))
    \<and> (\<forall>g r. answer s g = Some r \<longrightarrow> answer s' g = Some r)"
proof -
  let ?until = "\<lambda>u. case submitting u of NoSubmit \<Rightarrow> True | _ \<Rightarrow> False"
  let ?t = "s\<lparr>submitting := Loaded ctx sp (numberFree s)\<rparr>"
  have t: "pexec handle zero s (PSubmit ctx sp) = Some ?t"
    using assms by (simp add: pexec.simps pool_ok_def)
  have "p_inv ?t" using assms p_inv_step [OF _ t] by (simp add: pool_ok_def open_inv_def)
  then have start: "submission_inv handle zero s ctx sp ?t"
    using assms
    by (simp add: submission_inv_def pool_ok_def open_inv_def pool_result_inv_def promised_def
        answer_def fun_eq_iff)
  have "\<exists>u. drive handle zero sched ?until (pool_rank ?t) ?t = Some u \<and> ?until u
      \<and> submission_inv handle zero s ctx sp u"
  proof (rule drive_stops [where J = "submission_inv handle zero s ctx sp"])
    show "submission_inv handle zero s ctx sp v"
      if "submission_inv handle zero s ctx sp u" "pexec handle zero u a = Some v" "pinternal a" for u a v
      using that by (rule submission_inv_step)
    show "p_inv u" if "submission_inv handle zero s ctx sp u" for u
      using that by (simp add: submission_inv_def open_inv_def)
    show "?until u" if "pool_at_rest handle zero u" for u
      using at_rest_submission [OF that] by simp
  qed (rule start, rule order.refl)
  then obtain u where u: "drive handle zero sched ?until (pool_rank ?t) ?t = Some u"
    "?until u" "submission_inv handle zero s ctx sp u" by blast
  from u(2) have "submitting u = NoSubmit" by (cases "submitting u") simp_all
  with u(1,3) t show ?thesis
    by (auto simp: pool_Submit_def submission_inv_def pool_ok_def promised_def)
qed

lemma pool_Get_ok:
  assumes "pool_ok handle zero s" and "promised s f = Some (c, sp)"
  shows "\<exists>r s'. pool_Get handle zero sched ctx f s = Some (r, s') \<and> pool_ok handle zero s'
    \<and> promised s' = promised s \<and> answer s' f = Some r \<and> gives_result handle zero c sp r
    \<and> (\<forall>g r. answer s g = Some r \<longrightarrow> answer s' g = Some r)"
proof -
  let ?until = "\<lambda>u. Get_result (futures u ! f) \<noteq> None"
  have f: "f < length (futures s)" using assms(2) by (simp add: promised_def split: if_splits)
  have start: "waiting_inv handle zero s s" using assms(1) by (simp add: waiting_inv_def)
  have "\<exists>u. drive handle zero sched ?until (pool_rank s) s = Some u \<and> ?until u
      \<and> waiting_inv handle zero s u"
  proof (rule drive_stops [where J = "waiting_inv handle zero s"])
    show "waiting_inv handle zero s v"
      if "waiting_inv handle zero s u" "pexec handle zero u a = Some v" "pinternal a" for u a v
      using that by (rule waiting_inv_step)
    show "p_inv u" if "waiting_inv handle zero s u" for u
      using that by (simp add: waiting_inv_def pool_ok_def open_inv_def)
    show "?until u" if "waiting_inv handle zero s u" "pool_at_rest handle zero u" for u
      using that f by (intro open_at_rest [of handle zero]) (auto simp: waiting_inv_def pool_ok_def)
  qed (rule start, rule order.refl)
  then obtain u where u: "drive handle zero sched ?until (pool_rank s) s = Some u"
    "?until u" "waiting_inv handle zero s u" by blast
  from u(2) obtain r where r: "Get_result (futures u ! f) = Some r" by blast
  have len: "length (futures u) = length (futures s)" "promised u = promised s"
    using u(3) by (simp_all add: waiting_inv_def)
  then have "promised u f = Some (c, sp)" using assms(2) by simp
  then have "contextToRunFutureWith (cells (pqueue u) ! f) = c" "supplier (futures u ! f) = sp"
    by (simp_all add: promised_def split: if_splits)
  moreover have "pool_result_inv handle zero u"
    using u(3) by (simp add: waiting_inv_def pool_ok_def open_inv_def)
  ultimately have "gives_result handle zero c sp r"
    using r f len unfolding pool_result_inv_def gives_result_def by metis
  with u r f len show ?thesis
    by (auto simp: pool_Get_def waiting_inv_def answer_def)
qed

interpretation pc: supplier_pool "pool_Submit handle zero sched" "pool_Get handle zero sched"
  "pool_ok handle zero" promised answer "gives_result handle zero"
  by unfold_locales (erule pool_Submit_ok, erule (1) pool_Get_ok)

lemma pool_ok_New:
  "\<forall>opt \<in> set opts. is_option opt \<Longrightarrow> pool_ok handle zero (NewDefaultSupplierWorkerPool opts w)"
  using p_inv_init [of "NewDefaultSupplierWorkerPool opts w"]
  by (auto simp: pool_ok_def open_inv_def pinit_def)
    (auto simp: NewDefaultSupplierWorkerPool_def pool_result_inv_def NewQueue_def NewCollapsingQueue_def)

end
