(* ===== verification/Pool_Wrappers.thy ===== *)
theory Pool_Wrappers
  imports Pool_Client
begin

text \<open>
  \<open>SubmitWithCallback\<close> and the pools that adapt a supplier pool: \<open>runnable_workerpool.go\<close>,
  \<open>function_workerpool.go\<close> and \<open>consumer_workerpool.go\<close>. Each operation is the underlying
  pool's \<open>Submit\<close>, an argument here, on an adapted supplier, so what it promises is what
  running that supplier means; the callbacks may panic like any client code.
\<close>

type_synonym ('ctx, 'w, 'r, 'e, 'p) on_complete = "'ctx \<Rightarrow> 'r \<Rightarrow> 'e option \<Rightarrow> ('w, unit, 'p) go"

section \<open>The supplier pool's SubmitWithCallback\<close>

definition with_callback ::
  "('ctx, 'w, 'r, 'e, 'p) supplier \<Rightarrow> ('ctx, 'w, 'r, 'e, 'p) on_complete \<Rightarrow> ('ctx, 'w, 'r, 'e, 'p) supplier" where
  "with_callback s onComplete = NewSupplierFromFunc (\<lambda>ctx.
     go_bind (s ctx) (\<lambda>(result, err).
     go_bind (onComplete ctx result err) (\<lambda>_. go_return (result, err))))"

definition SubmitWithCallback ::
  "('ctx \<Rightarrow> ('ctx, 'w, 'r, 'e, 'p) supplier \<Rightarrow> 's \<Rightarrow> ('f \<times> 's) option) \<Rightarrow> 'ctx
     \<Rightarrow> ('ctx, 'w, 'r, 'e, 'p) supplier \<Rightarrow> ('ctx, 'w, 'r, 'e, 'p) on_complete \<Rightarrow> 's \<Rightarrow> 's option" where
  "SubmitWithCallback submit ctx s onComplete st =
     map_option snd (submit ctx (with_callback s onComplete) st)"

section \<open>The runnable pool\<close>

definition supplier_of_runnable ::
  "('ctx, 'w, 'e, 'p) runnable \<Rightarrow> ('ctx, 'w, unit, 'e, 'p) supplier" where
  "supplier_of_runnable r = NewSupplierFromFunc (\<lambda>ctx. go_bind (r ctx) (\<lambda>err. go_return ((), err)))"

definition runnable_Submit ::
  "('ctx \<Rightarrow> ('ctx, 'w, unit, 'e, 'p) supplier \<Rightarrow> 's \<Rightarrow> ('f \<times> 's) option) \<Rightarrow> 'ctx
     \<Rightarrow> ('ctx, 'w, 'e, 'p) runnable \<Rightarrow> 's \<Rightarrow> ('f \<times> 's) option" where
  "runnable_Submit submit ctx r = submit ctx (supplier_of_runnable r)"

definition runnable_SubmitWithCallback ::
  "('ctx \<Rightarrow> ('ctx, 'w, unit, 'e, 'p) supplier \<Rightarrow> 's \<Rightarrow> ('f \<times> 's) option) \<Rightarrow> 'ctx
     \<Rightarrow> ('ctx, 'w, 'e, 'p) runnable \<Rightarrow> ('ctx \<Rightarrow> 'e option \<Rightarrow> ('w, unit, 'p) go) \<Rightarrow> 's \<Rightarrow> 's option" where
  "runnable_SubmitWithCallback submit ctx r onComplete =
     SubmitWithCallback submit ctx (supplier_of_runnable r) (\<lambda>ctx _ err. onComplete ctx err)"

section \<open>The function pool\<close>

definition function_Submit ::
  "('ctx \<Rightarrow> ('ctx, 'w, 'r, 'e, 'p) supplier \<Rightarrow> 's \<Rightarrow> ('f \<times> 's) option)
     \<Rightarrow> ('ctx, 'w, 'a, 'r, 'e, 'p) gofunction \<Rightarrow> 'ctx \<Rightarrow> 'a \<Rightarrow> 's \<Rightarrow> ('f \<times> 's) option" where
  "function_Submit submit func ctx arg = submit ctx (NewSupplierFromFunction arg func)"

definition function_SubmitWithCallback ::
  "('ctx \<Rightarrow> ('ctx, 'w, 'r, 'e, 'p) supplier \<Rightarrow> 's \<Rightarrow> ('f \<times> 's) option)
     \<Rightarrow> ('ctx, 'w, 'a, 'r, 'e, 'p) gofunction \<Rightarrow> 'ctx \<Rightarrow> 'a
     \<Rightarrow> ('ctx \<Rightarrow> 'a \<Rightarrow> 'r \<Rightarrow> 'e option \<Rightarrow> ('w, unit, 'p) go) \<Rightarrow> 's \<Rightarrow> 's option" where
  "function_SubmitWithCallback submit func ctx arg onComplete =
     SubmitWithCallback submit ctx (NewSupplierFromFunction arg func)
       (\<lambda>ctx r err. onComplete ctx arg r err)"

section \<open>The consumer pool\<close>

definition consumer_Submit ::
  "('ctx \<Rightarrow> ('ctx, 'w, unit, 'e, 'p) supplier \<Rightarrow> 's \<Rightarrow> ('f \<times> 's) option)
     \<Rightarrow> ('ctx, 'w, 'a, 'e, 'p) consumer \<Rightarrow> 'ctx \<Rightarrow> 'a \<Rightarrow> 's \<Rightarrow> ('f \<times> 's) option" where
  "consumer_Submit submit consumer ctx arg =
     runnable_Submit submit ctx (NewRunnableFromConsumer arg consumer)"

definition consumer_runnable ::
  "('ctx, 'w, 'a, 'e, 'p) consumer \<Rightarrow> 'a \<Rightarrow> ('ctx \<Rightarrow> 'a \<Rightarrow> 'e option \<Rightarrow> ('w, unit, 'p) go)
     \<Rightarrow> ('ctx, 'w, 'e, 'p) runnable" where
  "consumer_runnable consumer arg onComplete = NewRunnableFromFunc (\<lambda>ctx.
     go_bind (consumer ctx arg) (\<lambda>err.
     go_bind (onComplete ctx arg err) (\<lambda>_. go_return err)))"

definition consumer_SubmitWithCallback ::
  "('ctx \<Rightarrow> ('ctx, 'w, unit, 'e, 'p) supplier \<Rightarrow> 's \<Rightarrow> ('f \<times> 's) option)
     \<Rightarrow> ('ctx, 'w, 'a, 'e, 'p) consumer \<Rightarrow> 'ctx \<Rightarrow> 'a
     \<Rightarrow> ('ctx \<Rightarrow> 'a \<Rightarrow> 'e option \<Rightarrow> ('w, unit, 'p) go) \<Rightarrow> 's \<Rightarrow> 's option" where
  "consumer_SubmitWithCallback submit consumer ctx arg onComplete st =
     map_option snd (runnable_Submit submit ctx (consumer_runnable consumer arg onComplete) st)"

section \<open>What running the adapted suppliers means\<close>

text \<open>
  A call followed by a callback: the callback sees the result of a call that returned, a
  panicking call skips it, and a panic of the callback takes the place of the result.
\<close>

definition then_callback ::
  "('w, ('r, 'e) result, 'p) go \<Rightarrow> ('r \<Rightarrow> 'e option \<Rightarrow> ('w, unit, 'p) go) \<Rightarrow> ('w, ('r, 'e) result, 'p) go" where
  "then_callback m cb w =
     (case m w of
        (Panic p, w1) \<Rightarrow> (Panic p, w1)
      | (Ret (r, e), w1) \<Rightarrow>
          (case cb r e w1 of
             (Panic p, w2) \<Rightarrow> (Panic p, w2)
           | (Ret _, w2) \<Rightarrow> (Ret (r, e), w2)))"

lemma with_callback_run: "with_callback s cb ctx = then_callback (s ctx) (cb ctx)"
  by (rule ext)
    (simp add: with_callback_def then_callback_def go_bind_def go_return_def
      split: prod.split outcome.split)

lemma supplier_of_runnable_run:
  "supplier_of_runnable r ctx w =
     (case r ctx w of (Panic p, w1) \<Rightarrow> (Panic p, w1) | (Ret err, w1) \<Rightarrow> (Ret ((), err), w1))"
  by (simp add: supplier_of_runnable_def go_bind_def go_return_def split: prod.split outcome.split)

lemma supplier_of_runnable_error_only: "error_only (supplier_of_runnable r ctx) = r ctx"
  by (rule ext) (simp add: error_only_def supplier_of_runnable_run split: prod.split outcome.split)

lemma consumer_runnable_run:
  "supplier_of_runnable (consumer_runnable consumer arg cb) ctx =
     then_callback (supplier_of_runnable (NewRunnableFromConsumer arg consumer) ctx) (\<lambda>_. cb ctx arg)"
  by (rule ext)
    (simp add: consumer_runnable_def supplier_of_runnable_run then_callback_def go_bind_def
      go_return_def split: prod.split outcome.split)

section \<open>Properties\<close>

text \<open>
  The three adapted pools submit to the underlying pool exactly once, a supplier
  that runs the client's runnable, function or consumer once with the submitted argument and, for
  \<open>SubmitWithCallback\<close>, then the callback with its result: the callback runs exactly once when
  the task returns and not at all when the task panics.
\<close>

theorem pool_adaptors:
  "runnable_Submit submit ctx r st = submit ctx (supplier_of_runnable r) st
   \<and> error_only (supplier_of_runnable r ctx) = r ctx
   \<and> runnable_SubmitWithCallback submit ctx r cb st = map_option snd
       (submit ctx (\<lambda>c. then_callback (supplier_of_runnable r c) (\<lambda>_. cb c)) st)
   \<and> function_Submit submitF func ctx arg st = submitF ctx (\<lambda>c. func c arg) st
   \<and> function_SubmitWithCallback submitF func ctx arg cbF st = map_option snd
       (submitF ctx (\<lambda>c. then_callback (func c arg) (cbF c arg)) st)
   \<and> consumer_Submit submit consumer ctx arg st =
       submit ctx (supplier_of_runnable (\<lambda>c. consumer c arg)) st
   \<and> consumer_SubmitWithCallback submit consumer ctx arg cbC st = map_option snd
       (submit ctx (\<lambda>c. then_callback (supplier_of_runnable (\<lambda>c. consumer c arg) c) (\<lambda>_. cbC c arg)) st)"
proof -
  have s: "NewSupplierFromFunction arg func = (\<lambda>c. func c arg)" by (rule ext) simp
  have c: "NewRunnableFromConsumer arg consumer = (\<lambda>c. consumer c arg)" by (rule ext) simp
  have w: "with_callback s cb = (\<lambda>c. then_callback (s c) (cb c))" for s cb
    by (rule ext) (rule with_callback_run)
  have k: "supplier_of_runnable (consumer_runnable consumer arg cbC) =
      (\<lambda>c. then_callback (supplier_of_runnable (\<lambda>c. consumer c arg) c) (\<lambda>_. cbC c arg))"
    by (rule ext) (simp only: consumer_runnable_run c)
  show ?thesis
    by (simp only: runnable_Submit_def supplier_of_runnable_error_only
        runnable_SubmitWithCallback_def SubmitWithCallback_def w function_Submit_def s
        function_SubmitWithCallback_def consumer_Submit_def c consumer_SubmitWithCallback_def k)
qed

text \<open>
  A consumer that panics never has its callback called: the future gets the error of
  the panic, but whoever relies on the callback (the item submitter marks its queue element done
  there) is not told.
\<close>

theorem panic_skips_callback:
  assumes "consumer ctx arg w = (Panic p, w1)"
  shows "supplied handle () (supplier_of_runnable (consumer_runnable consumer arg cb)) ctx w
      = (((), Some (fst (handle ctx p w1))), snd (handle ctx p w1))"
  using assms
  by (simp add: consumer_runnable_run then_callback_def supplier_of_runnable_run supplied_def
      split_beta)

theorem panic_skips_callback_witness:
  "\<exists>w2. supplied (\<lambda>_ p w. (p, w)) () (supplier_of_runnable (consumer_runnable
      (\<lambda>_ (a::nat) (w::nat). (Panic ''boom'', w + a)) 5 (\<lambda>_ _ _ w. (Ret (), w + 100)))) () 1
     = (((), Some ''boom''), w2) \<and> w2 = 6"
  using panic_skips_callback [of "\<lambda>_ (a::nat) (w::nat). (Panic ''boom'', w + a)" "()" 5 1 "''boom''" 6
      "\<lambda>_ p w. (p, w)" "\<lambda>_ _ _ w. (Ret (), w + 100)"] by simp

end
