(* ===== verification/Executors.thy ===== *)
theory Executors
  imports Pool_Wrappers
begin

text \<open>
  The executors of \<open>executor/\<close>: \<open>supplier_executor.go\<close>, \<open>runnable_executor.go\<close>,
  \<open>keyed_supplier_executor.go\<close> and \<open>keyed_function_executor.go\<close>. They submit all their tasks
  to a pool and then wait for the futures in turn. The pool's \<open>Submit\<close> and \<open>Get\<close> are
  arguments; what the executors return is proved in the locale \<open>supplier_pool\<close> and holds for
  the worker pool, under every scheduling of its workers, by the interpretation in
  \<open>Pool_Client\<close>.
\<close>

section \<open>The supplier executor\<close>

definition getFuture ::
  "('ctx \<Rightarrow> 'task \<Rightarrow> 's \<Rightarrow> ('f \<times> 's) option) \<Rightarrow> 'ctx \<Rightarrow> 'task \<Rightarrow> 's \<Rightarrow> ('f \<times> 's) option" where
  "getFuture submit ctx call = submit ctx call"

fun collectFutures ::
  "('ctx \<Rightarrow> 'task \<Rightarrow> 's \<Rightarrow> ('f \<times> 's) option) \<Rightarrow> 'ctx \<Rightarrow> 'task list \<Rightarrow> 's \<Rightarrow> ('f list \<times> 's) option" where
  "collectFutures submit ctx [] s = Some ([], s)"
| "collectFutures submit ctx (toCall # rest) s =
     (case getFuture submit ctx toCall s of
        None \<Rightarrow> None
      | Some (f, s1) \<Rightarrow>
          (case collectFutures submit ctx rest s1 of
             None \<Rightarrow> None
           | Some (fs, s2) \<Rightarrow> Some (f # fs, s2)))"

fun ResolveAll_loop ::
  "('ctx \<Rightarrow> 'f \<Rightarrow> 's \<Rightarrow> (('r, 'e) result \<times> 's) option) \<Rightarrow> 'ctx \<Rightarrow> 'r list \<Rightarrow> 'e list \<Rightarrow> 'f list \<Rightarrow> 's
     \<Rightarrow> (('r list \<times> 'e list) \<times> 's) option" where
  "ResolveAll_loop get ctx toReturn errors [] s = Some ((toReturn, errors), s)"
| "ResolveAll_loop get ctx toReturn errors (result # rest) s =
     (case get ctx result s of
        None \<Rightarrow> None
      | Some ((v, err), s1) \<Rightarrow>
          (case err of
             Some e \<Rightarrow> ResolveAll_loop get ctx toReturn (errors @ [e]) rest s1
           | None \<Rightarrow> ResolveAll_loop get ctx (toReturn @ [v]) errors rest s1))"

definition ResolveAll ::
  "('ctx \<Rightarrow> 'task \<Rightarrow> 's \<Rightarrow> ('f \<times> 's) option) \<Rightarrow> ('ctx \<Rightarrow> 'f \<Rightarrow> 's \<Rightarrow> (('r, 'e) result \<times> 's) option)
     \<Rightarrow> 'ctx \<Rightarrow> 'task list \<Rightarrow> 's \<Rightarrow> (('r list \<times> 'e list) \<times> 's) option" where
  "ResolveAll submit get ctx suppliers s =
     (case collectFutures submit ctx suppliers s of
        None \<Rightarrow> None
      | Some (fs, s1) \<Rightarrow> ResolveAll_loop get ctx [] [] fs s1)"

text \<open>A nil slice is the empty list.\<close>

fun ResolveUntilError_loop ::
  "('ctx \<Rightarrow> 'f \<Rightarrow> 's \<Rightarrow> (('r, 'e) result \<times> 's) option) \<Rightarrow> 'ctx \<Rightarrow> 'r list \<Rightarrow> 'f list \<Rightarrow> 's
     \<Rightarrow> (('r list, 'e) result \<times> 's) option" where
  "ResolveUntilError_loop get ctx toReturn [] s = Some ((toReturn, None), s)"
| "ResolveUntilError_loop get ctx toReturn (result # rest) s =
     (case get ctx result s of
        None \<Rightarrow> None
      | Some ((v, err), s1) \<Rightarrow>
          (case err of
             Some e \<Rightarrow> Some (([], Some e), s1)
           | None \<Rightarrow> ResolveUntilError_loop get ctx (toReturn @ [v]) rest s1))"

definition ResolveUntilError ::
  "('ctx \<Rightarrow> 'task \<Rightarrow> 's \<Rightarrow> ('f \<times> 's) option) \<Rightarrow> ('ctx \<Rightarrow> 'f \<Rightarrow> 's \<Rightarrow> (('r, 'e) result \<times> 's) option)
     \<Rightarrow> 'ctx \<Rightarrow> 'task list \<Rightarrow> 's \<Rightarrow> (('r list, 'e) result \<times> 's) option" where
  "ResolveUntilError submit get ctx suppliers s =
     (case collectFutures submit ctx suppliers s of
        None \<Rightarrow> None
      | Some (fs, s1) \<Rightarrow> ResolveUntilError_loop get ctx [] fs s1)"

section \<open>The runnable executor\<close>

fun ExecuteRunnables_loop ::
  "('ctx \<Rightarrow> 'f \<Rightarrow> 's \<Rightarrow> ((unit, 'e) result \<times> 's) option) \<Rightarrow> 'ctx \<Rightarrow> 'e list \<Rightarrow> 'f list \<Rightarrow> 's
     \<Rightarrow> ('e list \<times> 's) option" where
  "ExecuteRunnables_loop get ctx errList [] s = Some (errList, s)"
| "ExecuteRunnables_loop get ctx errList (future # rest) s =
     (case get ctx future s of
        None \<Rightarrow> None
      | Some ((_, err), s1) \<Rightarrow>
          (case err of
             Some e \<Rightarrow> ExecuteRunnables_loop get ctx (errList @ [e]) rest s1
           | None \<Rightarrow> ExecuteRunnables_loop get ctx errList rest s1))"

definition ExecuteRunnables ::
  "('ctx \<Rightarrow> 'task \<Rightarrow> 's \<Rightarrow> ('f \<times> 's) option) \<Rightarrow> ('ctx \<Rightarrow> 'f \<Rightarrow> 's \<Rightarrow> ((unit, 'e) result \<times> 's) option)
     \<Rightarrow> 'ctx \<Rightarrow> 'task list \<Rightarrow> 's \<Rightarrow> ('e list \<times> 's) option" where
  "ExecuteRunnables submit get ctx runnables s =
     (case collectFutures submit ctx runnables s of
        None \<Rightarrow> None
      | Some (fs, s1) \<Rightarrow> ExecuteRunnables_loop get ctx [] fs s1)"

definition ExecuteRunnable ::
  "('ctx \<Rightarrow> 'task \<Rightarrow> 's \<Rightarrow> ('f \<times> 's) option) \<Rightarrow> ('ctx \<Rightarrow> 'f \<Rightarrow> 's \<Rightarrow> ((unit, 'e) result \<times> 's) option)
     \<Rightarrow> 'ctx \<Rightarrow> 'task \<Rightarrow> 's \<Rightarrow> ('e option \<times> 's) option" where
  "ExecuteRunnable submit get ctx r s =
     (case ExecuteRunnables submit get ctx [r] s of
        None \<Rightarrow> None
      | Some (errList, s1) \<Rightarrow> Some (if length errList = 0 then None else Some (errList ! 0), s1))"

section \<open>The keyed executors\<close>

text \<open>
  A range over a map visits the keys in an order of its own: the first loop's order is that of
  the list of pairs, the second loop's is the argument \<open>visit\<close>.
\<close>

fun keyed_collect ::
  "('ctx \<Rightarrow> 'task \<Rightarrow> 's \<Rightarrow> ('f \<times> 's) option) \<Rightarrow> 'ctx \<Rightarrow> ('k \<rightharpoonup> 'f) \<Rightarrow> ('k \<times> 'task) list \<Rightarrow> 's
     \<Rightarrow> (('k \<rightharpoonup> 'f) \<times> 's) option" where
  "keyed_collect submit ctx futureMap [] s = Some (futureMap, s)"
| "keyed_collect submit ctx futureMap ((key, toCall) # rest) s =
     (case getFuture submit ctx toCall s of
        None \<Rightarrow> None
      | Some (f, s1) \<Rightarrow> keyed_collect submit ctx (futureMap(key \<mapsto> f)) rest s1)"

fun keyed_loop ::
  "('ctx \<Rightarrow> 'f \<Rightarrow> 's \<Rightarrow> (('r, 'e) result \<times> 's) option) \<Rightarrow> 'ctx \<Rightarrow> ('k \<rightharpoonup> 'f) \<Rightarrow> ('k \<rightharpoonup> 'r) \<Rightarrow> 'k list \<Rightarrow> 's
     \<Rightarrow> (('k \<rightharpoonup> 'r, 'e) result \<times> 's) option" where
  "keyed_loop get ctx futureMap resultMap [] s = Some ((resultMap, None), s)"
| "keyed_loop get ctx futureMap resultMap (key # rest) s =
     (case futureMap key of
        None \<Rightarrow> keyed_loop get ctx futureMap resultMap rest s
      | Some result \<Rightarrow>
          (case get ctx result s of
             None \<Rightarrow> None
           | Some ((v, err), s1) \<Rightarrow>
               (case err of
                  Some e \<Rightarrow> Some ((Map.empty, Some e), s1)
                | None \<Rightarrow> keyed_loop get ctx futureMap (resultMap(key \<mapsto> v)) rest s1)))"

definition keyed_ResolveAll ::
  "('ctx \<Rightarrow> 'task \<Rightarrow> 's \<Rightarrow> ('f \<times> 's) option) \<Rightarrow> ('ctx \<Rightarrow> 'f \<Rightarrow> 's \<Rightarrow> (('r, 'e) result \<times> 's) option)
     \<Rightarrow> 'ctx \<Rightarrow> ('k \<times> 'task) list \<Rightarrow> 'k list \<Rightarrow> 's \<Rightarrow> (('k \<rightharpoonup> 'r, 'e) result \<times> 's) option" where
  "keyed_ResolveAll submit get ctx suppliers visit s =
     (case keyed_collect submit ctx Map.empty suppliers s of
        None \<Rightarrow> None
      | Some (futureMap, s1) \<Rightarrow> keyed_loop get ctx futureMap Map.empty visit s1)"

definition getSupplierFunc ::
  "('ctx, 'w, 'k, 'r, 'e, 'p) gofunction \<Rightarrow> 'k \<Rightarrow> ('ctx, 'w, 'r, 'e, 'p) supplier" where
  "getSupplierFunc underlyingFn key = NewSupplierFromFunc (\<lambda>ctx. underlyingFn ctx key)"

definition supplier_map ::
  "('ctx, 'w, 'k, 'r, 'e, 'p) gofunction \<Rightarrow> 'k list \<Rightarrow> 'k \<rightharpoonup> ('ctx, 'w, 'r, 'e, 'p) supplier" where
  "supplier_map underlyingFn keys =
     fold (\<lambda>key m. m(key \<mapsto> getSupplierFunc underlyingFn key)) keys Map.empty"

text \<open>\<open>visit1\<close> and \<open>visit2\<close> are the orders in which \<open>ResolveAll\<close> visits its two maps.\<close>

definition GetAll ::
  "('ctx \<Rightarrow> ('ctx, 'w, 'r, 'e, 'p) supplier \<Rightarrow> 's \<Rightarrow> ('f \<times> 's) option)
     \<Rightarrow> ('ctx \<Rightarrow> 'f \<Rightarrow> 's \<Rightarrow> (('r, 'e) result \<times> 's) option)
     \<Rightarrow> ('ctx, 'w, 'k, 'r, 'e, 'p) gofunction \<Rightarrow> 'ctx \<Rightarrow> 'k list \<Rightarrow> 'k list \<Rightarrow> 'k list \<Rightarrow> 's
     \<Rightarrow> (('k \<rightharpoonup> 'r, 'e) result \<times> 's) option" where
  "GetAll submit get underlyingFn ctx keys visit1 visit2 s =
     keyed_ResolveAll submit get ctx
       (List.map_filter (\<lambda>k. map_option (\<lambda>sp. (k, sp)) (supplier_map underlyingFn keys k)) visit1)
       visit2 s"

section \<open>What the executors return, for any pool that keeps the contract\<close>

definition ok_values :: "('r, 'e) result list \<Rightarrow> 'r list" where
  "ok_values rs = map fst (filter (\<lambda>r. snd r = None) rs)"

definition errors_of :: "('r, 'e) result list \<Rightarrow> 'e list" where
  "errors_of rs = List.map_filter snd rs"

lemma ok_values_simps [simp]:
  "ok_values [] = []" "ok_values ((v, None) # rs) = v # ok_values rs" "ok_values ((v, Some e) # rs) = ok_values rs"
  by (simp_all add: ok_values_def)

lemma errors_of_simps [simp]:
  "errors_of [] = []" "errors_of ((v, None) # rs) = errors_of rs"
  "errors_of ((v, Some e) # rs) = e # errors_of rs"
  by (simp_all add: errors_of_def List.map_filter_simps)

lemma length_values_errors: "length (ok_values rs) + length (errors_of rs) = length rs"
proof (induction rs)
  case (Cons r rs)
  then show ?case by (cases r; cases "snd r") auto
qed simp

text \<open>
  What is returned after reading the results \<open>rs\<close> of the first \<open>n\<close> of \<open>len\<close> suppliers, with the
  values \<open>vs\<close> of earlier ones: all values, or the error the last of them gave.
\<close>

definition stops_at :: "nat \<Rightarrow> nat \<Rightarrow> ('r, 'e) result list \<Rightarrow> 'r list \<Rightarrow> ('r list, 'e) result \<Rightarrow> bool" where
  "stops_at n len rs vs out \<longleftrightarrow>
     n = len \<and> errors_of rs = [] \<and> out = (vs @ ok_values rs, None)
     \<or> (\<exists>v e rs'. rs = rs' @ [(v, Some e)] \<and> errors_of rs' = [] \<and> out = ([], Some e))"

lemma stops_at_Cons:
  assumes "stops_at n len rs (vs @ [v]) out"
  shows "stops_at (Suc n) (Suc len) ((v, None) # rs) vs out"
proof -
  have "\<exists>w e rs''. (v, None) # rs = rs'' @ [(w, Some e)] \<and> errors_of rs'' = [] \<and> out = ([], Some e)"
    if "rs = rs' @ [(w, Some e)]" "errors_of rs' = []" "out = ([], Some e)" for w e rs'
    using that by (intro exI [of _ w] exI [of _ e] exI [of _ "(v, None) # rs'"]) simp
  with assms show ?thesis by (auto simp: stops_at_def)
qed

text \<open>A pool whose answers are Go results.\<close>

locale result_pool = supplier_pool submit get ok promise answers gives
  for submit :: "'ctx \<Rightarrow> 'task \<Rightarrow> 's \<Rightarrow> ('f \<times> 's) option"
    and get :: "'ctx \<Rightarrow> 'f \<Rightarrow> 's \<Rightarrow> (('r, 'e) result \<times> 's) option"
    and ok :: "'s \<Rightarrow> bool" and promise :: "'s \<Rightarrow> 'f \<Rightarrow> ('ctx \<times> 'task) option"
    and answers :: "'s \<Rightarrow> 'f \<Rightarrow> ('r, 'e) result option"
    and gives :: "'ctx \<Rightarrow> 'task \<Rightarrow> ('r, 'e) result \<Rightarrow> bool"
begin

definition kept :: "'s \<Rightarrow> 's \<Rightarrow> bool" where
  "kept s s' \<longleftrightarrow> ok s' \<and> (\<forall>f x. promise s f = Some x \<longrightarrow> promise s' f = Some x)
     \<and> (\<forall>f r. answers s f = Some r \<longrightarrow> answers s' f = Some r)"

lemma kept_refl: "ok s \<Longrightarrow> kept s s"
  by (simp add: kept_def)

lemma kept_trans: "kept s s1 \<Longrightarrow> kept s1 s2 \<Longrightarrow> kept s s2"
  unfolding kept_def by blast

lemma submit_kept:
  assumes "ok s"
  obtains f s' where "submit ctx task s = Some (f, s')" "kept s s'" "promise s f = None"
    "promise s' f = Some (ctx, task)"
proof -
  from submit_ok [OF assms, of ctx task] obtain f s' where "submit ctx task s = Some (f, s')" "ok s'"
    "promise s f = None" "promise s' = (promise s)(f \<mapsto> (ctx, task))"
    "\<forall>g r. answers s g = Some r \<longrightarrow> answers s' g = Some r" by blast
  then show ?thesis by (intro that [of f s']) (auto simp: kept_def)
qed

lemma get_kept:
  assumes "ok s" and "promise s f = Some (c, task)"
  obtains v err s' where "get ctx f s = Some ((v, err), s')" "kept s s'" "answers s' f = Some (v, err)"
    "gives c task (v, err)"
proof -
  from get_ok [OF assms, of ctx] obtain r s' where r: "get ctx f s = Some (r, s')" "ok s'"
    "promise s' = promise s" "answers s' f = Some r" "gives c task r"
    "\<forall>g r. answers s g = Some r \<longrightarrow> answers s' g = Some r" by blast
  obtain v err where "r = (v, err)" by (cases r)
  with r show ?thesis by (intro that [of v err s']) (auto simp: kept_def)
qed

lemma kept_answers: "kept s s' \<Longrightarrow> answers s f = Some r \<Longrightarrow> answers s' f = Some r"
  unfolding kept_def by blast

text \<open>The futures \<open>fs\<close> are promised for the tasks \<open>ts\<close>; they have the answers \<open>rs\<close>.\<close>

definition holds_for :: "'ctx \<Rightarrow> 's \<Rightarrow> 'f list \<Rightarrow> 'task list \<Rightarrow> bool" where
  "holds_for ctx s fs ts \<longleftrightarrow> list_all2 (\<lambda>f t. promise s f = Some (ctx, t)) fs ts"

definition answered :: "'ctx \<Rightarrow> 's \<Rightarrow> 'f list \<Rightarrow> 'task list \<Rightarrow> ('r, 'e) result list \<Rightarrow> bool" where
  "answered ctx s fs ts rs \<longleftrightarrow> list_all2 (\<lambda>f r. answers s f = Some r) fs rs \<and> list_all2 (gives ctx) ts rs"

lemma holds_for_kept: "holds_for ctx s fs ts \<Longrightarrow> kept s s' \<Longrightarrow> holds_for ctx s' fs ts"
  unfolding holds_for_def by (erule list_all2_mono) (simp add: kept_def)

lemma answered_Cons:
  "kept s s' \<Longrightarrow> answers s f = Some r \<Longrightarrow> gives ctx t r \<Longrightarrow> answered ctx s' fs ts rs \<Longrightarrow>
   answered ctx s' (f # fs) (t # ts) (r # rs)"
  by (simp add: answered_def kept_answers)

lemma collect:
  "ok s \<Longrightarrow> \<exists>fs s'. collectFutures submit ctx ts s = Some (fs, s') \<and> kept s s' \<and> holds_for ctx s' fs ts"
proof (induction ts arbitrary: s)
  case Nil
  then show ?case by (simp add: kept_refl holds_for_def)
next
  case (Cons t ts)
  from Cons.prems obtain f s1 where s1: "submit ctx t s = Some (f, s1)" "kept s s1"
    "promise s1 f = Some (ctx, t)" by (rule submit_kept)
  from s1(2) have "ok s1" by (simp add: kept_def)
  from Cons.IH [OF this] obtain fs s2 where s2: "collectFutures submit ctx ts s1 = Some (fs, s2)"
    "kept s1 s2" "holds_for ctx s2 fs ts" by blast
  from s1(3) s2(2) have "promise s2 f = Some (ctx, t)" by (simp add: kept_def)
  with s1(1) s2 kept_trans [OF s1(2) s2(2)] show ?case
    by (auto simp: getFuture_def holds_for_def)
qed

lemma get_all:
  "ok s \<Longrightarrow> holds_for ctx s fs ts \<Longrightarrow>
   \<exists>rs s'. ResolveAll_loop get ctx vs es fs s = Some ((vs @ ok_values rs, es @ errors_of rs), s')
     \<and> kept s s' \<and> answered ctx s' fs ts rs"
proof (induction fs arbitrary: s ts vs es)
  case Nil
  then show ?case by (intro exI [of _ "[]"] exI [of _ s]) (auto simp: kept_refl holds_for_def answered_def)
next
  case (Cons f fs)
  then obtain t ts' where ts: "ts = t # ts'" "promise s f = Some (ctx, t)" "holds_for ctx s fs ts'"
    by (auto simp: holds_for_def list_all2_Cons1)
  obtain v err s1 where s1: "get ctx f s = Some ((v, err), s1)" "kept s s1"
    "answers s1 f = Some (v, err)" "gives ctx t (v, err)"
    by (rule get_kept [OF Cons.prems(1) ts(2)])
  from s1(2) have "ok s1" by (simp add: kept_def)
  note IH = Cons.IH [OF this holds_for_kept [OF ts(3) s1(2)]]
  show ?case
  proof (cases err)
    case None
    from IH [of "vs @ [v]" es] obtain rs s2 where
      "ResolveAll_loop get ctx (vs @ [v]) es fs s1 = Some ((vs @ [v] @ ok_values rs, es @ errors_of rs), s2)"
      and k: "kept s1 s2" "answered ctx s2 fs ts' rs" by auto
    with None s1(1) kept_trans [OF s1(2) k(1)] answered_Cons [OF k(1) s1(3,4) k(2)] show ?thesis
      by (intro exI [of _ "(v, err) # rs"] exI [of _ s2]) (simp add: ts(1))
  next
    case (Some e)
    from IH [of vs "es @ [e]"] obtain rs s2 where
      "ResolveAll_loop get ctx vs (es @ [e]) fs s1 = Some ((vs @ ok_values rs, es @ [e] @ errors_of rs), s2)"
      and k: "kept s1 s2" "answered ctx s2 fs ts' rs" by auto
    with Some s1(1) kept_trans [OF s1(2) k(1)] answered_Cons [OF k(1) s1(3,4) k(2)] show ?thesis
      by (intro exI [of _ "(v, err) # rs"] exI [of _ s2]) (simp add: ts(1))
  qed
qed

lemma ResolveAll_result:
  assumes "ok s"
  shows "\<exists>fs rs s'. ResolveAll submit get ctx ts s = Some ((ok_values rs, errors_of rs), s') \<and> ok s'
    \<and> answered ctx s' fs ts rs"
proof -
  from collect [OF assms] obtain fs s1 where c: "collectFutures submit ctx ts s = Some (fs, s1)"
    "kept s s1" "holds_for ctx s1 fs ts" by blast
  then have "ok s1" by (simp add: kept_def)
  from get_all [OF this c(3), of "[]" "[]"] c(1) show ?thesis
    by (auto simp: ResolveAll_def kept_def)
qed

lemma get_until_error:
  "ok s \<Longrightarrow> holds_for ctx s fs ts \<Longrightarrow>
   \<exists>n rs out s'. n \<le> length ts \<and> ok s' \<and> answered ctx s' (take n fs) (take n ts) rs \<and> kept s s'
     \<and> ResolveUntilError_loop get ctx vs fs s = Some (out, s') \<and> stops_at n (length ts) rs vs out"
proof (induction fs arbitrary: s ts vs)
  case Nil
  then show ?case by (intro exI [of _ 0] exI [of _ "[]"] exI [of _ s])
      (auto simp: kept_refl holds_for_def answered_def stops_at_def)
next
  case (Cons f fs)
  then obtain t ts' where ts: "ts = t # ts'" "promise s f = Some (ctx, t)" "holds_for ctx s fs ts'"
    by (auto simp: holds_for_def list_all2_Cons1)
  obtain v err s1 where s1: "get ctx f s = Some ((v, err), s1)" "kept s s1"
    "answers s1 f = Some (v, err)" "gives ctx t (v, err)"
    by (rule get_kept [OF Cons.prems(1) ts(2)])
  from s1(2) have ok1: "ok s1" by (simp add: kept_def)
  show ?case
  proof (cases err)
    case None
    from Cons.IH [OF ok1 holds_for_kept [OF ts(3) s1(2)], of "vs @ [v]"] obtain n rs out s2 where
      n: "n \<le> length ts'" "ok s2" "answered ctx s2 (take n fs) (take n ts') rs" "kept s1 s2"
      and r: "ResolveUntilError_loop get ctx (vs @ [v]) fs s1 = Some (out, s2)"
        "stops_at n (length ts') rs (vs @ [v]) out" by blast
    have "answered ctx s2 (take (Suc n) (f # fs)) (take (Suc n) ts) ((v, None) # rs)"
      using answered_Cons [OF n(4) s1(3,4) n(3)] None by (simp add: ts(1))
    with n(1,2) kept_trans [OF s1(2) n(4)] r(1) stops_at_Cons [OF r(2)] s1(1) None show ?thesis
      by (intro exI [of _ "Suc n"] exI [of _ "(v, None) # rs"] exI [of _ out] exI [of _ s2]) (simp add: ts(1))
  next
    case (Some e)
    have "answered ctx s1 (take 1 (f # fs)) (take 1 ts) [(v, Some e)]"
      using answered_Cons [OF kept_refl [OF ok1] s1(3,4), of "[]" "[]" "[]"] Some
      by (simp add: ts(1) answered_def)
    with Some s1(1,2) ok1 show ?thesis
      by (intro exI [of _ 1] exI [of _ "[(v, Some e)]"] exI [of _ "([], Some e)"] exI [of _ s1])
        (auto simp: ts(1) stops_at_def)
  qed
qed

lemma ResolveUntilError_result:
  assumes "ok s"
  shows "\<exists>fs n rs out s'. n \<le> length ts \<and> ok s' \<and> answered ctx s' (take n fs) (take n ts) rs
     \<and> ResolveUntilError submit get ctx ts s = Some (out, s') \<and> stops_at n (length ts) rs [] out"
proof -
  from collect [OF assms] obtain fs s1 where c: "collectFutures submit ctx ts s = Some (fs, s1)"
    "kept s s1" "holds_for ctx s1 fs ts" by blast
  then have "ok s1" by (simp add: kept_def)
  have eq: "ResolveUntilError submit get ctx ts s = ResolveUntilError_loop get ctx [] fs s1"
    by (simp add: ResolveUntilError_def c(1))
  show ?thesis unfolding eq using get_until_error [OF \<open>ok s1\<close> c(3), of "[]"] by blast
qed

lemma keyed_collect_result:
  "ok s \<Longrightarrow> distinct (map fst sups) \<Longrightarrow>
   \<exists>fm s'. keyed_collect submit ctx m sups s = Some (fm, s') \<and> kept s s'
     \<and> (\<forall>k. k \<notin> fst ` set sups \<longrightarrow> fm k = m k)
     \<and> (\<forall>(k, t) \<in> set sups. \<exists>f. fm k = Some f \<and> promise s' f = Some (ctx, t))"
proof (induction sups arbitrary: s m)
  case Nil
  then show ?case by (simp add: kept_refl)
next
  case (Cons kt sups)
  obtain k t where kt: "kt = (k, t)" by (cases kt)
  obtain f s1 where s1: "submit ctx t s = Some (f, s1)" "kept s s1" "promise s1 f = Some (ctx, t)"
    using submit_kept [OF Cons.prems(1)] by metis
  from s1(2) have "ok s1" by (simp add: kept_def)
  moreover have "distinct (map fst sups)" using Cons.prems(2) by simp
  ultimately obtain fm s2 where
    s2: "keyed_collect submit ctx (m(k \<mapsto> f)) sups s1 = Some (fm, s2)" "kept s1 s2"
    "\<forall>j. j \<notin> fst ` set sups \<longrightarrow> fm j = (m(k \<mapsto> f)) j"
    "\<forall>(j, t) \<in> set sups. \<exists>f. fm j = Some f \<and> promise s2 f = Some (ctx, t)"
    using Cons.IH [of s1 "m(k \<mapsto> f)"] by blast
  have "k \<notin> fst ` set sups" using Cons.prems(2) by (simp add: kt)
  then have "fm k = Some f" using s2(3) by simp
  moreover have "promise s2 f = Some (ctx, t)" using s1(3) s2(2) by (simp add: kept_def)
  ultimately show ?case
    using s1(1) s2 kept_trans [OF s1(2) s2(2)] by (auto simp: kt getFuture_def)
qed

lemma keyed_loop_result:
  "ok s \<Longrightarrow> \<forall>k \<in> set visit. \<exists>f. fm k = Some f \<and> promise s f = Some (ctx, task k) \<Longrightarrow>
   \<exists>m err s'. keyed_loop get ctx fm rm visit s = Some ((m, err), s') \<and> kept s s'
     \<and> (err = None \<longrightarrow> (\<forall>k \<in> set visit. \<exists>v. m k = Some v \<and> gives ctx (task k) (v, None))
          \<and> (\<forall>k. k \<notin> set visit \<longrightarrow> m k = rm k))
     \<and> (\<forall>e. err = Some e \<longrightarrow> m = Map.empty \<and> (\<exists>k \<in> set visit. \<exists>v. gives ctx (task k) (v, Some e)))"
proof (induction visit arbitrary: s rm)
  case Nil
  then show ?case by (simp add: kept_refl)
next
  case (Cons k visit)
  from Cons.prems(2) obtain f where f: "fm k = Some f" "promise s f = Some (ctx, task k)" by auto
  obtain v err s1 where s1: "get ctx f s = Some ((v, err), s1)" "kept s s1" "gives ctx (task k) (v, err)"
    using get_kept [OF Cons.prems(1) f(2)] by metis
  from s1(2) have "ok s1" by (simp add: kept_def)
  show ?case
  proof (cases err)
    case (Some e)
    with s1 f show ?thesis by auto
  next
    case None
    have "\<forall>k \<in> set visit. \<exists>f. fm k = Some f \<and> promise s1 f = Some (ctx, task k)"
      using Cons.prems(2) s1(2) by (fastforce simp: kept_def)
    from Cons.IH [OF \<open>ok s1\<close> this, of "rm(k \<mapsto> v)"] obtain m err' s2 where
      s2: "keyed_loop get ctx fm (rm(k \<mapsto> v)) visit s1 = Some ((m, err'), s2)" "kept s1 s2"
      "err' = None \<longrightarrow> (\<forall>k \<in> set visit. \<exists>v. m k = Some v \<and> gives ctx (task k) (v, None))
          \<and> (\<forall>j. j \<notin> set visit \<longrightarrow> m j = (rm(k \<mapsto> v)) j)"
      "\<forall>e. err' = Some e \<longrightarrow> m = Map.empty \<and> (\<exists>k \<in> set visit. \<exists>v. gives ctx (task k) (v, Some e))"
      by blast
    have "keyed_loop get ctx fm rm (k # visit) s = Some ((m, err'), s2)"
      using f(1) s1(1) s2(1) None by simp
    moreover have "err' = None \<Longrightarrow> \<exists>v. m k = Some v \<and> gives ctx (task k) (v, None)"
      using s2(3) s1(3) None by (cases "k \<in> set visit") auto
    ultimately show ?thesis
      using s2(3,4) kept_trans [OF s1(2) s2(2)] by auto
  qed
qed

lemma keyed_result:
  assumes "ok s" and "distinct (map fst sups)" and "set visit = fst ` set sups"
  shows "\<exists>m err s'. keyed_ResolveAll submit get ctx sups visit s = Some ((m, err), s') \<and> ok s'
     \<and> (err = None \<longrightarrow> dom m = fst ` set sups
          \<and> (\<forall>(k, t) \<in> set sups. \<exists>v. m k = Some v \<and> gives ctx t (v, None)))
     \<and> (\<forall>e. err = Some e \<longrightarrow> m = Map.empty \<and> (\<exists>(k, t) \<in> set sups. \<exists>v. gives ctx t (v, Some e)))"
proof -
  from keyed_collect_result [OF assms(1,2), of ctx Map.empty] obtain fm s1 where
    c: "keyed_collect submit ctx Map.empty sups s = Some (fm, s1)" "kept s s1"
    "\<forall>(k, t) \<in> set sups. \<exists>f. fm k = Some f \<and> promise s1 f = Some (ctx, t)" by blast
  define task where "task k = the (map_of sups k)" for k
  have task: "task k = t" if "(k, t) \<in> set sups" for k t
    using that assms(2) by (simp add: task_def)
  from c(3) task have "\<forall>k \<in> set visit. \<exists>f. fm k = Some f \<and> promise s1 f = Some (ctx, task k)"
    by (auto simp: assms(3))
  moreover from c(2) have "ok s1" by (simp add: kept_def)
  ultimately obtain m err s2 where l: "keyed_loop get ctx fm Map.empty visit s1 = Some ((m, err), s2)"
    "kept s1 s2"
    "err = None \<longrightarrow> (\<forall>k \<in> set visit. \<exists>v. m k = Some v \<and> gives ctx (task k) (v, None))
          \<and> (\<forall>k. k \<notin> set visit \<longrightarrow> m k = None)"
    "\<forall>e. err = Some e \<longrightarrow> m = Map.empty \<and> (\<exists>k \<in> set visit. \<exists>v. gives ctx (task k) (v, Some e))"
    using keyed_loop_result [of s1 visit fm ctx task Map.empty] by blast
  have "keyed_ResolveAll submit get ctx sups visit s = Some ((m, err), s2)"
    by (simp add: keyed_ResolveAll_def c(1) l(1))
  moreover have "ok s2" using l(2) by (simp add: kept_def)
  moreover have "dom m = fst ` set sups" if "err = None"
    using l(3) that assms(3) by (auto simp: dom_def)
  moreover have "\<forall>(k, t) \<in> set sups. \<exists>v. m k = Some v \<and> gives ctx t (v, None)" if "err = None"
    using l(3) that task by (force simp: assms(3))
  moreover have "m = Map.empty \<and> (\<exists>(k, t) \<in> set sups. \<exists>v. gives ctx t (v, Some e))" if "err = Some e" for e
    using l(4) that task by (force simp: assms(3))
  ultimately show ?thesis by blast
qed

end

interpretation pe: result_pool "pool_Submit handle zero sched" "pool_Get handle zero sched"
  "pool_ok handle zero" promised answer "gives_result handle zero"
  by unfold_locales

text \<open>The runnable executor reads the same futures and keeps their errors.\<close>

lemma ExecuteRunnables_loop_eq:
  "ExecuteRunnables_loop get ctx es fs s =
     map_option (\<lambda>((_, es), s). (es, s)) (ResolveAll_loop get ctx vs es fs s)"
  by (induction get ctx vs es fs s rule: ResolveAll_loop.induct) (simp_all split: option.split)

lemma collect_runnables:
  "collectFutures (runnable_Submit submit) ctx rs s =
     collectFutures submit ctx (map supplier_of_runnable rs) s"
proof (induction rs arbitrary: s)
  case (Cons r rs)
  then show ?case by (simp add: getFuture_def runnable_Submit_def split: option.split)
qed simp

lemma ExecuteRunnables_eq:
  "ExecuteRunnables (runnable_Submit submit) get ctx rs s =
     map_option (\<lambda>((_, es), s). (es, s)) (ResolveAll submit get ctx (map supplier_of_runnable rs) s)"
  by (simp add: ExecuteRunnables_def ResolveAll_def collect_runnables
      ExecuteRunnables_loop_eq [of get ctx "[]" _ _ "[]"] split: option.split)

lemma supplier_map_apply:
  "supplier_map underlyingFn keys k =
     (if k \<in> set keys then Some (getSupplierFunc underlyingFn k) else None)"
proof -
  have "fold (\<lambda>key m. m(key \<mapsto> getSupplierFunc underlyingFn key)) keys m k =
      (if k \<in> set keys then Some (getSupplierFunc underlyingFn k) else m k)" for m
    by (induction keys arbitrary: m) auto
  then show ?thesis by (simp add: supplier_map_def)
qed

lemma GetAll_suppliers:
  "set visit1 = set keys \<Longrightarrow>
   List.map_filter (\<lambda>k. map_option (\<lambda>sp. (k, sp)) (supplier_map underlyingFn keys k)) visit1 =
     map (\<lambda>k. (k, getSupplierFunc underlyingFn k)) visit1"
proof -
  assume "set visit1 = set keys"
  then have "set visit1 \<subseteq> set keys" by simp
  then show ?thesis
    by (induction visit1) (simp_all add: supplier_map_apply List.map_filter_simps)
qed

section \<open>Properties\<close>

text \<open>
  \<open>ResolveAll\<close> of the supplier executor on a worker pool returns, under every
  scheduling of the workers; every supplier was run, its result is an answer the supplier can
  give when called with the client's context (a panic counts as an error), and the two slices are
  the values and the errors of these results in the order of the input, one entry for each
  supplier.
\<close>

theorem ResolveAll_spec:
  assumes "pool_ok handle zero s"
  shows "\<exists>fs rs s'. ResolveAll (pool_Submit handle zero sched) (pool_Get handle zero sched) ctx suppliers s
      = Some ((ok_values rs, errors_of rs), s')
    \<and> list_all2 (gives_result handle zero ctx) suppliers rs
    \<and> list_all2 (\<lambda>f r. answer s' f = Some r) fs rs \<and> pool_ok handle zero s'
    \<and> length (ok_values rs) + length (errors_of rs) = length suppliers"
proof -
  from pe.ResolveAll_result [OF assms] obtain fs rs s' where
    r: "ResolveAll (pool_Submit handle zero sched) (pool_Get handle zero sched) ctx suppliers s
      = Some ((ok_values rs, errors_of rs), s')" "pool_ok handle zero s'"
    "pe.answered handle zero ctx s' fs suppliers rs" by blast
  then have "length rs = length suppliers"
    by (auto simp: pe.answered_def dest: list_all2_lengthD)
  with r length_values_errors [of rs] show ?thesis unfolding pe.answered_def by metis
qed

theorem ResolveAll_spec_witness:
  "\<exists>rs s'. ResolveAll (pool_Submit log_panic 0 (\<lambda>_. PCount)) (pool_Get log_panic 0 (\<lambda>_. PCount)) ()
      [tick, boom] (pool0 [WithMaxNumberOfWorkers 1]) = Some ((ok_values rs, errors_of rs), s')
    \<and> length (ok_values rs) = 1 \<and> errors_of rs = [''boom!'']"
proof -
  have "pool_ok log_panic 0 (pool0 [WithMaxNumberOfWorkers 1])"
    unfolding pool0_def by (rule pool_ok_New) (auto simp: is_option_def)
  from ResolveAll_spec [OF this, of "\<lambda>_. PCount" "()" "[tick, boom]"] obtain rs s' where
    r: "ResolveAll (pool_Submit log_panic 0 (\<lambda>_. PCount)) (pool_Get log_panic 0 (\<lambda>_. PCount)) ()
      [tick, boom] (pool0 [WithMaxNumberOfWorkers 1]) = Some ((ok_values rs, errors_of rs), s')"
    and g: "list_all2 (gives_result log_panic 0 ()) [tick, boom] rs" by blast
  from g obtain r1 r2 where "rs = [r1, r2]" "gives_result log_panic 0 () tick r1"
    "gives_result log_panic 0 () boom r2" by (auto simp: list_all2_Cons1)
  then have "length (ok_values rs) = 1 \<and> errors_of rs = [''boom!'']"
    by (auto simp: gives_result_def supplied_def tick_def boom_def log_panic_def)
  with r show ?thesis by blast
qed



text \<open>
  But \<open>ResolveUntilError\<close> does not wait for the other suppliers: it can return
  the first error while a later supplier has not even been started, although its comment says that
  it blocks until all suppliers have completed.
\<close>

theorem ResolveUntilError_returns_early:
  "\<exists>s'. ResolveUntilError (pool_Submit log_panic 0 (\<lambda>_. PCount)) (pool_Get log_panic 0 (\<lambda>_. PCount)) ()
      [boom, tick] (pool0 [WithMaxNumberOfWorkers 1]) = Some (([], Some ''boom!''), s')
    \<and> promised s' 1 \<noteq> None \<and> answer s' 1 = None"
  by (simp add: ResolveUntilError_def getFuture_def pool_Submit_def pool_Get_def pick_def enabled_def
      possible_steps_def pool_rank_def pool_eval boom_def log_panic_def Get_result_def
      promised_def answer_def eval_nat_numeral upt_rec)

text \<open>
  \<open>ExecuteRunnables\<close> returns under every scheduling the errors of all the runnables
  it was given, in the order of the input, and an empty list when none failed;
  \<open>ExecuteRunnable\<close> returns the error of its runnable.
\<close>

theorem ExecuteRunnables_spec:
  assumes "pool_ok handle () s"
  shows "(\<exists>rs s'. ExecuteRunnables (runnable_Submit (pool_Submit handle () sched))
        (pool_Get handle () sched) ctx runnables s = Some (errors_of rs, s')
      \<and> list_all2 (gives_result handle () ctx) (map supplier_of_runnable runnables) rs)
    \<and> (\<exists>err s'. ExecuteRunnable (runnable_Submit (pool_Submit handle () sched))
        (pool_Get handle () sched) ctx r s = Some (err, s')
      \<and> gives_result handle () ctx (supplier_of_runnable r) ((), err))"
proof
  have all: "\<exists>rs s'. ExecuteRunnables (runnable_Submit (pool_Submit handle () sched))
        (pool_Get handle () sched) ctx runnables s = Some (errors_of rs, s')
      \<and> list_all2 (gives_result handle () ctx) (map supplier_of_runnable runnables) rs" for runnables
    using pe.ResolveAll_result [OF assms, of sched ctx "map supplier_of_runnable runnables"]
    unfolding pe.answered_def by (auto simp: ExecuteRunnables_eq)
  then show "\<exists>rs s'. ExecuteRunnables (runnable_Submit (pool_Submit handle () sched))
        (pool_Get handle () sched) ctx runnables s = Some (errors_of rs, s')
      \<and> list_all2 (gives_result handle () ctx) (map supplier_of_runnable runnables) rs" .
  from all [of "[r]"] obtain err s' where
    e: "ExecuteRunnables (runnable_Submit (pool_Submit handle () sched))
        (pool_Get handle () sched) ctx [r] s = Some (errors_of [((), err)], s')"
    and g: "gives_result handle () ctx (supplier_of_runnable r) ((), err)"
    by (auto simp: list_all2_Cons1)
  have "ExecuteRunnable (runnable_Submit (pool_Submit handle () sched))
      (pool_Get handle () sched) ctx r s = Some (err, s')"
    using e by (cases err) (simp_all add: ExecuteRunnable_def)
  with g show "\<exists>err s'. ExecuteRunnable (runnable_Submit (pool_Submit handle () sched))
        (pool_Get handle () sched) ctx r s = Some (err, s')
      \<and> gives_result handle () ctx (supplier_of_runnable r) ((), err)" by blast
qed

text \<open>A pool for runnables, and runnables that fail, panic and succeed.\<close>

definition run_pool :: "(unit, nat, unit, string, string, nat) pool" where
  "run_pool = NewDefaultSupplierWorkerPool [] 3"

lemma run_pool_ok: "pool_ok log_panic () run_pool"
  unfolding run_pool_def by (rule pool_ok_New) simp

theorem ExecuteRunnables_spec_witness:
  "\<exists>s'. ExecuteRunnables (runnable_Submit (pool_Submit log_panic () (\<lambda>_. PCount)))
      (pool_Get log_panic () (\<lambda>_. PCount)) ()
      [\<lambda>_ w. (Ret (Some ''bad''), w), \<lambda>_ w. (Ret None, w + 1), \<lambda>_ w. (Panic ''boom'', w)] run_pool
    = Some ([''bad'', ''boom!''], s')"
proof -
  let ?rs = "[\<lambda>_ w. (Ret (Some ''bad''), w), \<lambda>_ w. (Ret None, w + 1), \<lambda>_ w. (Panic ''boom'', w)]
    :: (unit, nat, string, string) runnable list"
  from ExecuteRunnables_spec [OF run_pool_ok, of "\<lambda>_. PCount" "()" ?rs] obtain rs s' where
    r: "ExecuteRunnables (runnable_Submit (pool_Submit log_panic () (\<lambda>_. PCount)))
      (pool_Get log_panic () (\<lambda>_. PCount)) () ?rs run_pool = Some (errors_of rs, s')"
    and g: "list_all2 (gives_result log_panic () ()) (map supplier_of_runnable ?rs) rs" by blast
  from g have "errors_of rs = [''bad'', ''boom!'']"
    by (auto simp: list_all2_Cons1 gives_result_def supplied_def supplier_of_runnable_run log_panic_def)
  with r show ?thesis by simp
qed

text \<open>
  The keyed executor returns under every scheduling, whatever the orders in which
  its two range loops visit the maps: with a nil error a map that has exactly the given keys,
  each with a value its own supplier gave; otherwise nil and the error one of the suppliers
  gave.
\<close>

theorem keyed_ResolveAll_spec:
  assumes "pool_ok handle zero s" and "distinct (map fst sups)" and "set visit = fst ` set sups"
  shows "\<exists>m err s'. keyed_ResolveAll (pool_Submit handle zero sched) (pool_Get handle zero sched)
        ctx sups visit s = Some ((m, err), s')
     \<and> (err = None \<longrightarrow> dom m = fst ` set sups
          \<and> (\<forall>(k, t) \<in> set sups. \<exists>v. m k = Some v \<and> gives_result handle zero ctx t (v, None)))
     \<and> (\<forall>e. err = Some e \<longrightarrow> m = Map.empty
          \<and> (\<exists>(k, t) \<in> set sups. \<exists>v. gives_result handle zero ctx t (v, Some e)))"
  using pe.keyed_result [OF assms, of sched ctx] by blast

theorem keyed_ResolveAll_spec_witness:
  "\<exists>m s'. keyed_ResolveAll (pool_Submit log_panic 0 (\<lambda>_. PCount)) (pool_Get log_panic 0 (\<lambda>_. PCount)) ()
      [(''a'', tick), (''b'', tick)] [''b'', ''a''] (pool0 []) = Some ((m, None), s')
     \<and> dom m = {''a'', ''b''}"
proof -
  have "pool_ok log_panic 0 (pool0 [])" unfolding pool0_def by (rule pool_ok_New) simp
  from keyed_ResolveAll_spec [OF this, of "[(''a'', tick), (''b'', tick)]" "[''b'', ''a'']" "\<lambda>_. PCount" "()"]
  obtain m err s' where
    r: "keyed_ResolveAll (pool_Submit log_panic 0 (\<lambda>_. PCount)) (pool_Get log_panic 0 (\<lambda>_. PCount)) ()
      [(''a'', tick), (''b'', tick)] [''b'', ''a''] (pool0 []) = Some ((m, err), s')"
    and n: "err = None \<longrightarrow> dom m = fst ` set [(''a'', tick), (''b'', tick)]"
    and e: "\<forall>e. err = Some e \<longrightarrow> (\<exists>(k, t) \<in> set [(''a'', tick), (''b'', tick)].
      \<exists>v. gives_result log_panic 0 () t (v, Some e))" by (simp only: distinct.simps set_simps) force
  have "err = None"
    using e by (cases err) (auto simp: gives_result_def supplied_def tick_def)
  with n have "dom m = {''a'', ''b''}" by simp
  with r \<open>err = None\<close> show ?thesis by blast
qed

text \<open>
  \<open>GetAll\<close> of the keyed function executor applies the function once to every
  distinct key: repeated keys collapse, and with a nil error the result maps each given key, and
  nothing else, to a value the function gave for it.
\<close>

theorem GetAll_spec:
  assumes "pool_ok handle zero s" and "distinct visit1" and "set visit1 = set keys"
    and "set visit2 = set keys"
  shows "\<exists>m err s'. GetAll (pool_Submit handle zero sched) (pool_Get handle zero sched)
        underlyingFn ctx keys visit1 visit2 s = Some ((m, err), s')
     \<and> (err = None \<longrightarrow> dom m = set keys
          \<and> (\<forall>k \<in> set keys. \<exists>v. m k = Some v \<and> gives_result handle zero ctx (\<lambda>c. underlyingFn c k) (v, None)))
     \<and> (\<forall>e. err = Some e \<longrightarrow> m = Map.empty
          \<and> (\<exists>k \<in> set keys. \<exists>v. gives_result handle zero ctx (\<lambda>c. underlyingFn c k) (v, Some e)))"
proof -
  let ?sups = "map (\<lambda>k. (k, getSupplierFunc underlyingFn k)) visit1"
  have "distinct (map fst ?sups)" "set visit2 = fst ` set ?sups"
    using assms(2-4) by (simp_all add: o_def image_image)
  note r = pe.keyed_result [OF assms(1) this, of sched ctx]
  have f: "getSupplierFunc underlyingFn k = (\<lambda>c. underlyingFn c k)" for k
    by (simp add: getSupplierFunc_def)
  show ?thesis
    unfolding GetAll_def GetAll_suppliers [OF assms(3)] using r assms(3)
    by (auto simp: f image_image)
qed

theorem GetAll_spec_witness:
  "\<exists>m err s'. GetAll (pool_Submit log_panic 0 (\<lambda>_. PCount)) (pool_Get log_panic 0 (\<lambda>_. PCount))
      (\<lambda>_ k w. (Ret (k + w, None), w)) () [1, 2, 1] [2, 1] [1, 2] (pool0 []) = Some ((m, err), s')
     \<and> (err = None \<longrightarrow> dom m = {1, 2})"
proof -
  have "pool_ok log_panic 0 (pool0 [])" unfolding pool0_def by (rule pool_ok_New) simp
  from GetAll_spec [OF this, of "[2, 1]" "[1, 2, 1]" "[1, 2]" "\<lambda>_. PCount"
      "\<lambda>_ k w. (Ret (k + w, None), w)" "()"] show ?thesis by (auto simp: insert_commute)
qed

end
