(* ===== verification/Executor_Interface.thy ===== *)
theory Executor_Interface
  imports Executors
begin

text \<open>
  The interfaces of \<open>workerpool/api.go\<close> and of the executors as records of their methods, and the
  constructors that put them together: \<open>NewDefaultRunnableWorkerPool\<close> and its siblings over the
  supplier pool, the executors over a pool. A future is what \<open>async.Future\<close> promises, its \<open>Get\<close>
  method, so that a client has nothing else to reach the pool with. The executors are those of
  \<open>Executors\<close>; dispatching their calls through the interfaces gives what the calls on the pool's
  own futures give, and with that the properties hold for an executor over a pool fresh from its
  constructor.
\<close>

section \<open>workerpool/api.go\<close>

type_synonym ('ctx, 'r, 'e, 's) future_methods = "'ctx \<Rightarrow> 's \<Rightarrow> (('r, 'e) result \<times> 's) option"

record ('ctx, 'w, 'r, 'e, 'p, 's) SupplierWorkerPool =
  sp_Submit :: "'ctx \<Rightarrow> ('ctx, 'w, 'r, 'e, 'p) supplier \<Rightarrow> 's \<Rightarrow> (('ctx, 'r, 'e, 's) future_methods \<times> 's) option"
  sp_SubmitWithCallback :: "'ctx \<Rightarrow> ('ctx, 'w, 'r, 'e, 'p) supplier \<Rightarrow> ('ctx, 'w, 'r, 'e, 'p) on_complete \<Rightarrow> 's
    \<Rightarrow> 's option"

record ('ctx, 'w, 'a, 'r, 'e, 'p, 's) FunctionWorkerPool =
  fp_Submit :: "'ctx \<Rightarrow> 'a \<Rightarrow> 's \<Rightarrow> (('ctx, 'r, 'e, 's) future_methods \<times> 's) option"
  fp_SubmitWithCallback :: "'ctx \<Rightarrow> 'a \<Rightarrow> ('ctx \<Rightarrow> 'a \<Rightarrow> 'r \<Rightarrow> 'e option \<Rightarrow> ('w, unit, 'p) go) \<Rightarrow> 's \<Rightarrow> 's option"

record ('ctx, 'w, 'e, 'p, 's) RunnableWorkerPool =
  rp_Submit :: "'ctx \<Rightarrow> ('ctx, 'w, 'e, 'p) runnable \<Rightarrow> 's \<Rightarrow> (('ctx, unit, 'e, 's) future_methods \<times> 's) option"
  rp_SubmitWithCallback :: "'ctx \<Rightarrow> ('ctx, 'w, 'e, 'p) runnable \<Rightarrow> ('ctx \<Rightarrow> 'e option \<Rightarrow> ('w, unit, 'p) go) \<Rightarrow> 's
    \<Rightarrow> 's option"

record ('ctx, 'w, 'a, 'e, 'p, 's) ConsumerWorkerPool =
  cp_Submit :: "'ctx \<Rightarrow> 'a \<Rightarrow> 's \<Rightarrow> (('ctx, unit, 'e, 's) future_methods \<times> 's) option"
  cp_SubmitWithCallback :: "'ctx \<Rightarrow> 'a \<Rightarrow> ('ctx \<Rightarrow> 'a \<Rightarrow> 'e option \<Rightarrow> ('w, unit, 'p) go) \<Rightarrow> 's \<Rightarrow> 's option"

text \<open>
  The methods of \<open>*defaultSupplierWorkerPool\<close>, under a scheduler of its workers. A constructor gives
  the methods of the new pool and the state of its memory.
\<close>

definition future_of ::
  "('ctx \<Rightarrow> 'p \<Rightarrow> 'w \<Rightarrow> 'e \<times> 'w) \<Rightarrow> 'r
     \<Rightarrow> (('ctx, 'w, 'r, 'e, 'p, 'tag) pool \<Rightarrow> ('ctx, 'w, 'r, 'e, 'p) pact)
     \<Rightarrow> nat \<Rightarrow> ('ctx, 'r, 'e, ('ctx, 'w, 'r, 'e, 'p, 'tag) pool) future_methods" where
  "future_of handle zero sched f ctx = pool_Get handle zero sched ctx f"

definition defaultSupplierWorkerPool_methods ::
  "('ctx \<Rightarrow> 'p \<Rightarrow> 'w \<Rightarrow> 'e \<times> 'w) \<Rightarrow> 'r
     \<Rightarrow> (('ctx, 'w, 'r, 'e, 'p, 'tag) pool \<Rightarrow> ('ctx, 'w, 'r, 'e, 'p) pact)
     \<Rightarrow> ('ctx, 'w, 'r, 'e, 'p, ('ctx, 'w, 'r, 'e, 'p, 'tag) pool) SupplierWorkerPool" where
  "defaultSupplierWorkerPool_methods handle zero sched =
     \<lparr>sp_Submit = (\<lambda>ctx sp s. map_option (\<lambda>(f, t). (future_of handle zero sched f, t))
        (pool_Submit handle zero sched ctx sp s)),
      sp_SubmitWithCallback = SubmitWithCallback (pool_Submit handle zero sched)\<rparr>"

definition NewRunnableWorkerPool_over ::
  "('ctx, 'w, unit, 'e, 'p, 's) SupplierWorkerPool \<Rightarrow> ('ctx, 'w, 'e, 'p, 's) RunnableWorkerPool" where
  "NewRunnableWorkerPool_over workerPool =
     \<lparr>rp_Submit = (\<lambda>ctx r. sp_Submit workerPool ctx (supplier_of_runnable r)),
      rp_SubmitWithCallback = (\<lambda>ctx r onComplete.
        sp_SubmitWithCallback workerPool ctx (supplier_of_runnable r) (\<lambda>ctx _ err. onComplete ctx err))\<rparr>"

definition NewDefaultRunnableWorkerPool ::
  "('ctx \<Rightarrow> 'p \<Rightarrow> 'w \<Rightarrow> 'e \<times> 'w) \<Rightarrow>
     (('ctx, 'w, unit, 'e, 'p, 'tag) pool \<Rightarrow> ('ctx, 'w, unit, 'e, 'p) pact)
     \<Rightarrow> ('tag Config \<Rightarrow> 'tag Config) list \<Rightarrow> 'w
     \<Rightarrow> ('ctx, 'w, 'e, 'p, ('ctx, 'w, unit, 'e, 'p, 'tag) pool) RunnableWorkerPool \<times> ('ctx, 'w, unit, 'e, 'p, 'tag) pool" where
  "NewDefaultRunnableWorkerPool handle sched opts w =
     (NewRunnableWorkerPool_over (defaultSupplierWorkerPool_methods handle () sched),
      NewDefaultSupplierWorkerPool opts w)"

definition NewFunctionWorkerPool_over ::
  "('ctx, 'w, 'r, 'e, 'p, 's) SupplierWorkerPool \<Rightarrow> ('ctx, 'w, 'a, 'r, 'e, 'p) gofunction
     \<Rightarrow> ('ctx, 'w, 'a, 'r, 'e, 'p, 's) FunctionWorkerPool" where
  "NewFunctionWorkerPool_over workerPool func =
     \<lparr>fp_Submit = (\<lambda>ctx arg. sp_Submit workerPool ctx (NewSupplierFromFunction arg func)),
      fp_SubmitWithCallback = (\<lambda>ctx arg onComplete. sp_SubmitWithCallback workerPool ctx
        (NewSupplierFromFunction arg func) (\<lambda>ctx r err. onComplete ctx arg r err))\<rparr>"

definition NewDefaultFunctionWorkerPool ::
  "('ctx \<Rightarrow> 'p \<Rightarrow> 'w \<Rightarrow> 'e \<times> 'w) \<Rightarrow> 'r \<Rightarrow>
     (('ctx, 'w, 'r, 'e, 'p, 'tag) pool \<Rightarrow> ('ctx, 'w, 'r, 'e, 'p) pact)
     \<Rightarrow> ('ctx, 'w, 'a, 'r, 'e, 'p) gofunction \<Rightarrow> ('tag Config \<Rightarrow> 'tag Config) list \<Rightarrow> 'w
     \<Rightarrow> ('ctx, 'w, 'a, 'r, 'e, 'p, ('ctx, 'w, 'r, 'e, 'p, 'tag) pool) FunctionWorkerPool \<times> ('ctx, 'w, 'r, 'e, 'p, 'tag) pool" where
  "NewDefaultFunctionWorkerPool handle zero sched func opts w =
     (NewFunctionWorkerPool_over (defaultSupplierWorkerPool_methods handle zero sched) func,
      NewDefaultSupplierWorkerPool opts w)"

definition NewConsumerWorkerPool_over ::
  "('ctx, 'w, 'e, 'p, 's) RunnableWorkerPool \<Rightarrow> ('ctx, 'w, 'a, 'e, 'p) consumer
     \<Rightarrow> ('ctx, 'w, 'a, 'e, 'p, 's) ConsumerWorkerPool" where
  "NewConsumerWorkerPool_over workerPool consumer =
     \<lparr>cp_Submit = (\<lambda>ctx arg. rp_Submit workerPool ctx (NewRunnableFromConsumer arg consumer)),
      cp_SubmitWithCallback = (\<lambda>ctx arg onComplete s. map_option snd
        (rp_Submit workerPool ctx (consumer_runnable consumer arg onComplete) s))\<rparr>"

definition NewDefaultConsumerWorkerPool ::
  "('ctx \<Rightarrow> 'p \<Rightarrow> 'w \<Rightarrow> 'e \<times> 'w) \<Rightarrow>
     (('ctx, 'w, unit, 'e, 'p, 'tag) pool \<Rightarrow> ('ctx, 'w, unit, 'e, 'p) pact)
     \<Rightarrow> ('ctx, 'w, 'a, 'e, 'p) consumer \<Rightarrow> ('tag Config \<Rightarrow> 'tag Config) list \<Rightarrow> 'w
     \<Rightarrow> ('ctx, 'w, 'a, 'e, 'p, ('ctx, 'w, unit, 'e, 'p, 'tag) pool) ConsumerWorkerPool \<times> ('ctx, 'w, unit, 'e, 'p, 'tag) pool" where
  "NewDefaultConsumerWorkerPool handle sched consumer opts w =
     (case NewDefaultRunnableWorkerPool handle sched opts w of
        (workerPool, s) \<Rightarrow> (NewConsumerWorkerPool_over workerPool consumer, s))"

section \<open>The executors\<close>

record ('ctx, 'w, 'r, 'e, 'p, 's) SupplierExecutor =
  se_ResolveAll :: "'ctx \<Rightarrow> ('ctx, 'w, 'r, 'e, 'p) supplier list \<Rightarrow> 's \<Rightarrow> (('r list \<times> 'e list) \<times> 's) option"
  se_ResolveUntilError :: "'ctx \<Rightarrow> ('ctx, 'w, 'r, 'e, 'p) supplier list \<Rightarrow> 's \<Rightarrow> (('r list, 'e) result \<times> 's) option"

definition NewDefaultSupplierExecutor ::
  "('ctx, 'w, 'r, 'e, 'p, 's) SupplierWorkerPool \<Rightarrow> ('ctx, 'w, 'r, 'e, 'p, 's) SupplierExecutor" where
  "NewDefaultSupplierExecutor workerPool =
     \<lparr>se_ResolveAll = ResolveAll (sp_Submit workerPool) (\<lambda>ctx future. future ctx),
      se_ResolveUntilError = ResolveUntilError (sp_Submit workerPool) (\<lambda>ctx future. future ctx)\<rparr>"

record ('ctx, 'w, 'e, 'p, 's) RunnableExecutor =
  re_ExecuteRunnables :: "'ctx \<Rightarrow> ('ctx, 'w, 'e, 'p) runnable list \<Rightarrow> 's \<Rightarrow> ('e list \<times> 's) option"
  re_ExecuteRunnable :: "'ctx \<Rightarrow> ('ctx, 'w, 'e, 'p) runnable \<Rightarrow> 's \<Rightarrow> ('e option \<times> 's) option"

definition NewDefaultRunnableExecutor ::
  "('ctx, 'w, 'e, 'p, 's) RunnableWorkerPool \<Rightarrow> ('ctx, 'w, 'e, 'p, 's) RunnableExecutor" where
  "NewDefaultRunnableExecutor voidWorkerPool =
     \<lparr>re_ExecuteRunnables = ExecuteRunnables (rp_Submit voidWorkerPool) (\<lambda>ctx future. future ctx),
      re_ExecuteRunnable = ExecuteRunnable (rp_Submit voidWorkerPool) (\<lambda>ctx future. future ctx)\<rparr>"

text \<open>The maps are visited in the orders \<open>visit1\<close> (the suppliers) and \<open>visit2\<close> (the futures).\<close>

record ('ctx, 'w, 'k, 'r, 'e, 'p, 's) KeyedSupplierExecutor =
  ks_ResolveAll :: "'ctx \<Rightarrow> ('k \<rightharpoonup> ('ctx, 'w, 'r, 'e, 'p) supplier) \<Rightarrow> 'k list \<Rightarrow> 'k list \<Rightarrow> 's
    \<Rightarrow> (('k \<rightharpoonup> 'r, 'e) result \<times> 's) option"

definition NewDefaultKeyedSupplierExecutor ::
  "('ctx, 'w, 'r, 'e, 'p, 's) SupplierWorkerPool \<Rightarrow> ('ctx, 'w, 'k, 'r, 'e, 'p, 's) KeyedSupplierExecutor" where
  "NewDefaultKeyedSupplierExecutor workerPool =
     \<lparr>ks_ResolveAll = (\<lambda>ctx suppliers visit1 visit2.
        keyed_ResolveAll (sp_Submit workerPool) (\<lambda>ctx future. future ctx) ctx
          (List.map_filter (\<lambda>k. map_option (\<lambda>sp. (k, sp)) (suppliers k)) visit1) visit2)\<rparr>"

record ('ctx, 'k, 'r, 'e, 's) KeyedFunctionExecutor =
  kf_GetAll :: "'ctx \<Rightarrow> 'k list \<Rightarrow> 'k list \<Rightarrow> 'k list \<Rightarrow> 's \<Rightarrow> (('k \<rightharpoonup> 'r, 'e) result \<times> 's) option"

definition NewDefaultKeyedFunctionExecutor ::
  "('ctx, 'w, 'k, 'r, 'e, 'p) gofunction \<Rightarrow> ('ctx, 'w, 'r, 'e, 'p, 's) SupplierWorkerPool
     \<Rightarrow> ('ctx, 'k, 'r, 'e, 's) KeyedFunctionExecutor" where
  "NewDefaultKeyedFunctionExecutor underlyingFn workerPool =
     (let keyedSupplierExecutor = NewDefaultKeyedSupplierExecutor workerPool
      in \<lparr>kf_GetAll = (\<lambda>ctx keys.
            ks_ResolveAll keyedSupplierExecutor ctx (supplier_map underlyingFn keys))\<rparr>)"

section \<open>Calls through the interfaces are the calls on the pool\<close>

text \<open>Wrapping the futures changes nothing, when the client's \<open>Get\<close> unwraps them.\<close>

definition wrapping ::
  "('f \<Rightarrow> 'g) \<Rightarrow> ('ctx \<Rightarrow> 'task \<Rightarrow> 's \<Rightarrow> ('f \<times> 's) option) \<Rightarrow> 'ctx \<Rightarrow> 'task \<Rightarrow> 's \<Rightarrow> ('g \<times> 's) option" where
  "wrapping h submit ctx task s = map_option (\<lambda>(f, t). (h f, t)) (submit ctx task s)"

lemma collect_wrapping:
  "collectFutures (wrapping h submit) ctx ts s = map_option (\<lambda>(fs, t). (map h fs, t)) (collectFutures submit ctx ts s)"
  by (induction ts arbitrary: s) (auto simp: getFuture_def wrapping_def split: option.split)

lemma map_option_upd: "map_option h \<circ> fm(key \<mapsto> f) = (map_option h \<circ> fm)(key \<mapsto> h f)"
  by (rule ext) simp

lemma keyed_collect_wrapping:
  "keyed_collect (wrapping h submit) ctx (map_option h \<circ> fm) sups s =
     map_option (\<lambda>(fm, t). (map_option h \<circ> fm, t)) (keyed_collect submit ctx fm sups s)"
proof (induction sups arbitrary: fm s)
  case (Cons kt sups)
  obtain key toCall where kt: "kt = (key, toCall)" by (cases kt)
  show ?case
  proof (cases "submit ctx toCall s")
    case (Some ft)
    then obtain f t where "submit ctx toCall s = Some (f, t)" by (cases ft) simp
    with Cons.IH [of "fm(key \<mapsto> f)" t, unfolded map_option_upd] kt show ?thesis
      by (simp add: getFuture_def wrapping_def [of h submit ctx toCall] del: fun_upd_apply o_apply)
  qed (simp add: kt getFuture_def wrapping_def)
qed simp

lemma ResolveAll_loop_wrapping:
  "ResolveAll_loop (\<lambda>ctx future. future ctx) ctx vs es (map (\<lambda>f ctx. get ctx f) fs) s =
     ResolveAll_loop get ctx vs es fs s"
  by (induction get ctx vs es fs s rule: ResolveAll_loop.induct) (simp_all split: option.split)

lemma ResolveUntilError_loop_wrapping:
  "ResolveUntilError_loop (\<lambda>ctx future. future ctx) ctx vs (map (\<lambda>f ctx. get ctx f) fs) s =
     ResolveUntilError_loop get ctx vs fs s"
  by (induction get ctx vs fs s rule: ResolveUntilError_loop.induct) (simp_all split: option.split)

lemma keyed_loop_wrapping:
  "keyed_loop (\<lambda>ctx future. future ctx) ctx (map_option (\<lambda>f ctx. get ctx f) \<circ> fm) rm visit s =
     keyed_loop get ctx fm rm visit s"
  by (induction visit arbitrary: rm s) (auto split: option.split)

lemma ResolveAll_wrapping:
  "ResolveAll (wrapping (\<lambda>f ctx. get ctx f) submit) (\<lambda>ctx future. future ctx) ctx ts s = ResolveAll submit get ctx ts s"
  by (simp add: ResolveAll_def collect_wrapping ResolveAll_loop_wrapping split: option.split)

lemma ResolveUntilError_wrapping:
  "ResolveUntilError (wrapping (\<lambda>f ctx. get ctx f) submit) (\<lambda>ctx future. future ctx) ctx ts s =
     ResolveUntilError submit get ctx ts s"
  by (simp add: ResolveUntilError_def collect_wrapping ResolveUntilError_loop_wrapping split: option.split)

lemma ExecuteRunnables_wrapping:
  "ExecuteRunnables (wrapping (\<lambda>f ctx. get ctx f) submit) (\<lambda>ctx future. future ctx) ctx rs s =
     ExecuteRunnables submit get ctx rs s"
  by (simp add: ExecuteRunnables_def collect_wrapping ExecuteRunnables_loop_eq [of _ _ "[]" _ _ "[]"]
      ResolveAll_loop_wrapping split: option.split)

lemma ExecuteRunnable_wrapping:
  "ExecuteRunnable (wrapping (\<lambda>f ctx. get ctx f) submit) (\<lambda>ctx future. future ctx) ctx r s =
     ExecuteRunnable submit get ctx r s"
  by (simp add: ExecuteRunnable_def ExecuteRunnables_wrapping)

lemma keyed_ResolveAll_wrapping:
  "keyed_ResolveAll (wrapping (\<lambda>f ctx. get ctx f) submit) (\<lambda>ctx future. future ctx) ctx sups visit s =
     keyed_ResolveAll submit get ctx sups visit s"
  using keyed_collect_wrapping [of "\<lambda>f ctx. get ctx f" submit ctx Map.empty sups s]
  by (simp add: keyed_ResolveAll_def keyed_loop_wrapping split: option.split)

lemma sp_Submit_wrapping:
  "sp_Submit (defaultSupplierWorkerPool_methods handle zero sched) =
     wrapping (\<lambda>f ctx. pool_Get handle zero sched ctx f) (pool_Submit handle zero sched)"
proof -
  have "future_of handle zero sched = (\<lambda>f ctx. pool_Get handle zero sched ctx f)"
    by (rule ext)+ (simp add: future_of_def)
  then show ?thesis by (intro ext) (simp add: defaultSupplierWorkerPool_methods_def wrapping_def)
qed

lemma rp_Submit_wrapping:
  "rp_Submit (NewRunnableWorkerPool_over (defaultSupplierWorkerPool_methods handle () sched)) =
     wrapping (\<lambda>f ctx. pool_Get handle () sched ctx f) (runnable_Submit (pool_Submit handle () sched))"
  by (intro ext) (simp add: NewRunnableWorkerPool_over_def sp_Submit_wrapping wrapping_def runnable_Submit_def)

lemmas dispatch = sp_Submit_wrapping rp_Submit_wrapping ResolveAll_wrapping ResolveUntilError_wrapping
  ExecuteRunnables_wrapping ExecuteRunnable_wrapping keyed_ResolveAll_wrapping

text \<open>The methods of the adapted pools are those of \<open>Pool_Wrappers\<close>.\<close>

lemma adapted_callbacks:
  "rp_SubmitWithCallback (NewRunnableWorkerPool_over (defaultSupplierWorkerPool_methods handle () sched)) =
     runnable_SubmitWithCallback (pool_Submit handle () sched)"
  "fp_SubmitWithCallback (NewFunctionWorkerPool_over (defaultSupplierWorkerPool_methods handle zero sched) func) =
     function_SubmitWithCallback (pool_Submit handle zero sched) func"
  "cp_SubmitWithCallback (NewConsumerWorkerPool_over
      (NewRunnableWorkerPool_over (defaultSupplierWorkerPool_methods handle () sched)) consumer) =
     consumer_SubmitWithCallback (pool_Submit handle () sched) consumer"
  by (intro ext, simp add: NewRunnableWorkerPool_over_def NewFunctionWorkerPool_over_def NewConsumerWorkerPool_over_def
      defaultSupplierWorkerPool_methods_def runnable_SubmitWithCallback_def function_SubmitWithCallback_def
      consumer_SubmitWithCallback_def runnable_Submit_def option.map_comp o_def split_def)+

section \<open>Properties\<close>

text \<open>
  A call of a function pool fresh from its constructor, with any options: \<open>Submit\<close> returns a future
  whose \<open>Get\<close> returns under every scheduling, with an answer that the pool's function can give for
  the submitted argument (a panic counts as an error), and every later \<open>Get\<close> on it gives the
  same answer.
\<close>

theorem function_pool_future:
  assumes "\<forall>opt \<in> set opts. is_option opt"
    and "NewDefaultFunctionWorkerPool handle zero sched func opts w = (workerPool, s)"
  shows "\<exists>future s1 r s2 s3. fp_Submit workerPool ctx arg s = Some (future, s1)
    \<and> future c1 s1 = Some (r, s2) \<and> future c2 s2 = Some (r, s3)
    \<and> gives_result handle zero ctx (\<lambda>c. func c arg) r"
proof -
  from assms(2) have wp: "fp_Submit workerPool = (\<lambda>ctx arg. wrapping (\<lambda>f ctx. pool_Get handle zero sched ctx f)
      (pool_Submit handle zero sched) ctx (NewSupplierFromFunction arg func))"
    and s: "s = NewDefaultSupplierWorkerPool opts w"
    by (auto simp: NewDefaultFunctionWorkerPool_def NewFunctionWorkerPool_over_def sp_Submit_wrapping)
  have sp: "NewSupplierFromFunction arg func = (\<lambda>c. func c arg)" by (rule ext) simp
  have "pool_ok handle zero s" unfolding s by (rule pool_ok_New [OF assms(1)])
  from pc.submit_ok [OF this, of sched ctx "\<lambda>c. func c arg"] obtain f s1 where s1:
    "pool_Submit handle zero sched ctx (\<lambda>c. func c arg) s = Some (f, s1)" "pool_ok handle zero s1"
    "promised s1 f = Some (ctx, \<lambda>c. func c arg)" by auto
  from pc.get_ok [OF s1(2,3), of sched c1] obtain r s2 where s2: "pool_Get handle zero sched c1 f s1 = Some (r, s2)"
    "pool_ok handle zero s2" "promised s2 = promised s1" "answer s2 f = Some r"
    "gives_result handle zero ctx (\<lambda>c. func c arg) r" by blast
  from s2(3) s1(3) have "promised s2 f = Some (ctx, \<lambda>c. func c arg)" by simp
  from pc.get_ok [OF s2(2) this, of sched c2] s2(4) obtain s3 where
    "pool_Get handle zero sched c2 f s2 = Some (r, s3)" by force
  moreover from s1(1) have "fp_Submit workerPool ctx arg s = Some (\<lambda>c. pool_Get handle zero sched c f, s1)"
    by (simp add: wp sp wrapping_def)
  ultimately show ?thesis using s2(1,5) by blast
qed

theorem function_pool_future_witness:
  "\<exists>future s1 s2 s3. fp_Submit (fst (NewDefaultFunctionWorkerPool log_panic (0::nat) (\<lambda>_. PCount)
        (\<lambda>_ (k::nat) (w::nat). if k = 0 then (Panic ''zero'', w) else (Ret (100 div k, None), w))
        [WithMaxNumberOfWorkers 2] 5)) () 0 (NewDefaultSupplierWorkerPool [WithMaxNumberOfWorkers 2] 5
          :: (unit, nat, nat, string, string, nat) pool) = Some (future, s1)
    \<and> future () s1 = Some ((0, Some ''zero!''), s2) \<and> future () s2 = Some ((0, Some ''zero!''), s3)"
proof -
  let ?func = "(\<lambda>_ k w. if k = 0 then (Panic ''zero'', w) else (Ret (100 div k, None), w))
    :: (unit, nat, nat, nat, string, string) gofunction"
  let ?s = "NewDefaultSupplierWorkerPool [WithMaxNumberOfWorkers 2] 5 :: (unit, nat, nat, string, string, nat) pool"
  let ?new = "NewDefaultFunctionWorkerPool log_panic 0 (\<lambda>_. PCount) ?func [WithMaxNumberOfWorkers 2] 5"
  have opts: "\<forall>opt \<in> set [WithMaxNumberOfWorkers 2]. is_option opt" by (auto simp: is_option_def)
  have new: "?new = (fst ?new, ?s)" by (simp add: NewDefaultFunctionWorkerPool_def)
  from function_pool_future [OF opts new, of "()" 0 "()" "()"] obtain future s1 r s2 s3 where
    f: "fp_Submit (fst ?new) () 0 ?s = Some (future, s1)" "future () s1 = Some (r, s2)"
      "future () s2 = Some (r, s3)"
    and r: "gives_result log_panic 0 () (\<lambda>c. ?func c 0) r" by blast
  from r have "r = (0, Some ''zero!'')" by (auto simp: gives_result_def supplied_def log_panic_def)
  with f show ?thesis by blast
qed

text \<open>
  The runnable executor over a runnable pool fresh from its constructor, with any options, returns under
  every scheduling: \<open>ExecuteRunnables\<close> with the errors of the runnables it was given, a panic included,
  in the order of the input, and \<open>ExecuteRunnable\<close> with the error of its runnable.
\<close>

theorem ExecuteRunnables_over_new_pool:
  assumes "\<forall>opt \<in> set opts. is_option opt"
    and "NewDefaultRunnableWorkerPool handle sched opts w = (voidWorkerPool, s)"
  shows "(\<exists>rs s'. re_ExecuteRunnables (NewDefaultRunnableExecutor voidWorkerPool) ctx runnables s
        = Some (errors_of rs, s')
      \<and> list_all2 (gives_result handle () ctx) (map supplier_of_runnable runnables) rs)
    \<and> (\<exists>err s'. re_ExecuteRunnable (NewDefaultRunnableExecutor voidWorkerPool) ctx r s = Some (err, s')
      \<and> gives_result handle () ctx (supplier_of_runnable r) ((), err))"
proof -
  from assms(2) have *: "voidWorkerPool = NewRunnableWorkerPool_over (defaultSupplierWorkerPool_methods handle () sched)"
    "s = NewDefaultSupplierWorkerPool opts w" by (simp_all add: NewDefaultRunnableWorkerPool_def)
  have "pool_ok handle () s" unfolding * by (rule pool_ok_New [OF assms(1)])
  from ExecuteRunnables_spec [OF this] show ?thesis
    by (simp add: NewDefaultRunnableExecutor_def dispatch *(1))
qed

theorem ExecuteRunnables_over_new_pool_witness:
  "\<exists>s'. re_ExecuteRunnables (NewDefaultRunnableExecutor (fst (NewDefaultRunnableWorkerPool log_panic (\<lambda>_. PCount) [] 3)))
      () [\<lambda>_ w. (Ret (Some ''bad''), w), \<lambda>_ w. (Ret None, w + 1), \<lambda>_ w. (Panic ''boom'', w)] run_pool
    = Some ([''bad'', ''boom!''], s')"
proof -
  let ?rs = "[\<lambda>_ w. (Ret (Some ''bad''), w), \<lambda>_ w. (Ret None, w + 1), \<lambda>_ w. (Panic ''boom'', w)]
    :: (unit, nat, string, string) runnable list"
  let ?new = "NewDefaultRunnableWorkerPool log_panic (\<lambda>_. PCount) [] 3"
  have opts: "\<forall>opt \<in> set []. is_option opt" by simp
  have new: "?new = (fst ?new, run_pool)" by (simp add: NewDefaultRunnableWorkerPool_def run_pool_def)
  from ExecuteRunnables_over_new_pool [OF opts new, of "()" ?rs] obtain rs s' where
    r: "re_ExecuteRunnables (NewDefaultRunnableExecutor (fst ?new)) () ?rs run_pool = Some (errors_of rs, s')"
    and g: "list_all2 (gives_result log_panic () ()) (map supplier_of_runnable ?rs) rs" by blast
  from g have "errors_of rs = [''bad'', ''boom!'']"
    by (auto simp: list_all2_Cons1 gives_result_def supplied_def supplier_of_runnable_run log_panic_def)
  with r show ?thesis by simp
qed



end
