(* ===== verification/Serial_Pool.thy ===== *)
theory Serial_Pool
  imports Executor_Interface
begin

text \<open>
  What the concurrency of the pool comes to for a client that has it to itself. The suppliers run by
  the workers of a pool have the same effect as a sequential run in some order, the one in which
  the workers called \<open>Compute\<close>; with one worker it is the order of submission. The reference is
  \<open>run_tasks\<close>. The client's calls are paths of the pool's machine, so that an invariant of the machine
  says what the calls return.
\<close>

section \<open>The sequential reference\<close>

fun run_tasks ::
  "('ctx \<Rightarrow> 'p \<Rightarrow> 'w \<Rightarrow> 'e \<times> 'w) \<Rightarrow> 'r \<Rightarrow> ('ctx \<times> ('ctx, 'w, 'r, 'e, 'p) supplier) list \<Rightarrow> 'w
     \<Rightarrow> ('r, 'e) result list \<times> 'w" where
  "run_tasks handle zero [] w = ([], w)"
| "run_tasks handle zero ((ctx, sp) # ts) w =
     (case supplied handle zero sp ctx w of
        (r, w1) \<Rightarrow> (case run_tasks handle zero ts w1 of (rs, w2) \<Rightarrow> (r # rs, w2)))"

lemma run_tasks_snoc:
  "run_tasks handle zero (ts @ [(ctx, sp)]) w =
     (case run_tasks handle zero ts w of
        (rs, w1) \<Rightarrow> (case supplied handle zero sp ctx w1 of (r, w2) \<Rightarrow> (rs @ [r], w2)))"
  by (induction handle zero ts w rule: run_tasks.induct) (simp_all split: prod.split)

lemma length_run_tasks: "length (fst (run_tasks handle zero ts w)) = length ts"
  by (induction ts arbitrary: w) (auto simp: split_beta)

section \<open>The calls of a client are paths of the machine\<close>

definition client_step ::
  "('ctx \<Rightarrow> 'p \<Rightarrow> 'w \<Rightarrow> 'e \<times> 'w) \<Rightarrow> 'r \<Rightarrow> ('ctx, 'w, 'r, 'e, 'p, 'tag) pool \<Rightarrow> ('ctx, 'w, 'r, 'e, 'p) pact
     \<Rightarrow> ('ctx, 'w, 'r, 'e, 'p, 'tag) pool \<Rightarrow> bool" where
  "client_step handle zero s a t \<longleftrightarrow>
     pexec handle zero s a = Some t \<and> (pinternal a \<or> (\<exists>ctx sp. a = PSubmit ctx sp))"

lemma drive_path:
  "drive handle zero sched until fuel s = Some t \<Longrightarrow> \<exists>as. path (client_step handle zero) s as t"
proof (induction fuel arbitrary: s)
  case 0
  then show ?case by (auto intro: path_Nil split: if_splits)
next
  case (Suc fuel)
  show ?case
  proof (cases "until s")
    case True
    with Suc.prems show ?thesis by (auto intro: path_Nil)
  next
    case False
    with Suc.prems obtain a u where a: "pick handle zero sched s = Some a" "pexec handle zero s a = Some u"
      "drive handle zero sched until fuel u = Some t" by (auto split: option.splits)
    from Suc.IH [OF a(3)] obtain as where "path (client_step handle zero) u as t" ..
    moreover have "client_step handle zero s a u"
      using pick_enabled [OF a(1)] a(2) by (simp add: client_step_def enabled_def)
    ultimately show ?thesis by (blast intro: path_Cons)
  qed
qed

lemma pool_Submit_path:
  assumes "pool_Submit handle zero sched ctx sp s = Some (f, t)"
  shows "\<exists>as. path (client_step handle zero) s as t"
proof -
  from assms obtain u until where u: "pexec handle zero s (PSubmit ctx sp) = Some u"
    "drive handle zero sched until (pool_rank u) u = Some t"
    by (auto simp: pool_Submit_def split: option.splits)
  from u(1) have "client_step handle zero s (PSubmit ctx sp) u" by (simp add: client_step_def)
  with drive_path [OF u(2)] show ?thesis by (blast intro: path_Cons)
qed

lemma pool_Get_path:
  assumes "pool_Get handle zero sched ctx f s = Some (r, t)"
  shows "\<exists>as. path (client_step handle zero) s as t"
  using assms by (auto simp: pool_Get_def split: option.splits dest!: drive_path)

text \<open>What every call keeps, the executor keeps.\<close>

lemma collect_keeps:
  "collectFutures submit ctx ts s = Some (fs, t) \<Longrightarrow> P s \<Longrightarrow>
   (\<And>ctx task s f t. submit ctx task s = Some (f, t) \<Longrightarrow> P s \<Longrightarrow> P t) \<Longrightarrow> P t"
  by (induction ts arbitrary: s fs) (fastforce simp: getFuture_def split: option.splits)+

lemma ResolveAll_loop_keeps:
  "ResolveAll_loop get ctx vs es fs s = Some (x, t) \<Longrightarrow> P s \<Longrightarrow>
   (\<And>ctx f s r t. get ctx f s = Some (r, t) \<Longrightarrow> P s \<Longrightarrow> P t) \<Longrightarrow> P t"
  by (induction fs arbitrary: s vs es) (fastforce split: option.splits)+

lemma ResolveAll_keeps:
  assumes "ResolveAll submit get ctx ts s = Some (x, t)" and "P s"
    and "\<And>ctx task s f t. submit ctx task s = Some (f, t) \<Longrightarrow> P s \<Longrightarrow> P t"
    and "\<And>ctx f s r t. get ctx f s = Some (r, t) \<Longrightarrow> P s \<Longrightarrow> P t"
  shows "P t"
proof -
  from assms(1) obtain fs u where "collectFutures submit ctx ts s = Some (fs, u)"
    "ResolveAll_loop get ctx [] [] fs u = Some (x, t)" by (auto simp: ResolveAll_def split: option.splits)
  with collect_keeps [of submit ctx ts s fs u P] ResolveAll_loop_keeps [of get ctx "[]" "[]" fs u x t P] assms(2-4)
  show ?thesis by blast
qed

section \<open>The invariant\<close>

text \<open>
  The tasks computed so far, run one after the other from the world \<open>w0\<close>, give the answers the
  futures hold and the world of the pool; everything submitted was accepted, in order.
\<close>

definition serial_inv ::
  "('ctx \<Rightarrow> 'p \<Rightarrow> 'w \<Rightarrow> 'e \<times> 'w) \<Rightarrow> 'r \<Rightarrow> 'w \<Rightarrow> ('ctx, 'w, 'r, 'e, 'p, 'tag) pool \<Rightarrow> bool" where
  "serial_inv handle zero w0 s \<longleftrightarrow> open_inv handle zero s
     \<and> accepted s = [0..<length (futures s)]
     \<and> run_tasks handle zero (map (\<lambda>k. the (promised s k)) (computed s)) w0 =
         (map (\<lambda>k. the (answer s k)) (computed s), world s)"

lemma computed_taken: "pool_task_inv s \<Longrightarrow> set (computed s) \<subseteq> set (taken s)"
  by (metis mset_subset_eq_add_right pool_task_inv_def set_mset_mono set_mset_mset)

lemma computed_answer:
  assumes "p_inv s" and "k \<in> set (computed s)"
  shows "k < length (futures s)" "answer s k \<noteq> None"
proof -
  have t: "pool_task_inv s" using assms(1) by (simp add: p_inv_def)
  with computed_taken [OF this] assms(2) show "k < length (futures s)" by (auto simp: pool_task_inv_def)
  with t assms(2) show "answer s k \<noteq> None" by (auto simp: answer_def pool_task_inv_def Get_result_def split: option.split)
qed

text \<open>A step that leaves the world alone and only adds promises and answers.\<close>

lemma serial_frame:
  assumes inv: "p_inv s"
    and run: "run_tasks handle zero (map (\<lambda>k. the (promised s k)) (computed s)) w0 =
         (map (\<lambda>k. the (answer s k)) (computed s), world s)"
    and same: "computed t = computed s" "world t = world s"
    and kept: "\<And>k. k < length (futures s) \<Longrightarrow> promised t k = promised s k"
      "\<And>k r. answer s k = Some r \<Longrightarrow> answer t k = Some r"
  shows "run_tasks handle zero (map (\<lambda>k. the (promised t k)) (computed t)) w0 =
         (map (\<lambda>k. the (answer t k)) (computed t), world t)"
proof -
  have "promised t k = promised s k" "answer t k = answer s k" if "k \<in> set (computed s)" for k
    using computed_answer [OF inv that] kept [of k] by auto
  then have "map (\<lambda>k. the (promised t k)) (computed s) = map (\<lambda>k. the (promised s k)) (computed s)"
    "map (\<lambda>k. the (answer t k)) (computed s) = map (\<lambda>k. the (answer s k)) (computed s)" by simp_all
  with run same show ?thesis by (simp del: map_eq_conv)
qed


lemma serial_compute:
  assumes inv: "serial_inv handle zero w0 s" and step: "pexec handle zero s (WCompute i) = Some t"
  shows "serial_inv handle zero w0 t"
proof -
  have p: "open_inv handle zero s" "p_inv s" "pool_task_inv s"
    using inv by (simp_all add: serial_inv_def open_inv_def p_inv_def)
  from step obtain k where st: "i < length (workers s)" "workers s ! i = WRun k"
    and t: "t = worker_compute handle zero i k s" by (auto elim: pexec_WCompute_cases)
  note r = pool_task_WRun [OF p(3) st(1), of k, unfolded st(2) has_task.simps, OF refl]
  let ?c = "contextToRunFutureWith (cells (pqueue s) ! k)"
  let ?ran = "supplied handle zero (supplier (futures s ! k)) ?c (world s)"
  have none: "Get_result (futures s ! k) = None" "computationResult (futures s ! k) = None"
    using r(2,4) p(3) by (auto simp: pool_task_inv_def Get_result_def split: option.split)
  have k: "promised s k = Some (?c, supplier (futures s ! k))" using r(2) by (simp add: promised_def)
  have futs: "futures t = (futures s)[k := fst (snd (Compute handle zero ?c (futures s ! k) (world s)))]"
    using worker_compute_futures [OF r(3) [symmetric] refl] by (simp add: t)
  have w: "world t = snd ?ran"
    using Compute_unset [OF none(2), of handle zero ?c "world s"] r(3)
    by (simp add: t worker_compute_def Let_def split_beta)
  have ans: "answer t k = Some (fst ?ran)"
    using r(2) by (simp add: answer_def futs Compute_result none(1))
  note keep = promised_keep [OF p(2) step, simplified]
  have old: "promised t j = promised s j" "answer t j = answer s j" if "j \<in> set (computed s)" for j
    using computed_answer [OF p(2) that] keep(1) keep(2) [of j] by auto
  then have m: "map (\<lambda>j. the (promised t j)) (computed s) = map (\<lambda>j. the (promised s j)) (computed s)"
    "map (\<lambda>j. the (answer t j)) (computed s) = map (\<lambda>j. the (answer s j)) (computed s)" by simp_all
  have "run_tasks handle zero (map (\<lambda>j. the (promised t j)) (computed t)) w0 =
      (map (\<lambda>j. the (answer t j)) (computed t), world t)"
    using inv k keep(1) unfolding serial_inv_def
    by (simp add: t [THEN arg_cong [where f = computed]] m run_tasks_snoc w ans split_beta del: map_eq_conv)
  moreover have "accepted t = [0..<length (futures t)]"
    using inv pexec_keeps_futures [OF p(2) step] by (simp add: serial_inv_def)
  ultimately show ?thesis
    using open_inv_step [OF p(1) step] by (simp add: serial_inv_def)
qed

lemma serial_enqueue:
  assumes inv: "serial_inv handle zero w0 s" and step: "pexec handle zero s (PEnqueue c) = Some t"
  shows "serial_inv handle zero w0 t"
proof -
  have p: "open_inv handle zero s" "p_inv s" "pool_task_inv s"
    using inv by (simp_all add: serial_inv_def open_inv_def p_inv_def)
  from step obtain ctx sp wk q where
    add: "fq_Add \<lparr>contextToRunFutureWith = ctx, underlyingFuture = length (futures s)\<rparr> (pqueue s) = (wk, q)"
    and t: "futures t = futures s @ [NewDefaultComputingFuture sp]" "pqueue t = q" "computed t = computed s"
      "world t = world s" "accepted t = (if fq_ShuttingDown (pqueue s) then accepted s
          else accepted s @ [length (cells (pqueue s))])"
    by (auto elim!: pexec_PEnqueue_cases)
  have len: "length (cells (pqueue s)) = length (futures s)" using p(3) by (simp add: pool_task_inv_def)
  have "accepted t = [0..<length (futures t)]"
    using inv p(1) t(1,5) len by (simp add: serial_inv_def open_inv_def fq_ShuttingDown_def cq_ShuttingDown_def)
  moreover have "run_tasks handle zero (map (\<lambda>k. the (promised t k)) (computed t)) w0 =
         (map (\<lambda>k. the (answer t k)) (computed t), world t)"
  proof (rule serial_frame [OF p(2) _ t(3,4)])
    show "promised t k = promised s k" if "k < length (futures s)" for k
      using that fq_Add_wake [OF add] len by (simp add: promised_def t nth_append)
    show "answer t k = Some r" if "answer s k = Some r" for k r
      using that by (auto simp: answer_def t nth_append split: if_splits)
  qed (use inv in \<open>simp add: serial_inv_def\<close>)
  ultimately show ?thesis
    using open_inv_step [OF p(1) step] by (simp add: serial_inv_def)
qed

lemma serial_step:
  assumes inv: "serial_inv handle zero w0 s" and step: "client_step handle zero s a t"
  shows "serial_inv handle zero w0 t"
proof -
  have p: "open_inv handle zero s" "p_inv s" using inv by (simp_all add: serial_inv_def open_inv_def)
  from step have ex: "pexec handle zero s a = Some t" and a: "pinternal a \<or> (\<exists>ctx sp. a = PSubmit ctx sp)"
    by (simp_all add: client_step_def)
  show ?thesis
  proof (cases "(\<exists>c. a = PEnqueue c) \<or> (\<exists>i. a = WCompute i)")
    case True
    with ex serial_enqueue [OF inv] serial_compute [OF inv] show ?thesis by auto
  next
    case False
    then have ne: "\<And>c. a \<noteq> PEnqueue c" by blast
    have same: "computed t = computed s" "world t = world s"
      using ex a False by (cases a; auto simp: pexec.simps worker_get_def startWorkerAsync_def
          split: if_splits submission.splits worker.splits prod.splits get_result.splits)+
    note keep = promised_keep [OF p(2) ex ne] and futs = pexec_keeps_futures [OF p(2) ex ne]
    have "open_inv handle zero t"
    proof (cases "pinternal a")
      case True
      show ?thesis by (rule open_inv_step [OF p(1) ex True])
    next
      case False
      with a ex obtain sub where t: "t = s\<lparr>submitting := sub\<rparr>" by (auto simp: pexec.simps split: if_splits)
      with p p_inv_step [OF p(2) ex] show ?thesis by (simp add: open_inv_def pool_result_inv_def)
    qed
    moreover have "run_tasks handle zero (map (\<lambda>k. the (promised t k)) (computed t)) w0 =
         (map (\<lambda>k. the (answer t k)) (computed t), world t)"
      using inv keep(1,2) by (intro serial_frame [OF p(2) _ same]) (simp_all add: serial_inv_def)
    ultimately show ?thesis using inv futs by (simp add: serial_inv_def)
  qed
qed

lemma serial_New:
  assumes "\<forall>opt \<in> set opts. is_option opt"
  shows "serial_inv handle zero w (NewDefaultSupplierWorkerPool opts w)"
  using pool_ok_New [OF assms, of handle zero w]
  by (simp add: serial_inv_def pool_ok_def) (simp add: NewDefaultSupplierWorkerPool_def)


section \<open>One worker\<close>

text \<open>With a maximum of one worker the tasks are computed in the order they are taken.\<close>

definition in_order :: "('ctx, 'w, 'r, 'e, 'p, 'tag) pool \<Rightarrow> bool" where
  "in_order s \<longleftrightarrow> maxNumberOfWorkers (config s) = Some 1 \<and> p_inv s \<and> taken s = computed s @ tasks_of (workers s)"

lemma pexec_config: "pexec handle zero s a = Some t \<Longrightarrow> config t = config s"
  by (cases a; auto simp: pexec.simps worker_get_def submit_add_def Let_def shutDownQueueIfNeeded_def
      startWorkerAsync_def split: if_splits submission.splits worker.splits prod.splits get_result.splits option.splits)

lemma only_worker:
  assumes "in_order s" and "i < length (workers s)"
  shows "i = 0" "workers s = [workers s ! i]"
proof -
  have "pool_count_inv s" "maxNumberOfWorkers (config s) = Some 1" using assms(1) by (simp_all add: in_order_def p_inv_def)
  then have "int (length (workers s)) \<le> 1" unfolding pool_count_inv_def by blast
  with assms(2) have "length (workers s) = 1" by simp
  then show "i = 0" "workers s = [workers s ! i]" using assms(2) by (auto simp: length_Suc_conv)
qed

lemma in_order_get:
  assumes inv: "in_order s" and step: "pexec handle zero s (WGet i) = Some t"
  shows "taken t = computed t @ tasks_of (workers t)"
proof -
  from step obtain b where i: "i < length (workers s)" "workers s ! i = WLoop b \<or> workers s ! i = WWoken b"
    and t: "t = worker_get i b s" by (auto elim!: pexec_WGet_cases)
  note one = only_worker [OF inv i(1)]
  from i(2) one(2) have "tasks_of (workers s) = []" by (auto simp: tasks_of_def)
  moreover obtain g where "workers s = [g]" using one(2) by metis
  ultimately show ?thesis using inv one(1)
    by (cases "queue (delegate (pqueue s))") (auto simp: in_order_def t worker_get_empty worker_get_item tasks_of_def)
qed

lemma in_order_step:
  assumes inv: "in_order s" and step: "pexec handle zero s a = Some t"
  shows "in_order t"
proof -
  have q: "pool_queue_inv s" using inv by (simp add: in_order_def p_inv_def)
  have taken: "taken s = computed s @ tasks_of (workers s)" using inv by (simp add: in_order_def)
  have "taken t = computed t @ tasks_of (workers t)"
  proof (cases a)
    case (WGet i)
    with step show ?thesis by (auto intro: in_order_get [OF inv])
  next
    case (WDone i c)
    with step obtain p wk q' ws where st: "i < length (workers s)" "workers s ! i = WTaken p"
      "wake_workers wk c ((workers s)[i := WRun p]) = Some ws"
      and t: "t = s\<lparr>pqueue := q', workers := ws\<rparr>" using WDone_frame [OF q, of handle zero i c t] by metis
    from only_worker [OF inv st(1)] st(2) have "tasks_of ((workers s)[i := WRun p]) = tasks_of (workers s)"
      by (metis append_Nil2 concat.simps has_task.simps(1,2) list.simps(8,9) list_update_code(2) tasks_of_def)
    with taken wake_workers_frame(2) [OF st(3)] show ?thesis by (simp add: t)
  next
    case (WCompute i)
    with step obtain p where st: "i < length (workers s)" "workers s ! i = WRun p"
      and t: "t = worker_compute handle zero i p s" by (auto elim: pexec_WCompute_cases)
    obtain g where "workers s = [g]" "i = 0" using only_worker [OF inv st(1)] by metis
    with st taken show ?thesis by (simp add: t tasks_of_def)
  next
    case (WFree i)
    with step have st: "i < length (workers s)" "workers s ! i = WMark"
      and t: "t = s\<lparr>numberFree := numberFree s + 1, workers := (workers s)[i := WLoop True]\<rparr>"
      by (auto simp: pexec.simps split: if_splits)
    obtain g where "workers s = [g]" "i = 0" using only_worker [OF inv st(1)] by metis
    with st taken show ?thesis by (simp add: t tasks_of_def)
  next
    case (WPanic i)
    with step have st: "i < length (workers s)" "workers s ! i = WMark"
      and t: "t = s\<lparr>workers := (workers s)[i := startWorker_next WDied (pqueue s)]\<rparr>"
      by (auto simp: pexec.simps split: if_splits)
    obtain g where "workers s = [g]" "i = 0" using only_worker [OF inv st(1)] by metis
    with st taken show ?thesis by (simp add: t tasks_of_def startWorker_next_def)
  next
    case (PEnqueue c)
    with step taken show ?thesis by (auto elim!: pexec_PEnqueue_cases dest!: wake_workers_frame(2))
  next
    case PClose
    with step have t: "t = s\<lparr>pqueue := snd (fq_ShutDown (pqueue s)), workers := map w_awake (workers s)\<rparr>"
      by (auto elim!: pexec_PClose_cases)
    have "wake_workers Broadcast None (workers s) = Some (map w_awake (workers s))"
      by (simp add: wake_workers_def wake_by_def)
    from wake_workers_frame(2) [OF this] taken show ?thesis by (simp add: t)
  qed (use step taken in \<open>auto simp: pexec.simps startWorkerAsync_def tasks_of_def split: submission.splits if_splits\<close>)
  with inv p_inv_step [OF _ step] pexec_config [OF step] show ?thesis by (simp add: in_order_def)
qed

lemma in_order_New:
  fixes w :: 'w
  assumes "\<forall>opt \<in> set opts. is_option opt" and "maxNumberOfWorkers (apply_options opts) = Some 1"
  shows "in_order (NewDefaultSupplierWorkerPool opts w :: ('ctx, 'w, 'r, 'e, 'p, 'tag) pool)"
proof -
  let ?s = "NewDefaultSupplierWorkerPool opts w :: ('ctx, 'w, 'r, 'e, 'p, 'tag) pool"
  have "p_inv ?s" using assms(1) by (intro p_inv_init) (auto simp: pinit_def)
  with assms(2) show ?thesis by (simp add: in_order_def) (simp add: NewDefaultSupplierWorkerPool_def tasks_of_def)
qed

section \<open>What ResolveAll returns\<close>

lemma client_path_keeps:
  assumes "path (client_step handle zero) s as t" and "P s"
    and "\<And>s a t. client_step handle zero s a t \<Longrightarrow> P s \<Longrightarrow> P t"
  shows "P t"
  using assms(1,2) by (induction rule: path.induct) (auto intro: assms(3))

text \<open>On a new pool the futures of the suppliers are numbered in the order of submission.\<close>

lemma promised_dom: "dom (promised s) = {..<length (futures s)}"
  by (auto simp: promised_def dom_def)

lemma collect_numbers:
  assumes "pool_ok handle zero s"
  shows "\<exists>t. collectFutures (pool_Submit handle zero sched) ctx ts s =
      Some ([length (futures s)..<length (futures s) + length ts], t)
    \<and> pool_ok handle zero t \<and> length (futures t) = length (futures s) + length ts"
  using assms
proof (induction ts arbitrary: s)
  case (Cons sp ts)
  from pool_Submit_ok [OF Cons.prems, of sched ctx sp] obtain f u where u:
    "pool_Submit handle zero sched ctx sp s = Some (f, u)" "pool_ok handle zero u"
    "promised s f = None" "promised u = (promised s)(f \<mapsto> (ctx, sp))" by blast
  from u(4) have dom: "{..<length (futures u)} = insert f {..<length (futures s)}"
    using promised_dom [of u] promised_dom [of s] by simp
  from u(3) have "f \<notin> {..<length (futures s)}" using promised_dom [of s] by auto
  with dom have len: "length (futures u) = Suc (length (futures s))"
    by (metis card.insert card_lessThan finite_lessThan)
  from dom have "f < length (futures u)" by auto
  with \<open>f \<notin> _\<close> len have f: "f = length (futures s)" by simp
  from Cons.IH [OF u(2)] obtain t where
    "collectFutures (pool_Submit handle zero sched) ctx ts u = Some ([length (futures u)..<length (futures u) + length ts], t)"
    "pool_ok handle zero t" "length (futures t) = length (futures u) + length ts" by blast
  moreover have "[n..<n + Suc m] = n # [Suc n..<Suc n + m]" for n m :: nat
    by (simp add: upt_conv_Cons del: upt_Suc)
  ultimately show ?case using u(1) f len by (simp add: getFuture_def del: upt_Suc)
qed simp

lemma get_keeps_promises:
  "ResolveAll_loop (pool_Get handle zero sched) ctx vs es fs s = Some (x, t) \<Longrightarrow> pool_ok handle zero s \<Longrightarrow>
   \<forall>f \<in> set fs. promised s f \<noteq> None \<Longrightarrow> promised t = promised s"
proof (induction fs arbitrary: s vs es)
  case (Cons f fs)
  from Cons.prems(3) obtain c sp where "promised s f = Some (c, sp)" by auto
  from pool_Get_ok [OF Cons.prems(2) this, of sched ctx] obtain v err u where u:
    "pool_Get handle zero sched ctx f s = Some ((v, err), u)" "pool_ok handle zero u" "promised u = promised s"
    by force
  with Cons.prems Cons.IH [OF _ u(2)] show ?case by (auto split: option.splits)
qed simp

lemma ResolveAll_on_new:
  assumes opts: "\<forall>opt \<in> set opts. is_option opt"
  shows "\<exists>rs t. ResolveAll (pool_Submit handle zero sched) (pool_Get handle zero sched) ctx ts
        (NewDefaultSupplierWorkerPool opts w) = Some ((ok_values rs, errors_of rs), t)
      \<and> length rs = length ts \<and> length (futures t) = length ts
      \<and> (\<forall>k < length ts. promised t k = Some (ctx, ts ! k) \<and> answer t k = Some (rs ! k))"
proof -
  let ?s = "NewDefaultSupplierWorkerPool opts w" and ?submit = "pool_Submit handle zero sched"
  have ok: "pool_ok handle zero ?s" by (rule pool_ok_New [OF opts])
  have "futures ?s = []" by (simp add: NewDefaultSupplierWorkerPool_def)
  with collect_numbers [OF ok, of sched ctx ts] obtain u where
    u: "collectFutures ?submit ctx ts ?s = Some ([0..<length ts], u)" "pool_ok handle zero u"
      "length (futures u) = length ts" by auto
  with pe.collect [OF ok, of sched ctx ts] have hold: "pe.holds_for ctx u [0..<length ts] ts" by auto
  from pe.get_all [OF u(2) hold, of sched "[]" "[]"] obtain rs t where
    t: "ResolveAll_loop (pool_Get handle zero sched) ctx [] [] [0..<length ts] u = Some ((ok_values rs, errors_of rs), t)"
    and ans: "pe.answered handle zero ctx t [0..<length ts] ts rs" by auto
  have len: "length rs = length ts" using ans by (auto simp: pe.answered_def dest: list_all2_lengthD)
  have prom: "promised u k = Some (ctx, ts ! k)" if "k < length ts" for k
    using hold that by (auto simp: pe.holds_for_def list_all2_conv_all_nth)
  then have same: "promised t = promised u" by (intro get_keeps_promises [OF t u(2)]) simp
  with u(3) promised_dom [of t] promised_dom [of u] have "length (futures t) = length ts" by simp
  moreover have "answer t k = Some (rs ! k)" if "k < length ts" for k
    using ans that by (auto simp: pe.answered_def list_all2_conv_all_nth)
  ultimately show ?thesis
    using u(1) t len prom same by (intro exI [of _ rs] exI [of _ t]) (simp add: ResolveAll_def)
qed

text \<open>Both invariants hold when \<open>ResolveAll\<close> returns.\<close>

lemma ResolveAll_client_keeps:
  assumes "ResolveAll (pool_Submit handle zero sched) (pool_Get handle zero sched) ctx ts s = Some (x, t)" and "P s"
    and "\<And>s a t. client_step handle zero s a t \<Longrightarrow> P s \<Longrightarrow> P t"
  shows "P t"
  using assms(1,2)
proof (rule ResolveAll_keeps)
  show "P v" if "pool_Submit handle zero sched c sp u = Some (f, v)" "P u" for c sp u f v
    using pool_Submit_path [OF that(1)] that(2) assms(3) client_path_keeps [of handle zero u _ v P] by blast
  show "P v" if "pool_Get handle zero sched c f u = Some (r, v)" "P u" for c f u r v
    using pool_Get_path [OF that(1)] that(2) assms(3) client_path_keeps [of handle zero u _ v P] by blast
qed

lemma all_computed:
  assumes inv: "pool_task_inv s" and every: "\<forall>k < length (futures s). answer s k \<noteq> None"
  shows "distinct (computed s)" "set (computed s) = {..<length (futures s)}"
proof -
  have d: "distinct (taken s)" and m: "mset (taken s) = mset (tasks_of (workers s)) + mset (computed s)"
    using inv by (auto simp: pool_task_inv_def)
  then show "distinct (computed s)" by (metis distinct_append mset_append mset_eq_imp_distinct_iff)
  have "k \<in> set (computed s)" if "k < length (futures s)" for k
  proof -
    from every that have "answer s k \<noteq> None" by blast
    then have "computationResult (futures s ! k) \<noteq> None"
      by (auto simp: answer_def Get_result_def split: if_splits option.splits)
    with inv that show ?thesis by (simp add: pool_task_inv_def)
  qed
  with computed_taken [OF inv] inv show "set (computed s) = {..<length (futures s)}"
    by (auto simp: pool_task_inv_def)
qed

section \<open>Properties\<close>



text \<open>
  Claim C5: with a pool of one worker \<open>ResolveAll\<close> is the sequential loop. Whatever the schedule, it
  returns the values and the errors, and leaves the world, of running the suppliers one after
  the other in the order of the input.
\<close>

theorem one_worker_is_the_loop:
  assumes opts: "\<forall>opt \<in> set opts. is_option opt" and one: "maxNumberOfWorkers (apply_options opts) = Some 1"
  shows "\<exists>t. se_ResolveAll (NewDefaultSupplierExecutor (defaultSupplierWorkerPool_methods handle zero sched))
        ctx suppliers (NewDefaultSupplierWorkerPool opts w) =
        Some ((ok_values (fst (run_tasks handle zero (map (Pair ctx) suppliers) w)),
               errors_of (fst (run_tasks handle zero (map (Pair ctx) suppliers) w))), t)
      \<and> world t = snd (run_tasks handle zero (map (Pair ctx) suppliers) w)"
proof -
  let ?n = "length suppliers" and ?s = "NewDefaultSupplierWorkerPool opts w"
  from ResolveAll_on_new [OF opts, of handle zero sched ctx suppliers w] obtain rs t where
    r: "ResolveAll (pool_Submit handle zero sched) (pool_Get handle zero sched) ctx suppliers ?s =
        Some ((ok_values rs, errors_of rs), t)"
    and len: "length rs = ?n" "length (futures t) = ?n"
    and each: "\<forall>k < ?n. promised t k = Some (ctx, suppliers ! k) \<and> answer t k = Some (rs ! k)" by blast
  have ord: "in_order t"
    by (rule ResolveAll_client_keeps [where P = in_order, OF r in_order_New [OF opts one]]) (auto simp: client_step_def intro: in_order_step)
  have inv: "serial_inv handle zero w t"
    by (rule ResolveAll_client_keeps [where P = "serial_inv handle zero w", OF r serial_New [OF opts]]) (rule serial_step)
  then have t: "pool_task_inv t" and acc: "accepted t = [0..<?n]"
    using len(2) by (simp_all add: serial_inv_def open_inv_def p_inv_def)
  note set = all_computed [OF t, unfolded len(2)]
  have "length (computed t) = ?n" using set each distinct_card [of "computed t"] by simp
  moreover have "[0..<?n] = computed t @ tasks_of (workers t) @ queue (delegate (pqueue t))"
    using t ord acc by (simp add: pool_task_inv_def in_order_def)
  ultimately have order: "computed t = [0..<?n]" by (metis append_eq_conv_conj diff_zero length_upt take_all_iff order_refl)
  have "map (\<lambda>k. the (promised t k)) [0..<?n] = map (Pair ctx) suppliers"
    "map (\<lambda>k. the (answer t k)) [0..<?n] = rs" using each len by (auto intro: nth_equalityI)
  with inv have "run_tasks handle zero (map (Pair ctx) suppliers) w = (rs, world t)"
    by (simp add: serial_inv_def order)
  with r show ?thesis by (simp add: NewDefaultSupplierExecutor_def dispatch)
qed

theorem one_worker_is_the_loop_witness:
  "\<exists>t. se_ResolveAll (NewDefaultSupplierExecutor (defaultSupplierWorkerPool_methods log_panic 0 (\<lambda>_. PCount)))
        () [tick, boom, tick] (NewDefaultSupplierWorkerPool [WithMaxNumberOfWorkers 1] 5 :: (unit, nat, nat, string, string, nat) pool)
      = Some (([5, 6], [''boom!'']), t) \<and> world t = 7"
proof -
  have opts: "\<forall>opt \<in> set [WithMaxNumberOfWorkers 1]. is_option opt" by (auto simp: is_option_def)
  have one: "maxNumberOfWorkers (apply_options [WithMaxNumberOfWorkers 1]) = Some 1"
    by (simp add: apply_options_def WithMaxNumberOfWorkers_def)
  have "run_tasks log_panic 0 (map (Pair ()) [tick, boom, tick]) 5 = ([(5, None), (0, Some ''boom!''), (6, None)], 7)"
    by (simp add: supplied_def tick_def boom_def log_panic_def)
  with one_worker_is_the_loop [OF opts one, of log_panic 0 "\<lambda>_. PCount" "()" "[tick, boom, tick]" 5]
  show ?thesis by simp
qed

end
