(* ===== verification/Parallel_For.thy ===== *)
theory Parallel_For
  imports Prelude
begin

text \<open>
  \<open>parallel/for.go\<close> with the part of \<open>errgroup\<close> it uses. \<open>For\<close> is a machine: the
  index channel is filled and closed before the first worker starts, so it is the list of the
  indices left; the workers take indices from it, run \<open>forFn\<close> under
  \<open>wapp.RunWithFatalLogging\<close> and finish with their first error, which the error group keeps
  when it is the first to arrive. The recovery that \<open>For\<close> puts around \<open>worker\<close> has nothing to
  recover, since each call is recovered inside. Steps of different workers interleave freely, and everything
  else may change the world between them. \<open>Forever\<close> is a second machine.
\<close>

section \<open>For\<close>

datatype 'e fworker =
    PLoop "'e option"          \<comment> \<open>about to receive from the channel; \<open>firstErr\<close>\<close>
  | PRunning nat "'e option"   \<comment> \<open>running \<open>forFn\<close> on an index\<close>
  | PReturned "'e option"      \<comment> \<open>\<open>worker\<close> returned this error\<close>

text \<open>The last two fields are history: the indices started, and the errors by index.\<close>

record ('w, 'e) forsys =
  indexChan :: "nat list"
  fworkers :: "'e fworker list"
  groupErr :: "'e option"
  forWorld :: 'w
  started :: "nat list"
  outcomes :: "(nat \<times> 'e option) list"

text \<open>The goroutine of \<open>errgroup.Group.Go\<close> after its function returned \<open>err\<close>.\<close>

definition group_finish :: "'e option \<Rightarrow> 'e option \<Rightarrow> 'e option" where
  "group_finish gerr err =
     (case err of None \<Rightarrow> gerr | Some e \<Rightarrow> (case gerr of None \<Rightarrow> Some e | Some f \<Rightarrow> Some f))"

text \<open>
  \<open>For\<close> up to the start of the workers. For no indices the code returns before it starts
  anything; with no workers the group has nothing to wait for either.
\<close>

definition For :: "nat \<Rightarrow> nat \<Rightarrow> 'w \<Rightarrow> ('w, 'e) forsys" where
  "For numWorkers numIndexes w =
     \<lparr>indexChan = [0..<numIndexes],
      fworkers = replicate (if numWorkers > numIndexes then numIndexes else numWorkers) (PLoop None),
      groupErr = None, forWorld = w, started = [], outcomes = []\<rparr>"

fun returned :: "'e fworker \<Rightarrow> bool" where
  "returned (PReturned _) = True"
| "returned _ = False"

text \<open>\<open>Wait\<close>: \<open>None\<close> while it blocks.\<close>

definition group_Wait :: "('w, 'e) forsys \<Rightarrow> 'e option option" where
  "group_Wait s =
     (if list_all returned (fworkers s) then Some (groupErr s) else None)"

text \<open>One iteration of the loop in \<open>worker\<close>, in two steps: the receive, then the call.\<close>

definition worker_receive :: "nat \<Rightarrow> 'e option \<Rightarrow> ('w, 'e) forsys \<Rightarrow> ('w, 'e) forsys" where
  "worker_receive i firstErr s =
     (case indexChan s of
        [] \<Rightarrow> s\<lparr>fworkers := (fworkers s)[i := PReturned firstErr],
                groupErr := group_finish (groupErr s) firstErr\<rparr>
      | idx # rest \<Rightarrow>
          s\<lparr>indexChan := rest, fworkers := (fworkers s)[i := PRunning idx firstErr],
            started := started s @ [idx]\<rparr>)"

definition worker_call ::
  "('ctx \<Rightarrow> 'p \<Rightarrow> 'w \<Rightarrow> 'e \<times> 'w) \<Rightarrow> ('ctx \<Rightarrow> 'e \<Rightarrow> 'w \<Rightarrow> 'w) \<Rightarrow> 'ctx
     \<Rightarrow> ('ctx \<Rightarrow> nat \<Rightarrow> ('w, 'e option, 'p) go) \<Rightarrow> nat \<Rightarrow> nat \<Rightarrow> 'e option
     \<Rightarrow> ('w, 'e) forsys \<Rightarrow> ('w, 'e) forsys" where
  "worker_call handle logError ctx forFn i idx firstErr s =
     (case (RunWithFatalLogging handle logError ctx (\<lambda>ctx. forFn ctx idx) (forWorld s)
              :: ('e option, unit) outcome \<times> 'w) of
        (Ret err, w) \<Rightarrow>
          s\<lparr>fworkers := (fworkers s)[i := PLoop (case firstErr of None \<Rightarrow> err | Some e \<Rightarrow> Some e)],
            forWorld := w, outcomes := outcomes s @ [(idx, err)]\<rparr>
      | (Panic _, w) \<Rightarrow> s\<lparr>forWorld := w\<rparr>)"

datatype 'w foract = FReceive nat | FCall nat | FWorld 'w

fun forexec ::
  "('ctx \<Rightarrow> 'p \<Rightarrow> 'w \<Rightarrow> 'e \<times> 'w) \<Rightarrow> ('ctx \<Rightarrow> 'e \<Rightarrow> 'w \<Rightarrow> 'w) \<Rightarrow> 'ctx
     \<Rightarrow> ('ctx \<Rightarrow> nat \<Rightarrow> ('w, 'e option, 'p) go) \<Rightarrow> ('w, 'e) forsys \<Rightarrow> 'w foract \<Rightarrow> ('w, 'e) forsys option" where
  "forexec handle logError ctx forFn s (FReceive i) =
     (if i < length (fworkers s)
      then (case fworkers s ! i of PLoop fe \<Rightarrow> Some (worker_receive i fe s) | _ \<Rightarrow> None)
      else None)"
| "forexec handle logError ctx forFn s (FCall i) =
     (if i < length (fworkers s)
      then (case fworkers s ! i of
          PRunning idx fe \<Rightarrow> Some (worker_call handle logError ctx forFn i idx fe s) | _ \<Rightarrow> None)
      else None)"
| "forexec handle logError ctx forFn s (FWorld w) = Some (s\<lparr>forWorld := w\<rparr>)"

declare forexec.simps [simp del]

definition for_init :: "nat \<Rightarrow> nat \<Rightarrow> ('w, 'e) forsys \<Rightarrow> bool" where
  "for_init numWorkers numIndexes s \<longleftrightarrow> (\<exists>w. s = For numWorkers numIndexes w)"

section \<open>The invariant\<close>

fun running :: "'e fworker \<Rightarrow> nat list" where
  "running (PRunning idx _) = [idx]"
| "running _ = []"

fun first_err :: "'e fworker \<Rightarrow> 'e option" where
  "first_err (PLoop fe) = fe"
| "first_err (PRunning _ fe) = fe"
| "first_err (PReturned fe) = fe"

definition running_of :: "'e fworker list \<Rightarrow> nat list" where
  "running_of ws = concat (map running ws)"

text \<open>
  Indices are taken in order; each index taken is with one worker or has one outcome; a
  worker's first error comes from an outcome, and every error is remembered by some worker; the
  group's error is that of a worker that returned, and it is set when such a worker had one.
\<close>

definition errors_in :: "('w, 'e) forsys \<Rightarrow> 'e set" where
  "errors_in s = {e. \<exists>idx. (idx, Some e) \<in> set (outcomes s)}"

definition for_index_inv :: "nat \<Rightarrow> nat \<Rightarrow> ('w, 'e) forsys \<Rightarrow> bool" where
  "for_index_inv m n s \<longleftrightarrow>
     length (fworkers s) = min m n \<and> started s @ indexChan s = [0..<n]
     \<and> mset (started s) = mset (running_of (fworkers s)) + mset (map fst (outcomes s))"

definition worker_ok :: "('w, 'e) forsys \<Rightarrow> 'e fworker \<Rightarrow> bool" where
  "worker_ok s g \<longleftrightarrow> (\<forall>e. first_err g = Some e \<longrightarrow> e \<in> errors_in s)
     \<and> (returned g \<longrightarrow> indexChan s = [] \<and> (first_err g \<noteq> None \<longrightarrow> groupErr s \<noteq> None))"

definition for_error_inv :: "('w, 'e) forsys \<Rightarrow> bool" where
  "for_error_inv s \<longleftrightarrow> (\<forall>g \<in> set (fworkers s). worker_ok s g)
     \<and> (errors_in s \<noteq> {} \<longrightarrow> (\<exists>g \<in> set (fworkers s). first_err g \<noteq> None))
     \<and> (\<forall>e. groupErr s = Some e \<longrightarrow> e \<in> errors_in s)"

definition for_inv :: "nat \<Rightarrow> nat \<Rightarrow> ('w, 'e) forsys \<Rightarrow> bool" where
  "for_inv m n s \<longleftrightarrow> for_index_inv m n s \<and> for_error_inv s"

lemma errors_in_simps [simp]:
  "errors_in (s\<lparr>fworkers := ws\<rparr>) = errors_in s"
  "errors_in (s\<lparr>groupErr := ge\<rparr>) = errors_in s"
  "errors_in (s\<lparr>indexChan := ch\<rparr>) = errors_in s"
  "errors_in (s\<lparr>started := st\<rparr>) = errors_in s"
  "errors_in (s\<lparr>forWorld := w\<rparr>) = errors_in s"
  "errors_in (s\<lparr>outcomes := outcomes s @ [(idx, err)]\<rparr>) = errors_in s \<union> {e. err = Some e}"
  by (auto simp: errors_in_def)

lemma all_update: "\<forall>g \<in> set ws. P g \<Longrightarrow> P y \<Longrightarrow> \<forall>g \<in> set (ws[i := y]). P g"
  using in_set_update by fastforce

lemma ex_update:
  assumes "i < length ws" and "\<exists>g \<in> set ws. P g" and "P (ws ! i) \<Longrightarrow> P y"
  shows "\<exists>g \<in> set (ws[i := y]). P g"
proof -
  from assms(2) obtain j where j: "j < length ws" "P (ws ! j)" by (auto simp: in_set_conv_nth)
  then have "P (ws[i := y] ! j)" using assms(1,3) by (simp add: nth_update)
  moreover have "ws[i := y] ! j \<in> set (ws[i := y])" using j(1) by simp
  ultimately show ?thesis by blast
qed

lemma running_of_update:
  "i < length ws \<Longrightarrow> mset (running_of (ws[i := g])) + mset (running (ws ! i)) =
     mset (running_of ws) + mset (running g)"
  unfolding running_of_def by (rule mset_concat_map_update)

lemma group_finish_simps [simp]:
  "group_finish gerr None = gerr" "group_finish None err = err"
  "group_finish (Some f) err = Some f"
  by (simp_all add: group_finish_def split: option.split)

lemma forexec_FReceive_cases:
  assumes "forexec handle logError ctx forFn s (FReceive i) = Some t"
  obtains fe where "i < length (fworkers s)" "fworkers s ! i = PLoop fe" "t = worker_receive i fe s"
  using assms by (auto simp: forexec.simps split: if_splits fworker.splits)

lemma forexec_FCall_cases:
  assumes "forexec handle logError ctx forFn s (FCall i) = Some t"
  obtains idx fe where "i < length (fworkers s)" "fworkers s ! i = PRunning idx fe"
    "t = worker_call handle logError ctx forFn i idx fe s"
  using assms by (auto simp: forexec.simps split: if_splits fworker.splits)

lemma worker_call_eq:
  fixes forFn :: "'ctx \<Rightarrow> nat \<Rightarrow> ('w, 'e option, 'p) go" and s :: "('w, 'e) forsys"
  shows "\<exists>err w. worker_call handle logError ctx forFn i idx fe s =
    s\<lparr>fworkers := (fworkers s)[i := PLoop (case fe of None \<Rightarrow> err | Some e \<Rightarrow> Some e)],
      forWorld := w, outcomes := outcomes s @ [(idx, err)]\<rparr>"
proof -
  obtain err w where "(RunWithFatalLogging handle logError ctx (\<lambda>ctx. forFn ctx idx) (forWorld s)
      :: ('e option, unit) outcome \<times> 'w) = (Ret err, w)"
    using RunWithFatalLogging_returns by meson
  then show ?thesis by (intro exI [of _ err] exI [of _ w]) (simp add: worker_call_def)
qed

lemma for_inv_init: "for_init m n s \<Longrightarrow> for_inv m n s"
  by (auto simp: for_init_def For_def for_inv_def for_index_inv_def for_error_inv_def worker_ok_def
      errors_in_def running_of_def set_replicate_conv_if split: if_splits)

lemma for_inv_For: "for_inv m n (For m n w)"
  by (rule for_inv_init) (auto simp: for_init_def)

lemma for_index_receive:
  assumes inv: "for_index_inv m n s" and i: "i < length (fworkers s)" and g: "fworkers s ! i = PLoop fe"
  shows "for_index_inv m n (worker_receive i fe s)"
proof (cases "indexChan s")
  case Nil
  have "mset (running_of ((fworkers s)[i := PReturned fe])) = mset (running_of (fworkers s))"
    using running_of_update [OF i, of "PReturned fe"] g by simp
  with inv Nil show ?thesis by (auto simp: for_index_inv_def worker_receive_def)
next
  case (Cons idx rest)
  have "mset (running_of ((fworkers s)[i := PRunning idx fe])) = mset (running_of (fworkers s)) + {#idx#}"
    using running_of_update [OF i, of "PRunning idx fe"] g by simp
  with inv Cons show ?thesis by (auto simp: for_index_inv_def worker_receive_def)
qed

lemma all_workers_ok:
  assumes "for_error_inv s" and "\<And>h. worker_ok s h \<Longrightarrow> worker_ok t h" and "worker_ok t y"
  shows "\<forall>h \<in> set ((fworkers s)[i := y]). worker_ok t h"
  by (rule all_update) (use assms in \<open>auto simp: for_error_inv_def\<close>)

lemma first_err_kept:
  assumes "for_error_inv s" and "i < length (fworkers s)" and "errors_in s \<noteq> {}"
    and "first_err (fworkers s ! i) \<noteq> None \<Longrightarrow> first_err y \<noteq> None"
  shows "\<exists>h \<in> set ((fworkers s)[i := y]). first_err h \<noteq> None"
  by (rule ex_update) (use assms in \<open>auto simp: for_error_inv_def\<close>)

lemma for_error_receive:
  assumes inv: "for_error_inv s" and i: "i < length (fworkers s)" and g: "fworkers s ! i = PLoop fe"
  shows "for_error_inv (worker_receive i fe s)"
proof -
  have "worker_ok s (PLoop fe)" using inv i g by (metis for_error_inv_def nth_mem)
  then have fe: "e \<in> errors_in s" if "fe = Some e" for e using that by (simp add: worker_ok_def)
  have ge: "e \<in> errors_in s" if "groupErr s = Some e" for e
    using that inv by (simp add: for_error_inv_def)
  show ?thesis
  proof (cases "indexChan s")
    case Nil
    let ?t = "s\<lparr>fworkers := (fworkers s)[i := PReturned fe], groupErr := group_finish (groupErr s) fe\<rparr>"
    have t: "worker_receive i fe s = ?t" by (simp add: worker_receive_def Nil)
    have "\<forall>h \<in> set (fworkers ?t). worker_ok ?t h"
      using all_workers_ok [OF inv, of ?t "PReturned fe" i] fe Nil
      by (cases fe; cases "groupErr s") (simp_all add: worker_ok_def)
    moreover have "\<exists>h \<in> set (fworkers ?t). first_err h \<noteq> None" if "errors_in ?t \<noteq> {}"
      using first_err_kept [OF inv i, of "PReturned fe"] that g by simp
    moreover have "e \<in> errors_in ?t" if "groupErr ?t = Some e" for e
      using that fe ge by (cases fe; cases "groupErr s") simp_all
    ultimately show ?thesis unfolding t for_error_inv_def by blast
  next
    case (Cons idx rest)
    let ?t = "s\<lparr>indexChan := rest, fworkers := (fworkers s)[i := PRunning idx fe], started := started s @ [idx]\<rparr>"
    have t: "worker_receive i fe s = ?t" by (simp add: worker_receive_def Cons)
    have "\<forall>h \<in> set (fworkers ?t). worker_ok ?t h"
      using all_workers_ok [OF inv, of ?t "PRunning idx fe" i] fe Cons by (simp add: worker_ok_def)
    moreover have "\<exists>h \<in> set (fworkers ?t). first_err h \<noteq> None" if "errors_in ?t \<noteq> {}"
      using first_err_kept [OF inv i, of "PRunning idx fe"] that g by simp
    moreover have "e \<in> errors_in ?t" if "groupErr ?t = Some e" for e
      using that ge by simp
    ultimately show ?thesis unfolding t for_error_inv_def by blast
  qed
qed

lemma for_inv_call:
  assumes inv: "for_inv m n s" and i: "i < length (fworkers s)" and g: "fworkers s ! i = PRunning idx fe"
  shows "for_inv m n (worker_call handle logError ctx forFn i idx fe s)"
proof -
  let ?h = "\<lambda>err. PLoop (case fe of None \<Rightarrow> err | Some e \<Rightarrow> Some e)"
  obtain err w where t: "worker_call handle logError ctx forFn i idx fe s =
      s\<lparr>fworkers := (fworkers s)[i := ?h err], forWorld := w, outcomes := outcomes s @ [(idx, err)]\<rparr>"
    using worker_call_eq by metis
  let ?t = "s\<lparr>fworkers := (fworkers s)[i := ?h err], forWorld := w, outcomes := outcomes s @ [(idx, err)]\<rparr>"
  have err: "for_error_inv s" using inv by (simp add: for_inv_def)
  have errs: "errors_in ?t = errors_in s \<union> {e. err = Some e}" by (auto simp: errors_in_def)
  have ok: "worker_ok s (PRunning idx fe)" using err i g by (metis for_error_inv_def nth_mem)
  have "for_index_inv m n ?t"
    using inv running_of_update [OF i, of "?h err"] g by (simp add: for_inv_def for_index_inv_def)
  moreover have "\<forall>h \<in> set (fworkers ?t). worker_ok ?t h"
    using all_workers_ok [OF err, of ?t "?h err" i] ok errs
    by (cases fe) (auto simp: worker_ok_def)
  moreover have "\<exists>h \<in> set (fworkers ?t). first_err h \<noteq> None" if "errors_in ?t \<noteq> {}"
  proof (cases "errors_in s = {}")
    case True
    with that errs obtain e where "err = Some e" by auto
    then have "first_err (?h err) \<noteq> None" by (simp split: option.split)
    moreover have "?h err \<in> set (fworkers ?t)" using i by (simp add: set_update_memI)
    ultimately show ?thesis by blast
  next
    case False
    with first_err_kept [OF err i, of "?h err"] g show ?thesis by (auto split: option.splits)
  qed
  moreover have "e \<in> errors_in ?t" if "groupErr ?t = Some e" for e
    using that err errs by (auto simp: for_error_inv_def)
  ultimately show ?thesis unfolding t for_inv_def for_error_inv_def by blast
qed

text \<open>Every receive and every call lowers the rank.\<close>

fun fworker_rank :: "'e fworker \<Rightarrow> nat" where
  "fworker_rank (PLoop _) = 1"
| "fworker_rank (PRunning _ _) = 2"
| "fworker_rank (PReturned _) = 0"

definition for_rank :: "('w, 'e) forsys \<Rightarrow> nat" where
  "for_rank s = 2 * length (indexChan s) + sum_list (map fworker_rank (fworkers s))"

fun for_internal :: "'w foract \<Rightarrow> bool" where
  "for_internal (FWorld _) = False"
| "for_internal _ = True"

lemma for_rank_receive:
  "i < length (fworkers s) \<Longrightarrow> fworkers s ! i = PLoop fe \<Longrightarrow> for_rank (worker_receive i fe s) < for_rank s"
  using sum_list_map_update [of i "fworkers s" fworker_rank "PReturned fe"]
    sum_list_map_update [of i "fworkers s" fworker_rank "PRunning (hd (indexChan s)) fe"]
  by (cases "indexChan s") (simp_all add: for_rank_def worker_receive_def)

lemma for_rank_call:
  assumes "i < length (fworkers s)" and "fworkers s ! i = PRunning idx fe"
  shows "for_rank (worker_call handle logError ctx forFn i idx fe s) < for_rank s"
proof -
  obtain err w where "worker_call handle logError ctx forFn i idx fe s =
    s\<lparr>fworkers := (fworkers s)[i := PLoop (case fe of None \<Rightarrow> err | Some e \<Rightarrow> Some e)],
      forWorld := w, outcomes := outcomes s @ [(idx, err)]\<rparr>"
    using worker_call_eq by metis
  with sum_list_map_update [OF assms(1), of fworker_rank "PLoop (case fe of None \<Rightarrow> err | Some e \<Rightarrow> Some e)"]
    assms(2) show ?thesis by (simp add: for_rank_def)
qed

lemma for_inv_step: "for_inv m n s \<Longrightarrow> forexec handle logError ctx forFn s a = Some t \<Longrightarrow> for_inv m n t"
proof (cases a)
  case (FReceive i)
  assume "for_inv m n s" "forexec handle logError ctx forFn s a = Some t"
  with FReceive show ?thesis
    by (auto elim!: forexec_FReceive_cases simp: for_inv_def intro: for_index_receive for_error_receive)
next
  case (FCall i)
  assume "for_inv m n s" "forexec handle logError ctx forFn s a = Some t"
  with FCall show ?thesis by (auto elim!: forexec_FCall_cases intro: for_inv_call)
next
  case (FWorld w)
  assume "for_inv m n s" "forexec handle logError ctx forFn s a = Some t"
  with FWorld show ?thesis
    by (auto simp: forexec.simps for_inv_def for_index_inv_def for_error_inv_def worker_ok_def errors_in_def)
qed

lemma for_rank_step:
  "forexec handle logError ctx forFn s a = Some t \<Longrightarrow> for_internal a \<Longrightarrow> for_rank t < for_rank s"
  by (cases a) (auto elim!: forexec_FReceive_cases forexec_FCall_cases intro: for_rank_receive for_rank_call)

interpretation pf: ranked_system "for_init m n" "by_exec (forexec handle logError ctx forFn)" "for_inv m n"
  for_internal for_rank
  by unfold_locales (auto simp: by_exec_def intro: for_inv_init for_inv_step for_rank_step)


section \<open>What a finished loop has done\<close>

lemma returned_running: "list_all returned ws \<Longrightarrow> running_of ws = []"
  unfolding running_of_def by (induction ws) (auto elim: returned.elims)

lemma group_Wait_iff: "group_Wait s = Some r \<longleftrightarrow> list_all returned (fworkers s) \<and> r = groupErr s"
  by (auto simp: group_Wait_def)

text \<open>With a worker at all, every index has its outcome when the group has nothing left to wait for.\<close>

lemma all_indexes_done:
  assumes inv: "for_inv m n s" and m: "0 < m \<or> n = 0" and fin: "list_all returned (fworkers s)"
  shows "mset (map fst (outcomes s)) = mset [0..<n]"
proof -
  have "indexChan s = []"
  proof (cases "n = 0")
    case True
    with inv show ?thesis by (simp add: for_inv_def for_index_inv_def)
  next
    case False
    with inv m have "fworkers s \<noteq> []" by (auto simp: for_inv_def for_index_inv_def)
    then have g: "hd (fworkers s) \<in> set (fworkers s)" by simp
    with fin have "returned (hd (fworkers s))" by (simp add: list_all_iff)
    with g inv show ?thesis unfolding for_inv_def for_error_inv_def worker_ok_def by blast
  qed
  with inv returned_running [OF fin] show ?thesis by (auto simp: for_inv_def for_index_inv_def)
qed

lemma group_error_iff:
  assumes inv: "for_inv m n s" and fin: "list_all returned (fworkers s)"
  shows "groupErr s = None \<longleftrightarrow> errors_in s = {}"
proof
  assume none: "groupErr s = None"
  have no_err: "first_err g = None" if g: "g \<in> set (fworkers s)" for g
  proof -
    have "worker_ok s g" using inv g by (simp add: for_inv_def for_error_inv_def)
    moreover have "returned g" using fin g by (simp add: list_all_iff)
    ultimately show ?thesis using none by (simp add: worker_ok_def)
  qed
  from inv have kept: "errors_in s \<noteq> {} \<longrightarrow> (\<exists>g \<in> set (fworkers s). first_err g \<noteq> None)"
    unfolding for_inv_def for_error_inv_def by (elim conjE)
  show "errors_in s = {}"
  proof (rule ccontr)
    assume "errors_in s \<noteq> {}"
    with kept obtain g where "g \<in> set (fworkers s)" "first_err g \<noteq> None" by (elim impE bexE)
    with no_err [of g] show False by (elim notE)
  qed
next
  assume "errors_in s = {}"
  with inv show "groupErr s = None"
    unfolding for_inv_def for_error_inv_def by (cases "groupErr s") auto
qed

lemma running_le_workers: "length (running_of ws) \<le> length ws"
  unfolding running_of_def
proof (induction ws)
  case (Cons g ws)
  then show ?case by (cases g) simp_all
qed simp

lemma for_at_rest:
  assumes "\<forall>a t. for_internal a \<longrightarrow> \<not> by_exec (forexec handle logError ctx forFn) s a t"
  shows "list_all returned (fworkers s)"
proof (rule ccontr)
  assume "\<not> list_all returned (fworkers s)"
  then obtain i where i: "i < length (fworkers s)" "\<not> returned (fworkers s ! i)"
    by (auto simp: list_all_length)
  show False
  proof (cases "fworkers s ! i")
    case (PLoop fe)
    with i have "forexec handle logError ctx forFn s (FReceive i) = Some (worker_receive i fe s)"
      by (simp add: forexec.simps)
    with assms show False unfolding by_exec_def by (metis for_internal.simps(2))
  next
    case (PRunning idx fe)
    with i have "forexec handle logError ctx forFn s (FCall i)
        = Some (worker_call handle logError ctx forFn i idx fe s)"
      by (simp add: forexec.simps)
    with assms show False unfolding by_exec_def by (metis for_internal.simps(3))
  next
    case (PReturned fe)
    with i show False by simp
  qed
qed

lemma for_rank_For: "for_rank (For m n w) \<le> 2 * n + m"
  by (simp add: for_rank_def For_def sum_list_replicate)

section \<open>One worker is the sequential loop\<close>

text \<open>The loop of one worker over the remaining indices, as a function.\<close>

fun for_sequential ::
  "('ctx \<Rightarrow> 'p \<Rightarrow> 'w \<Rightarrow> 'e \<times> 'w) \<Rightarrow> ('ctx \<Rightarrow> 'e \<Rightarrow> 'w \<Rightarrow> 'w) \<Rightarrow> 'ctx
     \<Rightarrow> ('ctx \<Rightarrow> nat \<Rightarrow> ('w, 'e option, 'p) go) \<Rightarrow> nat list \<Rightarrow> 'e option \<Rightarrow> 'w \<Rightarrow> 'e option \<times> 'w" where
  "for_sequential handle logError ctx forFn [] firstErr w = (firstErr, w)"
| "for_sequential handle logError ctx forFn (idx # rest) firstErr w =
     (case (RunWithFatalLogging handle logError ctx (\<lambda>ctx. forFn ctx idx) w
              :: ('e option, unit) outcome \<times> 'w) of
        (Ret err, w') \<Rightarrow> for_sequential handle logError ctx forFn rest
            (case firstErr of None \<Rightarrow> err | Some e \<Rightarrow> Some e) w'
      | (Panic _, w') \<Rightarrow> (firstErr, w'))"

fun rest_of_loop ::
  "('ctx \<Rightarrow> 'p \<Rightarrow> 'w \<Rightarrow> 'e \<times> 'w) \<Rightarrow> ('ctx \<Rightarrow> 'e \<Rightarrow> 'w \<Rightarrow> 'w) \<Rightarrow> 'ctx
     \<Rightarrow> ('ctx \<Rightarrow> nat \<Rightarrow> ('w, 'e option, 'p) go) \<Rightarrow> nat list \<Rightarrow> 'w \<Rightarrow> 'e fworker \<Rightarrow> 'e option \<times> 'w" where
  "rest_of_loop handle logError ctx forFn ch w (PLoop fe) = for_sequential handle logError ctx forFn ch fe w"
| "rest_of_loop handle logError ctx forFn ch w (PRunning idx fe) =
     for_sequential handle logError ctx forFn (idx # ch) fe w"
| "rest_of_loop handle logError ctx forFn ch w (PReturned fe) = (fe, w)"

definition one_worker_inv ::
  "('ctx \<Rightarrow> 'p \<Rightarrow> 'w \<Rightarrow> 'e \<times> 'w) \<Rightarrow> ('ctx \<Rightarrow> 'e \<Rightarrow> 'w \<Rightarrow> 'w) \<Rightarrow> 'ctx
     \<Rightarrow> ('ctx \<Rightarrow> nat \<Rightarrow> ('w, 'e option, 'p) go) \<Rightarrow> 'e option \<times> 'w \<Rightarrow> ('w, 'e) forsys \<Rightarrow> bool" where
  "one_worker_inv handle logError ctx forFn result s \<longleftrightarrow>
     (\<exists>g. fworkers s = [g] \<and> rest_of_loop handle logError ctx forFn (indexChan s) (forWorld s) g = result
        \<and> groupErr s = (if returned g then first_err g else None))"

lemma one_worker_step:
  fixes forFn :: "'ctx \<Rightarrow> nat \<Rightarrow> ('w, 'e option, 'p) go" and s :: "('w, 'e) forsys"
  assumes inv: "one_worker_inv handle logError ctx forFn result s"
    and step: "forexec handle logError ctx forFn s a = Some t" and a: "for_internal a"
  shows "one_worker_inv handle logError ctx forFn result t"
proof -
  from inv obtain g where g: "fworkers s = [g]"
    "rest_of_loop handle logError ctx forFn (indexChan s) (forWorld s) g = result"
    "groupErr s = (if returned g then first_err g else None)"
    unfolding one_worker_inv_def by blast
  show ?thesis
  proof (cases a)
    case (FReceive i)
    with step g obtain fe where "i = 0" "g = PLoop fe" "t = worker_receive i fe s"
      by (auto elim!: forexec_FReceive_cases)
    with g show ?thesis
      by (cases "indexChan s") (auto simp: one_worker_inv_def worker_receive_def)
  next
    case (FCall i)
    with step g obtain idx fe where t: "i = 0" "g = PRunning idx fe"
      "t = worker_call handle logError ctx forFn i idx fe s"
      by (auto elim!: forexec_FCall_cases)
    obtain err w where run: "(RunWithFatalLogging handle logError ctx (\<lambda>ctx. forFn ctx idx) (forWorld s)
        :: ('e option, unit) outcome \<times> 'w) = (Ret err, w)"
      using RunWithFatalLogging_returns by meson
    with t g show ?thesis by (simp add: one_worker_inv_def worker_call_def)
  next
    case (FWorld w)
    with a show ?thesis by simp
  qed
qed

interpretation ow: transition_invariant "\<lambda>s. one_worker_inv handle logError ctx forFn result s"
  "\<lambda>s a t. forexec handle logError ctx forFn s a = Some t \<and> for_internal a"
  "one_worker_inv handle logError ctx forFn result"
  by unfold_locales (auto intro: one_worker_step)

lemma one_worker_start:
  "0 < n \<Longrightarrow> one_worker_inv handle logError ctx forFn
     (for_sequential handle logError ctx forFn [0..<n] None w) (For 1 n w)"
  by (simp add: one_worker_inv_def For_def)

lemma one_worker_result:
  assumes "one_worker_inv handle logError ctx forFn result s" and "group_Wait s = Some r"
  shows "result = (r, forWorld s)"
proof -
  from assms obtain g where "fworkers s = [g]" "returned g" "r = groupErr s"
    "rest_of_loop handle logError ctx forFn (indexChan s) (forWorld s) g = result" "groupErr s = first_err g"
    unfolding one_worker_inv_def group_Wait_iff by fastforce
  then show ?thesis by (cases g) auto
qed

section \<open>Many workers are a sequential loop in some order\<close>

text \<open>
  The reference for any number of workers: the calls one after the other, in a given order of the
  indices, with the error of each.
\<close>

fun call_all ::
  "('ctx \<Rightarrow> 'p \<Rightarrow> 'w \<Rightarrow> 'e \<times> 'w) \<Rightarrow> ('ctx \<Rightarrow> 'e \<Rightarrow> 'w \<Rightarrow> 'w) \<Rightarrow> 'ctx
     \<Rightarrow> ('ctx \<Rightarrow> nat \<Rightarrow> ('w, 'e option, 'p) go) \<Rightarrow> nat list \<Rightarrow> 'w \<Rightarrow> 'e option list \<times> 'w" where
  "call_all handle logError ctx forFn [] w = ([], w)"
| "call_all handle logError ctx forFn (idx # rest) w =
     (case (RunWithFatalLogging handle logError ctx (\<lambda>ctx. forFn ctx idx) w
              :: ('e option, unit) outcome \<times> 'w) of
        (Ret err, w1) \<Rightarrow>
          (case call_all handle logError ctx forFn rest w1 of (errs, w2) \<Rightarrow> (err # errs, w2))
      | (Panic _, w1) \<Rightarrow> ([], w1))"

lemma call_all_snoc:
  fixes forFn :: "'ctx \<Rightarrow> nat \<Rightarrow> ('w, 'e option, 'p) go"
  assumes "call_all handle logError ctx forFn idxs w = (errs, w1)"
    and "(RunWithFatalLogging handle logError ctx (\<lambda>ctx. forFn ctx idx) w1
            :: ('e option, unit) outcome \<times> 'w) = (Ret err, w2)"
  shows "call_all handle logError ctx forFn (idxs @ [idx]) w = (errs @ [err], w2)"
  using assms(1)
proof (induction idxs arbitrary: w errs)
  case Nil
  with assms(2) show ?case by simp
next
  case (Cons j idxs)
  obtain e v where "(RunWithFatalLogging handle logError ctx (\<lambda>ctx. forFn ctx j) w
      :: ('e option, unit) outcome \<times> 'w) = (Ret e, v)"
    using RunWithFatalLogging_returns by meson
  with Cons show ?case by (auto split: prod.splits)
qed

text \<open>While nothing else touches the world, the outcomes are those of the calls in their order.\<close>

definition serial_calls ::
  "('ctx \<Rightarrow> 'p \<Rightarrow> 'w \<Rightarrow> 'e \<times> 'w) \<Rightarrow> ('ctx \<Rightarrow> 'e \<Rightarrow> 'w \<Rightarrow> 'w) \<Rightarrow> 'ctx
     \<Rightarrow> ('ctx \<Rightarrow> nat \<Rightarrow> ('w, 'e option, 'p) go) \<Rightarrow> 'w \<Rightarrow> ('w, 'e) forsys \<Rightarrow> bool" where
  "serial_calls handle logError ctx forFn w s \<longleftrightarrow>
     call_all handle logError ctx forFn (map fst (outcomes s)) w = (map snd (outcomes s), forWorld s)"

lemma serial_calls_step:
  fixes forFn :: "'ctx \<Rightarrow> nat \<Rightarrow> ('w, 'e option, 'p) go" and s :: "('w, 'e) forsys"
  assumes inv: "serial_calls handle logError ctx forFn w s"
    and step: "forexec handle logError ctx forFn s a = Some t" and a: "for_internal a"
  shows "serial_calls handle logError ctx forFn w t"
proof (cases a)
  case (FReceive i)
  with step inv show ?thesis
    by (auto elim!: forexec_FReceive_cases simp: serial_calls_def worker_receive_def split: list.split)
next
  case (FCall i)
  with step obtain idx fe where t: "t = worker_call handle logError ctx forFn i idx fe s"
    by (auto elim!: forexec_FCall_cases)
  obtain err v where run: "(RunWithFatalLogging handle logError ctx (\<lambda>ctx. forFn ctx idx) (forWorld s)
      :: ('e option, unit) outcome \<times> 'w) = (Ret err, v)"
    using RunWithFatalLogging_returns by meson
  from inv have "call_all handle logError ctx forFn (map fst (outcomes s)) w
      = (map snd (outcomes s), forWorld s)" by (simp add: serial_calls_def)
  then have "call_all handle logError ctx forFn (map fst (outcomes s) @ [idx]) w
      = (map snd (outcomes s) @ [err], v)" using run by (rule call_all_snoc)
  with t run show ?thesis by (simp add: serial_calls_def worker_call_def)
next
  case (FWorld v)
  with a show ?thesis by simp
qed

interpretation sc: transition_invariant "\<lambda>s. serial_calls handle logError ctx forFn w s"
  "\<lambda>s a t. forexec handle logError ctx forFn s a = Some t \<and> for_internal a"
  "serial_calls handle logError ctx forFn w"
  by unfold_locales (auto intro: serial_calls_step)

lemma for_result_facts:
  assumes inv: "for_inv m n s" and m: "0 < m \<or> n = 0" and wait: "group_Wait s = Some r"
  shows "mset (map fst (outcomes s)) = mset [0..<n]
    \<and> (r = None \<longleftrightarrow> (\<forall>(idx, err) \<in> set (outcomes s). err = None))
    \<and> (\<forall>e. r = Some e \<longrightarrow> (\<exists>idx < n. (idx, Some e) \<in> set (outcomes s)))"
proof (intro conjI allI impI)
  have fin: "list_all returned (fworkers s)" and r: "r = groupErr s"
    using wait by (simp_all add: group_Wait_iff)
  show all: "mset (map fst (outcomes s)) = mset [0..<n]" by (rule all_indexes_done [OF inv m fin])
  have "errors_in s = {} \<longleftrightarrow> (\<forall>(idx, err) \<in> set (outcomes s). err = None)"
    unfolding errors_in_def by (auto, metis not_None_eq)
  with group_error_iff [OF inv fin] r show "r = None \<longleftrightarrow> (\<forall>(idx, err) \<in> set (outcomes s). err = None)"
    by simp
  fix e assume "r = Some e"
  with r inv have "e \<in> errors_in s" by (simp add: for_inv_def for_error_inv_def)
  then obtain idx where idx: "(idx, Some e) \<in> set (outcomes s)" by (auto simp: errors_in_def)
  have "set (map fst (outcomes s)) = {0..<n}" using mset_eq_setD [OF all] by simp
  with idx have "idx < n" by force
  with idx show "\<exists>idx < n. (idx, Some e) \<in> set (outcomes s)" by blast
qed

section \<open>Properties of For\<close>

text \<open>
  Claim C19: at any moment of \<open>For\<close>, under every interleaving of the workers, every index has been
  taken at most once, in ascending order; each index taken is being run by one worker or has its one
  outcome; and never more than \<open>numWorkers\<close> indexes run at the same time.
\<close>

theorem for_each_index_once:
  assumes "reach (for_init m n) (by_exec (forexec handle logError ctx forFn)) s"
  shows "(\<exists>k \<le> n. started s = [0..<k])
    \<and> mset (started s) = mset (running_of (fworkers s)) + mset (map fst (outcomes s))
    \<and> length (running_of (fworkers s)) \<le> m"
proof (intro conjI)
  have inv: "for_inv m n s" using assms by (rule pf.inv_reach)
  then have prefix_of_upt: "started s @ indexChan s = [0..<n]"
    by (simp add: for_inv_def for_index_inv_def)
  then have "started s = take (length (started s)) [0..<n]" by (metis append_eq_conv_conj)
  moreover have "length (started s) \<le> n"
    using arg_cong [OF prefix_of_upt, of length] by simp
  ultimately show "\<exists>k \<le> n. started s = [0..<k]" by (metis add_0 min.absorb2 take_upt)
  show "mset (started s) = mset (running_of (fworkers s)) + mset (map fst (outcomes s))"
    using inv by (simp add: for_inv_def for_index_inv_def)
  have "length (fworkers s) \<le> m" using inv by (simp add: for_inv_def for_index_inv_def)
  with running_le_workers [of "fworkers s"] show "length (running_of (fworkers s)) \<le> m" by simp
qed

text \<open>
  Claim C20: with at least one worker, \<open>For\<close> returns only after every index has been run exactly
  once; it returns \<open>nil\<close> exactly when every call returned \<open>nil\<close>, and otherwise the error of
  one of the calls.
\<close>

theorem for_result:
  assumes "reach (for_init m n) (by_exec (forexec handle logError ctx forFn)) s"
    and "0 < m" and "group_Wait s = Some r"
  shows "mset (map fst (outcomes s)) = mset [0..<n]
    \<and> (r = None \<longleftrightarrow> (\<forall>(idx, err) \<in> set (outcomes s). err = None))
    \<and> (\<forall>e. r = Some e \<longrightarrow> (\<exists>idx < n. (idx, Some e) \<in> set (outcomes s)))"
  using for_result_facts [OF pf.inv_reach [OF assms(1)] _ assms(3)] assms(2) by blast

text \<open>
  Claim C21: however the workers are scheduled, \<open>For\<close> takes at most two steps per index and one per
  worker; it can only stop moving when \<open>Wait\<close> returns, and from every reachable state it can be run
  to that point.
\<close>

theorem for_terminates:
  fixes forFn :: "'ctx \<Rightarrow> nat \<Rightarrow> ('w, 'e option, 'p) go"
  assumes "reach (for_init m n) (by_exec (forexec handle logError ctx forFn)) s"
  shows "(path (by_exec (forexec handle logError ctx forFn)) (For m n w) as t
            \<and> (\<forall>a \<in> set as. for_internal a) \<longrightarrow> length as \<le> 2 * n + m)
    \<and> ((\<forall>a u. for_internal a \<longrightarrow> forexec handle logError ctx forFn s a \<noteq> Some u)
         \<longrightarrow> group_Wait s \<noteq> None)
    \<and> (\<exists>as u r. path (by_exec (forexec handle logError ctx forFn)) s as u
         \<and> (\<forall>a \<in> set as. for_internal a) \<and> group_Wait u = Some r)"
proof (intro conjI impI)
  have inv: "for_inv m n s" using assms by (rule pf.inv_reach)
  show "length as \<le> 2 * n + m"
    if "path (by_exec (forexec handle logError ctx forFn)) (For m n w) as t
        \<and> (\<forall>a \<in> set as. for_internal a)"
  proof -
    from that have "length as + for_rank t \<le> for_rank (For m n w :: ('w, 'e) forsys)"
      by (intro pf.internal_path_bounded [where m = m and n = n]) (auto intro: for_inv_For)
    also have "\<dots> \<le> 2 * n + m" by (rule for_rank_For)
    finally show ?thesis by simp
  qed
  show "group_Wait s \<noteq> None"
    if "\<forall>a u. for_internal a \<longrightarrow> forexec handle logError ctx forFn s a \<noteq> Some u"
    using that for_at_rest [of handle logError ctx forFn s] by (simp add: by_exec_def group_Wait_def)
  obtain as u where u: "path (by_exec (forexec handle logError ctx forFn)) s as u"
    "\<forall>a \<in> set as. for_internal a"
    "\<forall>a v. for_internal a \<longrightarrow> \<not> by_exec (forexec handle logError ctx forFn) u a v"
    using pf.comes_to_rest [OF inv, of handle logError ctx forFn] by metis
  from for_at_rest [OF u(3)] u(1,2) show "\<exists>as u r. path (by_exec (forexec handle logError ctx forFn)) s as u
      \<and> (\<forall>a \<in> set as. for_internal a) \<and> group_Wait u = Some r"
    by (intro exI [of _ as] exI [of _ u] exI [of _ "groupErr u"]) (simp add: group_Wait_iff)
qed

text \<open>
  With one worker and nothing else touching the world, \<open>For\<close> is the sequential loop over the
  indices: same calls in the same order, same final world, and the error is that of the first index
  that failed.
\<close>

theorem for_one_worker:
  assumes "0 < n"
    and "path (\<lambda>s a t. forexec handle logError ctx forFn s a = Some t \<and> for_internal a) (For 1 n w) as s"
    and "group_Wait s = Some r"
  shows "(r, forWorld s) = for_sequential handle logError ctx forFn [0..<n] None w"
  using one_worker_result [OF ow.inv_path [OF assms(2) one_worker_start [OF assms(1)]] assms(3)] by simp


section \<open>Runs on concrete inputs\<close>

text \<open>
  Two calls that fail: the one on index 1 returns the error \<open>b\<close>, the one on index 0 panics with
  \<open>a\<close>. The recovery handler returns the panic value as the error; errors are logged in the world.
\<close>

definition sample_handle :: "unit \<Rightarrow> string \<Rightarrow> string list \<Rightarrow> string \<times> string list" where
  "sample_handle ctx p w = (p, w @ [p])"

definition sample_log :: "unit \<Rightarrow> string \<Rightarrow> string list \<Rightarrow> string list" where
  "sample_log ctx e w = w @ [e]"

definition sample_fn :: "unit \<Rightarrow> nat \<Rightarrow> (string list, string option, string) go" where
  "sample_fn ctx idx w = (if idx = 0 then Panic ''a'' else Ret (Some ''b''), w)"

lemmas for_eval = forexec.simps For_def worker_receive_def worker_call_def RunWithFatalLogging_def
  sample_handle_def sample_log_def sample_fn_def

lemma two_workers_run:
  "\<exists>s. run (forexec sample_handle sample_log () sample_fn) (For 2 2 [])
        [FReceive 0, FReceive 1, FCall 1, FCall 0, FReceive 0, FReceive 1] = Some s
      \<and> outcomes s = [(1, Some ''b''), (0, Some ''a'')] \<and> fworkers s = [PReturned (Some ''a''), PReturned (Some ''b'')]
      \<and> groupErr s = Some ''a'' \<and> forWorld s = [''b'', ''a''] \<and> started s = [0, 1]"
  by (simp add: for_eval numeral_2_eq_2)

lemma two_workers_reach:
  "\<exists>s. reach (for_init 2 2) (by_exec (forexec sample_handle sample_log () sample_fn)) s
      \<and> outcomes s = [(1, Some ''b''), (0, Some ''a'')] \<and> group_Wait s = Some (Some ''a'')
      \<and> started s = [0, 1]"
proof -
  obtain s where "run (forexec sample_handle sample_log () sample_fn) (For 2 2 [])
        [FReceive 0, FReceive 1, FCall 1, FCall 0, FReceive 0, FReceive 1] = Some s"
      and s: "outcomes s = [(1, Some ''b''), (0, Some ''a'')]"
        "fworkers s = [PReturned (Some ''a''), PReturned (Some ''b'')]" "groupErr s = Some ''a''" "started s = [0, 1]"
    using two_workers_run by metis
  from this(1) have "reach (for_init 2 2) (by_exec (forexec sample_handle sample_log () sample_fn)) s"
    by (rule run_reach [rotated]) (auto simp: for_init_def)
  with s show ?thesis by (intro exI [of _ s]) (simp add: group_Wait_iff)
qed

theorem for_each_index_once_witness:
  "\<exists>s. reach (for_init 2 2) (by_exec (forexec sample_handle sample_log () sample_fn)) s
      \<and> started s = [0, 1] \<and> length (running_of (fworkers s)) \<le> 2"
proof -
  obtain s where s: "reach (for_init 2 2) (by_exec (forexec sample_handle sample_log () sample_fn)) s"
    "started s = [0, 1]" using two_workers_reach by metis
  with for_each_index_once [OF s(1)] show ?thesis by blast
qed

theorem for_result_witness:
  "\<exists>s. reach (for_init 2 2) (by_exec (forexec sample_handle sample_log () sample_fn)) s
      \<and> group_Wait s = Some (Some ''a'') \<and> (\<exists>idx < 2. (idx, Some ''a'') \<in> set (outcomes s))"
proof -
  obtain s where s: "reach (for_init 2 2) (by_exec (forexec sample_handle sample_log () sample_fn)) s"
    "group_Wait s = Some (Some ''a'')" using two_workers_reach by metis
  with for_result [OF s(1) _ s(2)] show ?thesis by auto
qed

theorem for_terminates_witness:
  "\<exists>s. reach (for_init 2 2) (by_exec (forexec sample_handle sample_log () sample_fn)) s
      \<and> (\<exists>as u r. path (by_exec (forexec sample_handle sample_log () sample_fn)) s as u
           \<and> (\<forall>a \<in> set as. for_internal a) \<and> group_Wait u = Some r)"
proof -
  have s: "reach (for_init 2 2) (by_exec (forexec sample_handle sample_log () sample_fn)) (For 2 2 [])"
    by (rule reach_init) (auto simp: for_init_def)
  show ?thesis by (rule exI, rule conjI [OF s]) (rule conjunct2 [OF conjunct2 [OF for_terminates [OF s]]])
qed

theorem for_one_worker_witness:
  "for_sequential sample_handle sample_log () sample_fn [0..<2] None [] = (Some ''a'', [''a'', ''b''])"
proof -
  have "\<exists>s. run (forexec sample_handle sample_log () sample_fn) (For 1 2 [])
        [FReceive 0, FCall 0, FReceive 0, FCall 0, FReceive 0] = Some s
      \<and> group_Wait s = Some (Some ''a'') \<and> forWorld s = [''a'', ''b'']"
    by (simp add: for_eval group_Wait_def numeral_2_eq_2)
  then obtain s where s: "run (forexec sample_handle sample_log () sample_fn) (For 1 2 [])
        [FReceive 0, FCall 0, FReceive 0, FCall 0, FReceive 0] = Some s"
      "group_Wait s = Some (Some ''a'')" "forWorld s = [''a'', ''b'']"
    by blast
  have "path (\<lambda>s a t. forexec sample_handle sample_log () sample_fn s a = Some t \<and> for_internal a)
      (For 1 2 []) [FReceive 0, FCall 0, FReceive 0, FCall 0, FReceive 0] s"
    by (rule path_run_where [OF s(1)]) simp
  from for_one_worker [OF _ this s(2)] s(3) show ?thesis by simp
qed

text \<open>
  The error \<open>For\<close> returns is that of the first worker to finish, not of the first call
  to fail: here the call on index 1 fails first, and the error returned is that of index 0.
\<close>

theorem for_error_not_first:
  "\<exists>s. reach (for_init 2 2) (by_exec (forexec sample_handle sample_log () sample_fn)) s
      \<and> hd (outcomes s) = (1, Some ''b'') \<and> group_Wait s = Some (Some ''a'')"
  using two_workers_reach by fastforce

text \<open>With no workers, \<open>For\<close> returns \<open>nil\<close> at once and runs nothing, whatever the indexes.\<close>

lemma for_without_workers:
  assumes "reach (for_init 0 n) (by_exec (forexec handle logError ctx forFn)) s"
  shows "group_Wait s = Some None \<and> outcomes s = [] \<and> started s = []"
proof -
  have inv: "for_inv 0 n s" using assms by (rule pf.inv_reach)
  then have ws: "fworkers s = []" by (simp add: for_inv_def for_index_inv_def)
  have "groupErr s = None \<and> started s = [] \<and> outcomes s = []"
    using assms
  proof (induction rule: reach.induct)
    case (reach_init s)
    then show ?case by (auto simp: for_init_def For_def)
  next
    case (reach_step s a t)
    then have "for_inv 0 n s" by (auto intro: pf.inv_reach)
    then have "fworkers s = []" by (simp add: for_inv_def for_index_inv_def)
    with reach_step show ?case by (cases a) (auto simp: by_exec_def forexec.simps)
  qed
  with ws show ?thesis by (simp add: group_Wait_iff)
qed


section \<open>For as a call\<close>

text \<open>
  A scheduler that says which worker moves next turns \<open>For\<close> into a call. The fuel is the bound of
  the rank, so that it never runs out.
\<close>

definition active :: "('w, 'e) forsys \<Rightarrow> nat list" where
  "active s = filter (\<lambda>i. \<not> returned (fworkers s ! i)) [0..<length (fworkers s)]"

definition worker_step ::
  "('ctx \<Rightarrow> 'p \<Rightarrow> 'w \<Rightarrow> 'e \<times> 'w) \<Rightarrow> ('ctx \<Rightarrow> 'e \<Rightarrow> 'w \<Rightarrow> 'w) \<Rightarrow> 'ctx
     \<Rightarrow> ('ctx \<Rightarrow> nat \<Rightarrow> ('w, 'e option, 'p) go) \<Rightarrow> nat \<Rightarrow> ('w, 'e) forsys \<Rightarrow> ('w, 'e) forsys" where
  "worker_step handle logError ctx forFn i s =
     (case fworkers s ! i of
        PLoop fe \<Rightarrow> worker_receive i fe s
      | PRunning idx fe \<Rightarrow> worker_call handle logError ctx forFn i idx fe s
      | PReturned _ \<Rightarrow> s)"

fun for_drive ::
  "(('w, 'e) forsys \<Rightarrow> nat) \<Rightarrow> ('ctx \<Rightarrow> 'p \<Rightarrow> 'w \<Rightarrow> 'e \<times> 'w) \<Rightarrow> ('ctx \<Rightarrow> 'e \<Rightarrow> 'w \<Rightarrow> 'w) \<Rightarrow> 'ctx
     \<Rightarrow> ('ctx \<Rightarrow> nat \<Rightarrow> ('w, 'e option, 'p) go) \<Rightarrow> nat \<Rightarrow> ('w, 'e) forsys \<Rightarrow> ('w, 'e) forsys" where
  "for_drive sched handle logError ctx forFn 0 s = s"
| "for_drive sched handle logError ctx forFn (Suc fuel) s =
     (if active s = [] then s
      else for_drive sched handle logError ctx forFn fuel
             (worker_step handle logError ctx forFn (active s ! (sched s mod length (active s))) s))"

definition For_call ::
  "(('w, 'e) forsys \<Rightarrow> nat) \<Rightarrow> ('ctx \<Rightarrow> 'p \<Rightarrow> 'w \<Rightarrow> 'e \<times> 'w) \<Rightarrow> ('ctx \<Rightarrow> 'e \<Rightarrow> 'w \<Rightarrow> 'w)
     \<Rightarrow> 'ctx \<Rightarrow> nat \<Rightarrow> nat \<Rightarrow> ('ctx \<Rightarrow> nat \<Rightarrow> ('w, 'e option, 'p) go) \<Rightarrow> ('w, 'e option, 'p) go" where
  "For_call sched handle logError ctx numWorkers numIndexes forFn w =
     (let s = for_drive sched handle logError ctx forFn (2 * numIndexes + numWorkers)
                (For numWorkers numIndexes w)
      in (Ret (groupErr s), forWorld s))"

lemma active_Nil: "active s = [] \<longleftrightarrow> list_all returned (fworkers s)"
  by (auto simp: active_def filter_empty_conv list_all_length)

lemma worker_step_exec:
  assumes "i \<in> set (active s)"
  shows "\<exists>a. for_internal a \<and>
    forexec handle logError ctx forFn s a = Some (worker_step handle logError ctx forFn i s)"
proof -
  from assms have i: "i < length (fworkers s)" "\<not> returned (fworkers s ! i)" by (auto simp: active_def)
  show ?thesis
  proof (cases "fworkers s ! i")
    case (PLoop fe)
    with i show ?thesis by (intro exI [of _ "FReceive i"]) (simp add: forexec.simps worker_step_def)
  next
    case (PRunning idx fe)
    with i show ?thesis by (intro exI [of _ "FCall i"]) (simp add: forexec.simps worker_step_def)
  qed (use i in simp)
qed

lemma for_drive_finishes:
  fixes forFn :: "'ctx \<Rightarrow> nat \<Rightarrow> ('w, 'e option, 'p) go" and s :: "('w, 'e) forsys"
  assumes "for_inv m n s" and "for_rank s \<le> fuel"
  shows "(\<exists>as. path (\<lambda>s a t. forexec handle logError ctx forFn s a = Some t \<and> for_internal a) s as
             (for_drive sched handle logError ctx forFn fuel s))
    \<and> list_all returned (fworkers (for_drive sched handle logError ctx forFn fuel s))"
  using assms
proof (induction fuel arbitrary: s)
  case 0
  have "returned g" if "g \<in> set (fworkers s)" for g
    using 0(2) that by (cases g) (auto simp: for_rank_def)
  then show ?case by (auto simp: list_all_iff intro: path_Nil)
next
  case (Suc fuel)
  show ?case
  proof (cases "active s = []")
    case True
    then show ?thesis by (auto simp: active_Nil intro: path_Nil)
  next
    case False
    let ?t = "worker_step handle logError ctx forFn (active s ! (sched s mod length (active s))) s"
    from False have "active s ! (sched s mod length (active s)) \<in> set (active s)" by simp
    from worker_step_exec [OF this, of handle logError ctx forFn] obtain a where a: "for_internal a"
      "forexec handle logError ctx forFn s a = Some ?t" by blast
    have "for_inv m n ?t" by (rule for_inv_step [OF Suc.prems(1) a(2)])
    moreover have "for_rank ?t \<le> fuel" using for_rank_step [OF a(2,1)] Suc.prems(2) by simp
    ultimately have IH: "(\<exists>as. path (\<lambda>s a t. forexec handle logError ctx forFn s a = Some t \<and> for_internal a) ?t as
             (for_drive sched handle logError ctx forFn fuel ?t))
      \<and> list_all returned (fworkers (for_drive sched handle logError ctx forFn fuel ?t))"
      by (rule Suc.IH)
    with a False show ?thesis by (auto intro: path_Cons)
  qed
qed

text \<open>Whatever the scheduler, the call returns, in a final state of the machine.\<close>

lemma For_call_returns:
  fixes forFn :: "'ctx \<Rightarrow> nat \<Rightarrow> ('w, 'e option, 'p) go"
  shows "\<exists>as s r. path (\<lambda>s a t. forexec handle logError ctx forFn s a = Some t \<and> for_internal a)
      (For m n w) as s \<and> for_inv m n s \<and> group_Wait s = Some r
      \<and> For_call sched handle logError ctx m n forFn w = (Ret r, forWorld s)"
proof -
  let ?s = "for_drive sched handle logError ctx forFn (2 * n + m) (For m n w)"
  from for_drive_finishes [OF for_inv_For for_rank_For, where sched = sched and handle = handle
      and logError = logError and ctx = ctx and forFn = forFn]
  obtain as where as: "path (\<lambda>s a t. forexec handle logError ctx forFn s a = Some t \<and> for_internal a)
      (For m n w) as ?s" and fin: "list_all returned (fworkers ?s)" by blast
  from as have "path (by_exec (forexec handle logError ctx forFn)) (For m n w) as ?s"
    by (rule path_mono) (simp add: by_exec_def)
  then have "for_inv m n ?s" by (rule pf.inv_path) (rule for_inv_For)
  with as fin show ?thesis
    by (intro exI [of _ as] exI [of _ ?s] exI [of _ "groupErr ?s"]) (simp add: group_Wait_iff For_call_def Let_def)
qed

text \<open>A schedule for the runs below: the first worker takes index 0, then the other one runs index 1.\<close>

definition sample_sched :: "(string list, string) forsys \<Rightarrow> nat" where
  "sample_sched s = (if started s = [] then 0 else 1)"



section \<open>Forever\<close>

text \<open>
  The goroutines are marked as running or ended. Their context is the child context: cancelled when
  the parent is, and by the deferred \<open>cancel\<close> of a goroutine that ended; \<open>child c\<close> is that
  context as \<open>forFn\<close> sees it. A goroutine that never returns is one whose step is never taken.
  With no workers \<open>Forever\<close> returns before it creates the child context.
\<close>

record 'w foreversys =
  running_workers :: "bool list"
  parentDone :: bool
  childDone :: bool
  foreverWorld :: 'w
  foreverReturned :: bool

definition Forever :: "nat \<Rightarrow> bool \<Rightarrow> 'w \<Rightarrow> 'w foreversys" where
  "Forever numWorkers parent w =
     \<lparr>running_workers = replicate numWorkers True, parentDone = parent, childDone = parent,
      foreverWorld = w, foreverReturned = (numWorkers = 0)\<rparr>"

definition forever_call ::
  "('ctx \<Rightarrow> 'p \<Rightarrow> 'w \<Rightarrow> 'e \<times> 'w) \<Rightarrow> ('ctx \<Rightarrow> 'e \<Rightarrow> 'w \<Rightarrow> 'w) \<Rightarrow> (bool \<Rightarrow> 'ctx)
     \<Rightarrow> ('ctx \<Rightarrow> nat \<Rightarrow> ('w, 'e option, 'p) go) \<Rightarrow> nat \<Rightarrow> 'w foreversys \<Rightarrow> 'w foreversys" where
  "forever_call handle logError child forFn idx s =
     (case (RunWithFatalLogging handle logError (child (childDone s)) (\<lambda>ctx. forFn ctx idx) (foreverWorld s)
              :: ('e option, unit) outcome \<times> 'w) of
        (_, w) \<Rightarrow> s\<lparr>running_workers := (running_workers s)[idx := False], childDone := True, foreverWorld := w\<rparr>)"

datatype 'w foreveract = VCall nat | VParent | VReturn | VWorld 'w

fun vexec ::
  "('ctx \<Rightarrow> 'p \<Rightarrow> 'w \<Rightarrow> 'e \<times> 'w) \<Rightarrow> ('ctx \<Rightarrow> 'e \<Rightarrow> 'w \<Rightarrow> 'w) \<Rightarrow> (bool \<Rightarrow> 'ctx)
     \<Rightarrow> ('ctx \<Rightarrow> nat \<Rightarrow> ('w, 'e option, 'p) go) \<Rightarrow> 'w foreversys \<Rightarrow> 'w foreveract \<Rightarrow> 'w foreversys option" where
  "vexec handle logError child forFn s (VCall idx) =
     (if idx < length (running_workers s) \<and> running_workers s ! idx
      then Some (forever_call handle logError child forFn idx s) else None)"
| "vexec handle logError child forFn s VParent = Some (s\<lparr>parentDone := True, childDone := True\<rparr>)"
| "vexec handle logError child forFn s VReturn =
     (if \<not> foreverReturned s \<and> childDone s then Some (s\<lparr>foreverReturned := True\<rparr>) else None)"
| "vexec handle logError child forFn s (VWorld w) = Some (s\<lparr>foreverWorld := w\<rparr>)"

declare vexec.simps [simp del]

definition forever_inv :: "nat \<Rightarrow> 'w foreversys \<Rightarrow> bool" where
  "forever_inv n s \<longleftrightarrow> length (running_workers s) = n
     \<and> (childDone s \<longleftrightarrow> parentDone s \<or> False \<in> set (running_workers s))
     \<and> (foreverReturned s \<longrightarrow> n = 0 \<or> childDone s)"

definition forever_init :: "nat \<Rightarrow> 'w foreversys \<Rightarrow> bool" where
  "forever_init n s \<longleftrightarrow> (\<exists>parent w. s = Forever n parent w)"

lemma forever_call_eq:
  "\<exists>w. forever_call handle logError child forFn idx s =
    s\<lparr>running_workers := (running_workers s)[idx := False], childDone := True, foreverWorld := w\<rparr>"
  by (auto simp: forever_call_def split: prod.split)

lemma forever_inv_init: "forever_init n s \<Longrightarrow> forever_inv n s"
  by (auto simp: forever_init_def Forever_def forever_inv_def)

lemma forever_inv_step:
  assumes "forever_inv n s" and "vexec handle logError child forFn s a = Some t"
  shows "forever_inv n t"
proof (cases a)
  case (VCall idx)
  with assms(2) have idx: "idx < length (running_workers s)"
    and t: "t = forever_call handle logError child forFn idx s"
    by (auto simp: vexec.simps split: if_splits)
  from idx have "False \<in> set ((running_workers s)[idx := False])" by (rule set_update_memI)
  moreover obtain w where "t = s\<lparr>running_workers := (running_workers s)[idx := False], childDone := True, foreverWorld := w\<rparr>"
    using forever_call_eq t by metis
  ultimately show ?thesis using assms(1) by (simp add: forever_inv_def)
qed (use assms in \<open>auto simp: vexec.simps forever_inv_def split: if_splits\<close>)

interpretation fv: transition_invariant "forever_init n" "by_exec (vexec handle logError child forFn)" "forever_inv n"
  by unfold_locales (auto simp: by_exec_def intro: forever_inv_init forever_inv_step)

text \<open>
  With workers, \<open>Forever\<close> returns only once the caller's context is done or a worker has
  returned or panicked, in either case the context of the remaining workers is cancelled, and from
  then on its return is always enabled until it happens; with none it has returned at once.
\<close>

theorem forever_returns_on_exit:
  assumes "reach (forever_init n) (by_exec (vexec handle logError child forFn)) s"
  shows "(0 < n \<longrightarrow> (foreverReturned s \<longrightarrow> childDone s))
    \<and> (childDone s \<longleftrightarrow> parentDone s \<or> (\<exists>idx < n. \<not> running_workers s ! idx))
    \<and> (childDone s \<and> \<not> foreverReturned s \<longrightarrow>
         vexec handle logError child forFn s VReturn = Some (s\<lparr>foreverReturned := True\<rparr>))"
proof -
  have inv: "forever_inv n s" using assms by (rule fv.inv_reach)
  then have "False \<in> set (running_workers s) \<longleftrightarrow> (\<exists>idx < n. \<not> running_workers s ! idx)"
    by (auto simp: forever_inv_def in_set_conv_nth)
  with inv show ?thesis by (auto simp: forever_inv_def vexec.simps)
qed

theorem forever_returns_on_exit_witness:
  "\<exists>s. reach (forever_init 2) (by_exec (vexec sample_handle sample_log (\<lambda>_. ()) sample_fn)) s
      \<and> childDone s \<and> running_workers s = [False, True]
      \<and> vexec sample_handle sample_log (\<lambda>_. ()) sample_fn s VReturn = Some (s\<lparr>foreverReturned := True\<rparr>)"
proof -
  let ?run = "run (vexec sample_handle sample_log (\<lambda>_. ()) sample_fn) (Forever 2 False []) [VCall 0]"
  have "\<exists>s. ?run = Some s \<and> running_workers s = [False, True] \<and> childDone s \<and> \<not> foreverReturned s"
    by (simp add: vexec.simps Forever_def forever_call_def for_eval numeral_2_eq_2)
  then obtain s where s: "?run = Some s" "running_workers s = [False, True]" "childDone s" "\<not> foreverReturned s"
    by blast
  have "reach (forever_init 2) (by_exec (vexec sample_handle sample_log (\<lambda>_. ()) sample_fn)) s"
    by (rule run_reach [OF _ s(1)]) (auto simp: forever_init_def)
  from this forever_returns_on_exit [OF this] s show ?thesis by blast
qed

end
