(* ===== verification/Runnables.thy ===== *)
theory Runnables
  imports Go_Functions Parallel_For
begin

text \<open>
  The package \<open>runnable\<close>: named runnables, their wrappers, and the sequential, parallel and
  forever combinations. A wrapper is a function on named runnables. The service logger, the health
  source and the clock are not code of this repository; they are arguments: \<open>slog\<close> collects the
  three calls of the logger, \<open>submit\<close> is the health source's \<open>Submit\<close>. The two wrappers whose
  loop need not end give the value of \<open>go_loop\<close>; \<open>WithTimeout\<close> is a machine.
\<close>

section \<open>runnable/runnable.go and the simple wrappers\<close>

type_synonym ('ctx, 'w, 'e, 'p) RunFn = "'ctx \<Rightarrow> ('w, 'e option, 'p) go"
type_synonym ('ctx, 'w, 'e, 'p) Wrapper =
  "('ctx, 'w, 'e, 'p) NamedRunnable \<Rightarrow> ('ctx, 'w, 'e, 'p) NamedRunnable"
type_synonym ('ctx, 'w, 'e, 'p) ErrorFn = "'ctx \<Rightarrow> 'e \<Rightarrow> ('w, unit, 'p) go"

record ('ctx, 'w, 'e) slog =
  WithLoggerParams :: "'ctx \<Rightarrow> string \<Rightarrow> string \<Rightarrow> 'ctx"
  Info :: "'ctx \<Rightarrow> string \<Rightarrow> 'w \<Rightarrow> 'w"
  Error :: "'ctx \<Rightarrow> string \<Rightarrow> 'e \<Rightarrow> 'w \<Rightarrow> 'w"

fun WithWrappers :: "('ctx, 'w, 'e, 'p) Wrapper list \<Rightarrow> ('ctx, 'w, 'e, 'p) Wrapper" where
  "WithWrappers [] r = r"
| "WithWrappers (wrapper # wrappers) r = WithWrappers wrappers (wrapper r)"

record ('ctx, 'w, 'e, 'p) genericRunnable =
  generic_name :: string
  runFn :: "('ctx, 'w, 'e, 'p) RunFn"

definition genericRunnable_Run :: "('ctx, 'w, 'e, 'p) genericRunnable \<Rightarrow> ('ctx, 'w, 'e, 'p) RunFn" where
  "genericRunnable_Run r ctx = runFn r ctx"

definition New :: "string \<Rightarrow> ('ctx, 'w, 'e, 'p) RunFn \<Rightarrow> ('ctx, 'w, 'e, 'p) Wrapper list
    \<Rightarrow> ('ctx, 'w, 'e, 'p) NamedRunnable" where
  "New n f wrappers =
     (let r = \<lparr>generic_name = n, runFn = f\<rparr>
      in WithWrappers wrappers \<lparr>Name = generic_name r, Run = genericRunnable_Run r\<rparr>)"

definition WithFatalLogging ::
  "('ctx \<Rightarrow> 'p \<Rightarrow> 'w \<Rightarrow> 'e \<times> 'w) \<Rightarrow> ('ctx \<Rightarrow> 'e \<Rightarrow> 'w \<Rightarrow> 'w) \<Rightarrow> ('ctx, 'w, 'e, 'p) Wrapper" where
  "WithFatalLogging handle logError r =
     New (Name r) (\<lambda>ctx. RunWithFatalLogging handle logError ctx (Run r)) []"

definition WithServiceLogging :: "('ctx, 'w, 'e) slog \<Rightarrow> ('ctx, 'w, 'e, 'p) Wrapper" where
  "WithServiceLogging L r =
     New (Name r) (\<lambda>ctx.
       let ctx = WithLoggerParams L ctx ''runnableName'' (Name r) in
       go_bind (go_effect (Info L ctx ''Starting runnable'')) (\<lambda>_.
       go_bind (Run r ctx) (\<lambda>err. case err of
           Some e \<Rightarrow> go_bind (go_effect (Error L ctx ''Runnable errored'' e)) (\<lambda>_. go_return (Some e))
         | None \<Rightarrow> go_bind (go_effect (Info L ctx ''Runnable finished'')) (\<lambda>_. go_return None)))) []"

definition WithErrorHandler :: "('ctx, 'w, 'e, 'p) ErrorFn option \<Rightarrow> ('ctx, 'w, 'e, 'p) Wrapper" where
  "WithErrorHandler errorFn r =
     New (Name r) (\<lambda>ctx.
       go_bind (Run r ctx) (\<lambda>err. case err of
           Some e \<Rightarrow> (case errorFn of
               Some f \<Rightarrow> go_bind (f ctx e) (\<lambda>_. go_return (Some e))
             | None \<Rightarrow> go_return (Some e))
         | None \<Rightarrow> go_return None)) []"

definition DisableErrorPropagation :: "('ctx, 'w, 'e) slog \<Rightarrow> ('ctx, 'w, 'e, 'p) Wrapper" where
  "DisableErrorPropagation L r =
     New (Name r) (\<lambda>ctx.
       go_bind (Run r ctx) (\<lambda>err. case err of
           Some e \<Rightarrow> go_bind (go_effect (Error L ctx ''Error while running runnable'' e)) (\<lambda>_. go_return None)
         | None \<Rightarrow> go_return None)) []"

definition WithTelemetry ::
  "('ctx \<Rightarrow> string \<Rightarrow> 'e option \<Rightarrow> 'w \<Rightarrow> 'w) \<Rightarrow> ('ctx, 'w, 'e, 'p) Wrapper" where
  "WithTelemetry submit r =
     New (Name r) (\<lambda>ctx.
       go_bind (Run r ctx) (\<lambda>err.
       go_bind (go_effect (submit ctx (Name r) err)) (\<lambda>_. go_return err))) []"

section \<open>The wrappers with a loop\<close>

text \<open>
  \<open>poll\<close> is the non-blocking receive of \<open>stopChan\<close> in the world (true: closed, or a value was
  there); \<open>await\<close> is the blocking \<open>select\<close> over the ticker, \<open>stopChan\<close> and the context.
  \<open>time.NewTicker\<close> panics on an interval that is not positive.
\<close>

definition while_body ::
  "('w \<Rightarrow> bool \<times> 'w) \<Rightarrow> ('ctx, 'w, 'e, 'p) NamedRunnable \<Rightarrow> 'ctx
     \<Rightarrow> 'w \<Rightarrow> ('e option, 'p) outcome option \<times> 'w" where
  "while_body poll r ctx w =
     (case poll w of
        (True, w') \<Rightarrow> (Some (Ret None), w')
      | (False, w') \<Rightarrow>
          (case Run r ctx w' of
             (Ret None, v) \<Rightarrow> (None, v)
           | (Ret (Some e), v) \<Rightarrow> (Some (Ret (Some e)), v)
           | (Panic p, v) \<Rightarrow> (Some (Panic p), v)))"

definition WhileChanNotClosed ::
  "('w \<Rightarrow> bool \<times> 'w) \<Rightarrow> ('ctx, 'w, 'e, 'p) NamedRunnable \<Rightarrow> 'ctx
     \<Rightarrow> 'w \<Rightarrow> (('e option, 'p) outcome \<times> 'w) option" where
  "WhileChanNotClosed poll r ctx = go_loop (while_body poll r ctx)"

datatype 'e wake = Tick | Stopped | CtxDone 'e

definition periodic_body ::
  "('w \<Rightarrow> 'e wake \<times> 'w) \<Rightarrow> ('ctx, 'w, 'e, 'p) NamedRunnable \<Rightarrow> 'ctx
     \<Rightarrow> 'w \<Rightarrow> ('e option, 'p) outcome option \<times> 'w" where
  "periodic_body await r ctx w =
     (case Run r ctx w of
        (Ret (Some e), v) \<Rightarrow> (Some (Ret (Some e)), v)
      | (Panic p, v) \<Rightarrow> (Some (Panic p), v)
      | (Ret None, v) \<Rightarrow>
          (case await v of
             (Tick, u) \<Rightarrow> (None, u)
           | (Stopped, u) \<Rightarrow> (Some (Ret None), u)
           | (CtxDone e, u) \<Rightarrow> (Some (Ret (Some e)), u)))"

definition Periodically ::
  "'p \<Rightarrow> int \<Rightarrow> (int \<Rightarrow> 'ctx \<Rightarrow> 'w \<Rightarrow> 'e wake \<times> 'w) \<Rightarrow> ('ctx, 'w, 'e, 'p) NamedRunnable \<Rightarrow> 'ctx
     \<Rightarrow> 'w \<Rightarrow> (('e option, 'p) outcome \<times> 'w) option" where
  "Periodically tickerPanic interval await r ctx w =
     (if interval \<le> 0 then Some (Panic tickerPanic, w)
      else go_loop (periodic_body (await interval ctx) r ctx) w)"

section \<open>runnable/sequential.go and runnable/parallel.go\<close>

record ('ctx, 'w, 'e, 'p) sequentialRunnable =
  seq_name :: string
  seq_runnables :: "('ctx, 'w, 'e, 'p) NamedRunnable list"
  seq_wrappers :: "('ctx, 'w, 'e, 'p) Wrapper list"

fun sequential_loop ::
  "('ctx, 'w, 'e, 'p) Wrapper list \<Rightarrow> ('ctx, 'w, 'e, 'p) NamedRunnable list \<Rightarrow> ('ctx, 'w, 'e, 'p) RunFn" where
  "sequential_loop wrappers [] ctx = go_return None"
| "sequential_loop wrappers (r # rs) ctx =
     go_bind (Run (WithWrappers wrappers r) ctx) (\<lambda>err. case err of
         Some e \<Rightarrow> go_return (Some e)
       | None \<Rightarrow> sequential_loop wrappers rs ctx)"

definition sequential_Run :: "('ctx, 'w, 'e, 'p) sequentialRunnable \<Rightarrow> ('ctx, 'w, 'e, 'p) RunFn" where
  "sequential_Run p ctx = sequential_loop (seq_wrappers p) (seq_runnables p) ctx"

definition NewSequential :: "string \<Rightarrow> ('ctx, 'w, 'e, 'p) NamedRunnable list
    \<Rightarrow> ('ctx, 'w, 'e, 'p) Wrapper list \<Rightarrow> ('ctx, 'w, 'e, 'p) NamedRunnable" where
  "NewSequential n runnables wrappers =
     (let p = \<lparr>seq_name = n, seq_runnables = runnables, seq_wrappers = wrappers\<rparr>
      in \<lparr>Name = seq_name p, Run = sequential_Run p\<rparr>)"

text \<open>
  The function given to \<open>parallel.For\<close> is only called with indexes of the slice
  (\<open>for_each_index_once\<close>). How the workers of \<open>For\<close> are scheduled is the argument \<open>sched\<close>.
\<close>

record ('ctx, 'w, 'e, 'p) parallelRunnable =
  par_name :: string
  maxParallelWorkers :: nat
  par_runnables :: "('ctx, 'w, 'e, 'p) NamedRunnable list"
  par_wrappers :: "('ctx, 'w, 'e, 'p) Wrapper list"

definition parallelWorkers :: "('ctx, 'w, 'e, 'p) parallelRunnable \<Rightarrow> nat" where
  "parallelWorkers p =
     (let numRunnables = length (par_runnables p)
      in if maxParallelWorkers p > 0 \<and> numRunnables > maxParallelWorkers p
         then maxParallelWorkers p else numRunnables)"

definition parallel_forFn ::
  "('ctx, 'w, 'e, 'p) NamedRunnable list \<Rightarrow> ('ctx, 'w, 'e, 'p) Wrapper list
     \<Rightarrow> 'ctx \<Rightarrow> nat \<Rightarrow> ('w, 'e option, 'p) go" where
  "parallel_forFn runnables wrappers ctx idx = Run (WithWrappers wrappers (runnables ! idx)) ctx"

definition parallel_Run ::
  "(('w, 'e) forsys \<Rightarrow> nat) \<Rightarrow> ('ctx \<Rightarrow> 'p \<Rightarrow> 'w \<Rightarrow> 'e \<times> 'w) \<Rightarrow> ('ctx \<Rightarrow> 'e \<Rightarrow> 'w \<Rightarrow> 'w)
     \<Rightarrow> ('ctx, 'w, 'e, 'p) parallelRunnable \<Rightarrow> ('ctx, 'w, 'e, 'p) RunFn" where
  "parallel_Run sched handle logError p ctx =
     For_call sched handle logError ctx (parallelWorkers p) (length (par_runnables p))
       (parallel_forFn (par_runnables p) (par_wrappers p))"

definition NewParallel ::
  "(('w, 'e) forsys \<Rightarrow> nat) \<Rightarrow> ('ctx \<Rightarrow> 'p \<Rightarrow> 'w \<Rightarrow> 'e \<times> 'w) \<Rightarrow> ('ctx \<Rightarrow> 'e \<Rightarrow> 'w \<Rightarrow> 'w)
     \<Rightarrow> string \<Rightarrow> nat \<Rightarrow> ('ctx, 'w, 'e, 'p) NamedRunnable list \<Rightarrow> ('ctx, 'w, 'e, 'p) Wrapper list
     \<Rightarrow> ('ctx, 'w, 'e, 'p) NamedRunnable" where
  "NewParallel sched handle logError n maxWorkers runnables wrappers =
     (let p = \<lparr>par_name = n, maxParallelWorkers = maxWorkers, par_runnables = runnables, par_wrappers = wrappers\<rparr>
      in \<lparr>Name = par_name p, Run = parallel_Run sched handle logError p\<rparr>)"

section \<open>runnable/forever.go\<close>

text \<open>
  \<open>foreverRunnable.Run\<close> starts \<open>Forever\<close> on its runnables and returns \<open>nil\<close> when that returns.
\<close>

record ('ctx, 'w, 'e, 'p) foreverRunnable =
  forever_name :: string
  forever_runnables :: "('ctx, 'w, 'e, 'p) NamedRunnable list"
  forever_wrappers :: "('ctx, 'w, 'e, 'p) Wrapper list"

definition NewForever :: "string \<Rightarrow> ('ctx, 'w, 'e, 'p) NamedRunnable list
    \<Rightarrow> ('ctx, 'w, 'e, 'p) Wrapper list \<Rightarrow> ('ctx, 'w, 'e, 'p) foreverRunnable" where
  "NewForever n runnables wrappers =
     \<lparr>forever_name = n, forever_runnables = runnables, forever_wrappers = wrappers\<rparr>"

definition forever_start :: "('ctx, 'w, 'e, 'p) foreverRunnable \<Rightarrow> bool \<Rightarrow> 'w \<Rightarrow> 'w foreversys" where
  "forever_start p parent w = Forever (length (forever_runnables p)) parent w"

definition forever_exec ::
  "('ctx \<Rightarrow> 'p \<Rightarrow> 'w \<Rightarrow> 'e \<times> 'w) \<Rightarrow> ('ctx \<Rightarrow> 'e \<Rightarrow> 'w \<Rightarrow> 'w) \<Rightarrow> (bool \<Rightarrow> 'ctx)
     \<Rightarrow> ('ctx, 'w, 'e, 'p) foreverRunnable \<Rightarrow> 'w foreversys \<Rightarrow> 'w foreveract \<Rightarrow> 'w foreversys option" where
  "forever_exec handle logError child p =
     vexec handle logError child (parallel_forFn (forever_runnables p) (forever_wrappers p))"

definition forever_result :: "'w foreversys \<Rightarrow> 'e option option" where
  "forever_result s = (if foreverReturned s then Some None else None)"


section \<open>WithTimeout\<close>

text \<open>
  The caller of the wrapped \<open>Run\<close> waits in its \<open>select\<close>; the goroutine runs the runnable and
  sends its error to \<open>errChan\<close>, of capacity 1. \<open>ctxErr\<close> is the context's error once its
  deadline passed or its parent was cancelled, \<open>cancelled\<close> the deferred \<open>cancel()\<close>; \<open>child d\<close>
  is the context as the runnable sees it, done or not. A panic in the goroutine ends the process:
  nothing moves after it. \<open>childOutcome\<close> is history.
\<close>

datatype 'e tchild = ChildRunning | ChildSending "'e option" | ChildGone | ChildPanicked

record ('w, 'e, 'p) timeoutsys =
  tchild :: "'e tchild"
  errChan :: "'e option list"
  ctxErr :: "'e option"
  cancelled :: bool
  tresult :: "'e option option"
  tworld :: 'w
  childOutcome :: "('e option, 'p) outcome option"

definition WithTimeout :: "'w \<Rightarrow> ('w, 'e, 'p) timeoutsys" where
  "WithTimeout w = \<lparr>tchild = ChildRunning, errChan = [], ctxErr = None, cancelled = False,
     tresult = None, tworld = w, childOutcome = None\<rparr>"

definition timeout_run ::
  "(bool \<Rightarrow> 'ctx) \<Rightarrow> ('ctx, 'w, 'e, 'p) NamedRunnable \<Rightarrow> ('w, 'e, 'p) timeoutsys \<Rightarrow> ('w, 'e, 'p) timeoutsys" where
  "timeout_run child r s =
     (case Run r (child (ctxErr s \<noteq> None \<or> cancelled s)) (tworld s) of
        (Ret err, w) \<Rightarrow> s\<lparr>tchild := ChildSending err, tworld := w, childOutcome := Some (Ret err)\<rparr>
      | (Panic p, w) \<Rightarrow> s\<lparr>tchild := ChildPanicked, tworld := w, childOutcome := Some (Panic p)\<rparr>)"

datatype ('w, 'e) timeoutact = TRun | TSend | TExpire 'e | TRecv | TCtx | TWorld 'w

fun texec ::
  "(bool \<Rightarrow> 'ctx) \<Rightarrow> ('ctx, 'w, 'e, 'p) NamedRunnable \<Rightarrow> ('w, 'e, 'p) timeoutsys
     \<Rightarrow> ('w, 'e) timeoutact \<Rightarrow> ('w, 'e, 'p) timeoutsys option" where
  "texec child r s a =
     (case tchild s of ChildPanicked \<Rightarrow> None | _ \<Rightarrow>
       (case a of
          TRun \<Rightarrow> (case tchild s of ChildRunning \<Rightarrow> Some (timeout_run child r s) | _ \<Rightarrow> None)
        | TSend \<Rightarrow> (case tchild s of
              ChildSending err \<Rightarrow> (if length (errChan s) < 1
                then Some (s\<lparr>tchild := ChildGone, errChan := errChan s @ [err]\<rparr>) else None)
            | _ \<Rightarrow> None)
        | TExpire e \<Rightarrow> (if ctxErr s = None \<and> \<not> cancelled s then Some (s\<lparr>ctxErr := Some e\<rparr>) else None)
        | TRecv \<Rightarrow> (case tresult s of
              None \<Rightarrow> (case errChan s of
                  err # rest \<Rightarrow> Some (s\<lparr>errChan := rest, tresult := Some err, cancelled := True\<rparr>)
                | [] \<Rightarrow> None)
            | Some _ \<Rightarrow> None)
        | TCtx \<Rightarrow> (case tresult s of
              None \<Rightarrow> (case ctxErr s of
                  Some e \<Rightarrow> Some (s\<lparr>tresult := Some (Some e), cancelled := True\<rparr>)
                | None \<Rightarrow> None)
            | Some _ \<Rightarrow> None)
        | TWorld w \<Rightarrow> Some (s\<lparr>tworld := w\<rparr>)))"

declare texec.simps [simp del]

definition timeout_inv :: "('w, 'e, 'p) timeoutsys \<Rightarrow> bool" where
  "timeout_inv s \<longleftrightarrow>
     (case tchild s of
        ChildRunning \<Rightarrow> errChan s = [] \<and> childOutcome s = None
      | ChildSending err \<Rightarrow> errChan s = [] \<and> childOutcome s = Some (Ret err)
      | ChildGone \<Rightarrow> (\<exists>err. childOutcome s = Some (Ret err) \<and> (errChan s = [err] \<or> errChan s = [] \<and> tresult s \<noteq> None))
      | ChildPanicked \<Rightarrow> (\<exists>p. childOutcome s = Some (Panic p)))
     \<and> (\<forall>res. tresult s = Some res \<longrightarrow> childOutcome s = Some (Ret res) \<or> (\<exists>e. res = Some e \<and> ctxErr s = Some e))
     \<and> (cancelled s \<longleftrightarrow> tresult s \<noteq> None)"

definition timeout_init :: "('w, 'e, 'p) timeoutsys \<Rightarrow> bool" where
  "timeout_init s \<longleftrightarrow> (\<exists>w. s = WithTimeout w)"

lemma timeout_inv_init: "timeout_init s \<Longrightarrow> timeout_inv s"
  by (auto simp: timeout_init_def WithTimeout_def timeout_inv_def)

lemma timeout_inv_step: "timeout_inv s \<Longrightarrow> texec child r s a = Some t \<Longrightarrow> timeout_inv t"
  by (cases a)
    (auto simp: texec.simps timeout_inv_def timeout_run_def
      split: tchild.splits if_splits option.splits list.splits prod.splits outcome.splits)

interpretation tmo: transition_invariant timeout_init "by_exec (texec child r)" timeout_inv
  by unfold_locales (auto simp: by_exec_def intro: timeout_inv_init timeout_inv_step)


section \<open>Wrappers composed\<close>

lemma New_simps [simp]: "Name (New n f []) = n" "Run (New n f []) = f"
  by (simp_all add: New_def genericRunnable_Run_def [abs_def])

lemma WithWrappers_snoc: "WithWrappers (ws @ [v]) r = v (WithWrappers ws r)"
  by (induction ws arbitrary: r) simp_all

lemma WithWrappers_append: "WithWrappers (ws @ vs) r = WithWrappers vs (WithWrappers ws r)"
  by (induction ws arbitrary: r) simp_all

lemma New_wrappers: "New n f ws = WithWrappers ws (New n f [])"
  by (simp add: New_def Let_def)

lemmas wrapper_defs = WithFatalLogging_def WithServiceLogging_def WithErrorHandler_def
  DisableErrorPropagation_def WithTelemetry_def

definition keeps_name :: "('ctx, 'w, 'e, 'p) Wrapper \<Rightarrow> bool" where
  "keeps_name v \<longleftrightarrow> (\<forall>r. Name (v r) = Name r)"

lemma library_wrappers_keep_name [simp]:
  "keeps_name (WithFatalLogging handle logError)" "keeps_name (WithServiceLogging L)"
  "keeps_name (WithErrorHandler f)" "keeps_name (DisableErrorPropagation L)" "keeps_name (WithTelemetry submit)"
  by (simp_all add: keeps_name_def wrapper_defs)

lemma WithWrappers_name: "list_all keeps_name ws \<Longrightarrow> Name (WithWrappers ws r) = Name r"
  by (induction ws arbitrary: r) (simp_all add: keeps_name_def)

lemma New_name: "list_all keeps_name ws \<Longrightarrow> Name (New n f ws) = n"
  by (subst New_wrappers) (simp add: WithWrappers_name)

text \<open>
  \<open>WithWrappers\<close> applies the wrappers from the first to the last, so that the last one
  is the outermost layer, and the order matters: disabling error propagation and then recovering
  from panics lets a panic through as an error, the other order does not.
\<close>

theorem wrappers_last_outermost:
  "WithWrappers [A, B] r = B (A r)
    \<and> WithWrappers (ws @ [B]) r = B (WithWrappers ws r)
    \<and> fst (Run (WithWrappers [WithFatalLogging sample_handle sample_log,
             DisableErrorPropagation \<lparr>WithLoggerParams = \<lambda>c _ _. c, Info = \<lambda>_ _ v. v, Error = \<lambda>_ _ _ v. v\<rparr>]
           \<lparr>Name = ''boom'', Run = \<lambda>ctx v. (Panic ''a'', v)\<rparr>) () []) = Ret None
    \<and> fst (Run (WithWrappers [DisableErrorPropagation \<lparr>WithLoggerParams = \<lambda>c _ _. c, Info = \<lambda>_ _ v. v, Error = \<lambda>_ _ _ v. v\<rparr>,
             WithFatalLogging sample_handle sample_log]
           \<lparr>Name = ''boom'', Run = \<lambda>ctx v. (Panic ''a'', v)\<rparr>) () []) = Ret (Some ''a'')"
  by (simp add: WithWrappers_snoc wrapper_defs RunWithFatalLogging_def go_bind_def go_return_def go_effect_def
      sample_handle_def)

text \<open>
  Recovering from panics, then reporting to the health source, then disabling error
  propagation gives a runnable that neither panics nor returns an error: its outcome, the error of a
  panic included, is submitted exactly once under the runnable's name, which the layers keep, and an
  error is logged.
\<close>

theorem recovered_reported_swallowed:
  fixes r :: "('ctx, 'w, 'e, 'p) NamedRunnable"
  shows "Name (WithWrappers [WithFatalLogging handle logError, WithTelemetry submit, DisableErrorPropagation L] r) = Name r
    \<and> (\<exists>err v. (RunWithFatalLogging handle logError ctx (Run r) w :: ('e option, 'p) outcome \<times> 'w) = (Ret err, v)
       \<and> Run (WithWrappers [WithFatalLogging handle logError, WithTelemetry submit, DisableErrorPropagation L] r) ctx w
         = (Ret None, (case err of
              None \<Rightarrow> submit ctx (Name r) None v
            | Some e \<Rightarrow> Error L ctx ''Error while running runnable'' e (submit ctx (Name r) (Some e) v))))"
  (is "?name \<and> ?result")
proof
  show ?name by (rule WithWrappers_name) simp
  obtain err v where "(RunWithFatalLogging handle logError ctx (Run r) w :: ('e option, 'p) outcome \<times> 'w) = (Ret err, v)"
    using RunWithFatalLogging_returns by meson
  then show ?result
    by (intro exI [of _ err] exI [of _ v])
      (simp add: wrapper_defs go_bind_def go_return_def go_effect_def split: option.split)
qed

section \<open>Sequential runs\<close>

text \<open>The world after all the (wrapped) runnables returned \<open>nil\<close>, one after another.\<close>

fun all_nil :: "('ctx, 'w, 'e, 'p) Wrapper list \<Rightarrow> ('ctx, 'w, 'e, 'p) NamedRunnable list \<Rightarrow> 'ctx \<Rightarrow> 'w \<Rightarrow> 'w option" where
  "all_nil wrappers [] ctx w = Some w"
| "all_nil wrappers (r # rs) ctx w =
     (case Run (WithWrappers wrappers r) ctx w of
        (Ret None, v) \<Rightarrow> all_nil wrappers rs ctx v | _ \<Rightarrow> None)"

lemma sequential_loop_iff:
  "sequential_loop wrappers rs ctx w = (out, v) \<longleftrightarrow>
     out = Ret None \<and> all_nil wrappers rs ctx w = Some v
     \<or> out \<noteq> Ret None \<and> (\<exists>k < length rs. \<exists>u. all_nil wrappers (take k rs) ctx w = Some u
          \<and> Run (WithWrappers wrappers (rs ! k)) ctx u = (out, v))"
proof (induction rs arbitrary: w)
  case Nil
  then show ?case by (auto simp: go_return_def)
next
  case (Cons r rs)
  note ex_Suc = length_Cons Ex_less_Suc2
  obtain x u where run: "Run (WithWrappers wrappers r) ctx w = (x, u)" by fastforce
  show ?case
  proof (cases x)
    case (Ret err)
    then show ?thesis
    proof (cases err)
      case None
      with run Ret Cons.IH [of u] show ?thesis
        unfolding ex_Suc by (auto simp: go_bind_def)
    next
      case (Some e)
      with run Ret show ?thesis
        unfolding ex_Suc by (auto simp: go_bind_def go_return_def)
    qed
  next
    case (Panic p)
    with run show ?thesis unfolding ex_Suc by (auto simp: go_bind_def)
  qed
qed

text \<open>
  Claim C29: a sequential runnable returns \<open>nil\<close> exactly when every runnable, in order, returned
  \<open>nil\<close>; otherwise its outcome (an error or a panic) is that of the first one that did not return
  \<open>nil\<close>, run in the world the earlier ones left, and the later ones are not run.
\<close>

theorem sequential_first_error:
  "Run (NewSequential n runnables wrappers) ctx w = (out, v) \<longleftrightarrow>
     out = Ret None \<and> all_nil wrappers runnables ctx w = Some v
     \<or> out \<noteq> Ret None \<and> (\<exists>k < length runnables. \<exists>u. all_nil wrappers (take k runnables) ctx w = Some u
          \<and> Run (WithWrappers wrappers (runnables ! k)) ctx u = (out, v))"
  by (simp add: NewSequential_def sequential_Run_def sequential_loop_iff)


section \<open>Parallel runs\<close>

text \<open>
  Claim C30: under every schedule a parallel runnable returns without a panic after it ran each of its
  runnables (each inside the wrappers) exactly once, at most \<open>maxParallelWorkers\<close> at a time when
  that is not zero; it returns \<open>nil\<close> exactly when all of them did and otherwise the error of one of
  them.
\<close>

theorem parallel_runs_all:
  fixes runnables :: "('ctx, 'w, 'e, 'p) NamedRunnable list"
  shows "\<exists>as s r. Run (NewParallel sched handle logError name maxWorkers runnables wrappers) ctx w = (Ret r, forWorld s)
    \<and> path (by_exec (forexec handle logError ctx (parallel_forFn runnables wrappers)))
        (For (if maxWorkers = 0 then length runnables else min maxWorkers (length runnables)) (length runnables) w) as s
    \<and> mset (map fst (outcomes s)) = mset [0..<length runnables]
    \<and> (r = None \<longleftrightarrow> (\<forall>(idx, err) \<in> set (outcomes s). err = None))
    \<and> (\<forall>e. r = Some e \<longrightarrow> (\<exists>idx < length runnables. (idx, Some e) \<in> set (outcomes s)))"
proof -
  let ?n = "length runnables"
  let ?m = "if maxWorkers = 0 then ?n else min maxWorkers ?n"
  let ?f = "parallel_forFn runnables wrappers"
  have m: "0 < ?m \<or> ?n = 0" by auto
  obtain as s r where path: "path (\<lambda>s a t. forexec handle logError ctx ?f s a = Some t \<and> for_internal a) (For ?m ?n w) as s"
    and inv: "for_inv ?m ?n s" and wait: "group_Wait s = Some r"
    and call: "For_call sched handle logError ctx ?m ?n ?f w = (Ret r, forWorld s)"
    using For_call_returns [of handle logError ctx ?f ?m ?n w sched] by blast
  have "parallelWorkers \<lparr>par_name = name, maxParallelWorkers = maxWorkers, par_runnables = runnables,
      par_wrappers = wrappers\<rparr> = ?m"
    by (simp add: parallelWorkers_def Let_def min_def)
  with call have "Run (NewParallel sched handle logError name maxWorkers runnables wrappers) ctx w = (Ret r, forWorld s)"
    by (simp add: NewParallel_def parallel_Run_def)
  moreover from path have "path (by_exec (forexec handle logError ctx ?f)) (For ?m ?n w) as s"
    by (rule path_mono) (simp add: by_exec_def)
  ultimately show ?thesis using for_result_facts [OF inv m wait] by blast
qed

text \<open>
  With one parallel worker a parallel runnable is the plain loop over its runnables, whatever
  the schedule: same calls in the same order, all of them made, and the first error returned.
\<close>

theorem parallel_one_worker_sequential:
  assumes "runnables \<noteq> []"
  shows "Run (NewParallel sched handle logError name 1 runnables wrappers) ctx w =
    (case for_sequential handle logError ctx (parallel_forFn runnables wrappers) [0..<length runnables] None w of
       (err, v) \<Rightarrow> (Ret err, v))"
proof -
  let ?n = "length runnables"
  let ?f = "parallel_forFn runnables wrappers"
  have n: "0 < ?n" using assms by simp
  obtain as s r where s: "path (\<lambda>s a t. forexec handle logError ctx ?f s a = Some t \<and> for_internal a) (For 1 ?n w) as s"
    "group_Wait s = Some r" "For_call sched handle logError ctx 1 ?n ?f w = (Ret r, forWorld s)"
    using For_call_returns [of handle logError ctx ?f 1 ?n w sched] by blast
  have "for_sequential handle logError ctx ?f [0..<?n] None w = (r, forWorld s)"
    by (rule one_worker_result [OF ow.inv_path [OF s(1) one_worker_start [OF n]] s(2)])
  moreover have "parallelWorkers \<lparr>par_name = name, maxParallelWorkers = 1, par_runnables = runnables,
      par_wrappers = wrappers\<rparr> = 1"
    using n by (cases ?n) (simp_all add: parallelWorkers_def Let_def)
  ultimately show ?thesis using s(3) by (simp add: NewParallel_def parallel_Run_def)
qed

theorem parallel_one_worker_sequential_witness:
  "Run (NewParallel (\<lambda>_. 3) sample_handle sample_log ''both'' 1
      [\<lparr>Name = ''r0'', Run = \<lambda>ctx v. (Panic ''a'', v)\<rparr>, \<lparr>Name = ''r1'', Run = \<lambda>ctx v. (Ret None, v @ [''r1''])\<rparr>] []) () [] =
     (Ret (Some ''a''), [''a'', ''r1''])"
  by (subst parallel_one_worker_sequential)
    (simp_all add: parallel_forFn_def RunWithFatalLogging_def sample_handle_def upt_rec)

text \<open>
  A forever runnable with at least one runnable has returned only once the caller's context
  is done or one of the runnables returned or panicked, the others' context being cancelled by then,
  and its result is \<open>nil\<close>.
\<close>

theorem forever_runnable_result:
  assumes "path (by_exec (forever_exec handle logError child p)) (forever_start p parent w) as s"
    and "forever_runnables p \<noteq> []" and "forever_result s = Some res"
  shows "res = None \<and> childDone s
    \<and> (parentDone s \<or> (\<exists>idx < length (forever_runnables p). \<not> running_workers s ! idx))"
proof -
  let ?n = "length (forever_runnables p)"
  have "forever_inv ?n (forever_start p parent w)"
    by (rule forever_inv_init) (auto simp: forever_start_def forever_init_def)
  with assms(1) have inv: "forever_inv ?n s" unfolding forever_exec_def by (rule fv.inv_path)
  moreover have "foreverReturned s" and res: "res = None"
    using assms(3) by (auto simp: forever_result_def split: if_splits)
  ultimately have "childDone s" using assms(2) by (auto simp: forever_inv_def)
  with inv res show ?thesis by (auto simp: forever_inv_def in_set_conv_nth)
qed

section \<open>Timeouts\<close>

text \<open>
  The wrapped call returns the runnable's own result or the error of its expired context,
  nothing else; it never waits for longer than the context lives, since an expired context always
  enables its return; and the goroutine's send is never blocked, even after the caller left, so that
  it does not leak.
\<close>

theorem timeout_result:
  assumes "reach timeout_init (by_exec (texec child r)) s"
  shows "(tresult s = Some res \<longrightarrow> childOutcome s = Some (Ret res) \<or> (\<exists>e. res = Some e \<and> ctxErr s = Some e))
    \<and> (ctxErr s \<noteq> None \<and> tresult s = None \<and> tchild s \<noteq> ChildPanicked \<longrightarrow> texec child r s TCtx \<noteq> None)
    \<and> (tchild s = ChildSending err \<longrightarrow> texec child r s TSend \<noteq> None)"
proof -
  have "timeout_inv s" using assms by (rule tmo.inv_reach)
  then show ?thesis by (auto simp: timeout_inv_def texec.simps split: tchild.splits option.splits)
qed


section \<open>Loops\<close>

text \<open>
  Under \<open>WhileChanNotClosed\<close> the call returns exactly when, after some number of rounds
  that found the channel open and returned \<open>nil\<close>, either the channel is found closed (and the
  result is \<open>nil\<close>) or the runnable returns an error or panics (and that is the result); it runs
  forever when there is no such round.
\<close>

theorem while_chan_returns_iff:
  "(WhileChanNotClosed poll r ctx w = Some (out, v) \<longleftrightarrow>
     (\<exists>k u u'. rounds (while_body poll r ctx) k w = Some u
        \<and> (poll u = (True, v) \<and> out = Ret None
           \<or> poll u = (False, u') \<and> Run r ctx u' = (out, v) \<and> out \<noteq> Ret None)))
    \<and> (WhileChanNotClosed poll r ctx w = None \<longleftrightarrow> (\<forall>k. rounds (while_body poll r ctx) k w \<noteq> None))"
proof -
  have "while_body poll r ctx u = (Some out, v) \<longleftrightarrow>
      (\<exists>u'. poll u = (True, v) \<and> out = Ret None
         \<or> poll u = (False, u') \<and> Run r ctx u' = (out, v) \<and> out \<noteq> Ret None)" for u
    by (auto simp: while_body_def split: prod.splits bool.splits outcome.splits option.splits)
  then show ?thesis
    unfolding WhileChanNotClosed_def go_loop_iff go_loop_diverges by blast
qed


text \<open>
  \<open>Periodically\<close> with a positive interval returns exactly when, after some number of rounds that
  returned \<open>nil\<close> and were followed by a tick, the runnable returns an error or panics, or it
  returns \<open>nil\<close> and the channel is closed or the context done before the next tick.
\<close>

lemma periodically_returns_iff:
  assumes "0 < interval"
  shows "(Periodically tickerPanic interval await r ctx w = Some (out, v) \<longleftrightarrow>
     (\<exists>k u u'. rounds (periodic_body (await interval ctx) r ctx) k w = Some u
        \<and> (Run r ctx u = (out, v) \<and> out \<noteq> Ret None
           \<or> Run r ctx u = (Ret None, u') \<and>
               (await interval ctx u' = (Stopped, v) \<and> out = Ret None
                \<or> (\<exists>e. await interval ctx u' = (CtxDone e, v) \<and> out = Ret (Some e))))))
    \<and> (Periodically tickerPanic interval await r ctx w = None
         \<longleftrightarrow> (\<forall>k. rounds (periodic_body (await interval ctx) r ctx) k w \<noteq> None))"
proof -
  have "periodic_body (await interval ctx) r ctx u = (Some out, v) \<longleftrightarrow>
      (\<exists>u'. Run r ctx u = (out, v) \<and> out \<noteq> Ret None
         \<or> Run r ctx u = (Ret None, u') \<and>
             (await interval ctx u' = (Stopped, v) \<and> out = Ret None
              \<or> (\<exists>e. await interval ctx u' = (CtxDone e, v) \<and> out = Ret (Some e))))" for u
    by (auto simp: periodic_body_def split: prod.splits wake.splits outcome.splits option.splits)
  with assms show ?thesis
    unfolding Periodically_def by (simp add: go_loop_iff go_loop_diverges)
qed

section \<open>Runs on concrete inputs\<close>

text \<open>\<open>boom_runnable\<close> panics, \<open>ok_runnable\<close> writes its name to the world.\<close>

definition boom_runnable :: "(unit, string list, string, string) NamedRunnable" where
  "boom_runnable = \<lparr>Name = ''boom'', Run = \<lambda>ctx v. (Panic ''a'', v)\<rparr>"

definition ok_runnable :: "(unit, string list, string, string) NamedRunnable" where
  "ok_runnable = \<lparr>Name = ''ok'', Run = \<lambda>ctx v. (Ret None, v @ [''ok''])\<rparr>"

theorem sequential_first_error_witness:
  "\<exists>k < length [ok_runnable, boom_runnable, ok_runnable].
     \<exists>u. all_nil [] (take k [ok_runnable, boom_runnable, ok_runnable]) () [] = Some u
       \<and> Run (WithWrappers [] ([ok_runnable, boom_runnable, ok_runnable] ! k)) () u = (Panic ''a'', [''ok''])"
proof -
  have "Run (NewSequential ''all'' [ok_runnable, boom_runnable, ok_runnable] []) () [] = (Panic ''a'', [''ok''])"
    by (simp add: NewSequential_def sequential_Run_def ok_runnable_def boom_runnable_def go_bind_def)
  then show ?thesis unfolding sequential_first_error by simp
qed

theorem parallel_runs_all_witness:
  "\<exists>as s. path (by_exec (forexec sample_handle sample_log () (parallel_forFn [ok_runnable, boom_runnable] [])))
        (For 2 2 []) as s
     \<and> mset (map fst (outcomes s)) = mset [0..<2] \<and> (\<exists>idx < 2. (idx, Some ''a'') \<in> set (outcomes s))"
proof -
  have r: "fst (Run (NewParallel (\<lambda>_. 0) sample_handle sample_log ''p'' 0 [ok_runnable, boom_runnable] []) () [])
      = Ret (Some ''a'')"
    by (simp add: NewParallel_def parallel_Run_def parallelWorkers_def For_call_def Let_def numeral_2_eq_2
        active_def worker_step_def for_eval parallel_forFn_def ok_runnable_def boom_runnable_def)
  show ?thesis
    using parallel_runs_all [of "\<lambda>_. 0" sample_handle sample_log "''p''" 0 "[ok_runnable, boom_runnable]" "[]" "()" "[]"] r
    by (auto simp: numeral_2_eq_2)
qed

theorem forever_runnable_result_witness:
  "\<exists>s. path (by_exec (forever_exec sample_handle sample_log (\<lambda>_. ()) (NewForever ''f'' [boom_runnable, ok_runnable] [])))
        (forever_start (NewForever ''f'' [boom_runnable, ok_runnable] []) False []) [VCall 0, VReturn] s
     \<and> forever_result s = Some (None :: string option) \<and> childDone s"
proof -
  let ?p = "NewForever ''f'' [boom_runnable, ok_runnable] []"
  let ?run = "run (forever_exec sample_handle sample_log (\<lambda>_. ()) ?p) (forever_start ?p False []) [VCall 0, VReturn]"
  have "\<exists>s. ?run = Some s \<and> foreverReturned s"
    by (simp add: forever_exec_def forever_start_def NewForever_def Forever_def vexec.simps forever_call_def
        for_eval parallel_forFn_def boom_runnable_def)
  then obtain s where s: "?run = Some s" "foreverReturned s" by blast
  have path: "path (by_exec (forever_exec sample_handle sample_log (\<lambda>_. ()) ?p)) (forever_start ?p False [])
      [VCall 0, VReturn] s"
    by (rule path_run [OF s(1)])
  have res: "forever_result s = Some (None :: string option)" using s(2) by (simp add: forever_result_def)
  from forever_runnable_result [OF path _ res] have "childDone s" by (simp add: NewForever_def)
  with path res show ?thesis by blast
qed

theorem timeout_result_witness:
  "\<exists>s :: (string list, string, string) timeoutsys.
     reach timeout_init (by_exec (texec (\<lambda>_. ()) ok_runnable)) s \<and> tresult s = Some (Some ''deadline'')
     \<and> ctxErr s = Some ''deadline'' \<and> tchild s = ChildSending None \<and> texec (\<lambda>_. ()) ok_runnable s TSend \<noteq> None"
proof -
  let ?run = "run (texec (\<lambda>_. ()) ok_runnable) (WithTimeout []) [TExpire ''deadline'', TCtx, TRun]"
  have "\<exists>s. ?run = Some s \<and> tresult s = Some (Some ''deadline'') \<and> ctxErr s = Some ''deadline''
      \<and> tchild s = ChildSending None"
    by (simp add: texec.simps WithTimeout_def timeout_run_def ok_runnable_def)
  then obtain s where s: "?run = Some s" "tresult s = Some (Some ''deadline'')" "ctxErr s = Some ''deadline''"
    "tchild s = ChildSending None" by blast
  have "reach timeout_init (by_exec (texec (\<lambda>_. ()) ok_runnable)) s"
    by (rule run_reach [OF _ s(1)]) (auto simp: timeout_init_def)
  from this timeout_result [OF this, of "Some ''deadline''" None] s show ?thesis by blast
qed


end
