(* ===== verification/Panic_Recovery.thy ===== *)
theory Panic_Recovery
  imports Prelude
begin

text \<open>
  \<open>handleRecovered\<close> of \<open>wlog/wapp/fatal.go\<close>, which the three wrappers of \<open>Prelude\<close> take as
  their argument \<open>handle\<close>: it parses the stack, removes the frames of \<open>debug.Stack\<close> and of the
  wrapper itself, logs the panic and builds the error the wrapper returns. The records are those of
  the logging API. The loggers, the parser and printer of goroutine dumps and the error constructors are
  fields of \<open>recovery_env\<close>; Go's slice accesses are values of \<open>option\<close> (\<open>None\<close>: out of
  range).
\<close>

record 'v StackFrameV1 =
  Address :: "string option"
  Procedure :: "string option"
  File :: "string option"
  Line :: "int option"
  frameParams :: 'v

record 'v ThreadInfoV1 =
  threadId :: "int option"
  threadName :: "string option"
  StackTrace :: "'v StackFrameV1 list"
  threadParams :: 'v

record 'v ThreadDumpV1 =
  Threads :: "'v ThreadInfoV1 list"

record ('ctx, 'p, 'stack, 'v, 'e, 'params, 'w) recovery_env =
  debugStack :: "'w \<Rightarrow> 'stack"
  ThreadDumpV1FromGoroutines :: "'stack \<Rightarrow> 'v ThreadDumpV1"
  ThreadDumpV1ToGoroutines :: "'v ThreadDumpV1 \<Rightarrow> 'stack"
  asError :: "'p \<Rightarrow> 'e option"       \<comment> \<open>the type assertion \<open>r.(error)\<close>\<close>
  ParamsFromError :: "'e \<Rightarrow> 'params"
  logRecoveredError :: "'ctx \<Rightarrow> 'v ThreadDumpV1 \<Rightarrow> 'params \<Rightarrow> 'e \<Rightarrow> 'stack \<Rightarrow> 'w \<Rightarrow> 'w"
  logRecovered :: "'ctx \<Rightarrow> 'v ThreadDumpV1 \<Rightarrow> 'p \<Rightarrow> 'stack \<Rightarrow> 'w \<Rightarrow> 'w"
  WrapWithContextParams :: "'ctx \<Rightarrow> 'e \<Rightarrow> string \<Rightarrow> 'v ThreadDumpV1 \<Rightarrow> 'e"
  ErrorWithContextParams :: "'ctx \<Rightarrow> string \<Rightarrow> 'v ThreadDumpV1 \<Rightarrow> 'p \<Rightarrow> 'e"
  logEvent :: "'ctx \<Rightarrow> string \<Rightarrow> 'v ThreadDumpV1 \<Rightarrow> 'p \<Rightarrow> 'w \<Rightarrow> 'w"

section \<open>Trimming the stack\<close>

definition HasSuffix :: "string \<Rightarrow> string \<Rightarrow> bool" where
  "HasSuffix s suffix \<longleftrightarrow>
     length suffix \<le> length s \<and> drop (length s - length suffix) s = suffix"

definition slice_nth :: "'a list \<Rightarrow> nat \<Rightarrow> 'a option" where
  "slice_nth xs i = (if i < length xs then Some (xs ! i) else None)"

definition slice_from :: "nat \<Rightarrow> 'a list \<Rightarrow> 'a list option" where
  "slice_from i xs = (if i \<le> length xs then Some (drop i xs) else None)"

definition in_file :: "string \<Rightarrow> 'v StackFrameV1 \<Rightarrow> bool" where
  "in_file suffix frame \<longleftrightarrow> (case File frame of None \<Rightarrow> False | Some file \<Rightarrow> HasSuffix file suffix)"

text \<open>\<open>if frame := trace[0]; frame.File != nil && HasSuffix(...) { trace = trace[1:] }\<close>\<close>

definition drop_frame :: "string \<Rightarrow> 'v StackFrameV1 list \<Rightarrow> 'v StackFrameV1 list option" where
  "drop_frame suffix trace =
     (case slice_nth trace 0 of
        None \<Rightarrow> None
      | Some frame \<Rightarrow> if in_file suffix frame then slice_from 1 trace else Some trace)"

definition trim_frames :: "'v StackFrameV1 list \<Rightarrow> 'v StackFrameV1 list option" where
  "trim_frames trace =
     (case drop_frame ''runtime/debug/stack.go'' trace of
        None \<Rightarrow> None
      | Some trace' \<Rightarrow> drop_frame ''wapp/fatal.go'' trace')"

definition trim_dump :: "'v ThreadDumpV1 \<Rightarrow> 'v ThreadDumpV1 option" where
  "trim_dump stacktrace =
     (if length (Threads stacktrace) > 0 \<and> length (StackTrace (Threads stacktrace ! 0)) > 2
      then (let thread = Threads stacktrace ! 0 in
        case trim_frames (StackTrace thread) of
          None \<Rightarrow> None
        | Some trace \<Rightarrow>
            Some (stacktrace\<lparr>Threads := (Threads stacktrace)[0 := thread\<lparr>StackTrace := trace\<rparr>]\<rparr>))
      else Some stacktrace)"

section \<open>The handler\<close>

text \<open>\<open>None\<close>: the handler itself panics on a slice index.\<close>

definition handleRecovered ::
  "('ctx, 'p, 'stack, 'v, 'e, 'params, 'w) recovery_env \<Rightarrow> 'ctx \<Rightarrow> 'p \<Rightarrow> 'stack \<Rightarrow> 'w \<Rightarrow> ('e \<times> 'w) option" where
  "handleRecovered env ctx r stack w =
     (case trim_dump (ThreadDumpV1FromGoroutines env stack) of
        None \<Rightarrow> None
      | Some stacktrace \<Rightarrow>
          (let goroutines = ThreadDumpV1ToGoroutines env stacktrace;
               (retErr, w') =
                 (case asError env r of
                    Some err \<Rightarrow>
                      (WrapWithContextParams env ctx err ''panic recovered'' stacktrace,
                       logRecoveredError env ctx stacktrace (ParamsFromError env err) err goroutines w)
                  | None \<Rightarrow>
                      (ErrorWithContextParams env ctx ''panic recovered'' stacktrace r,
                       logRecovered env ctx stacktrace r goroutines w))
           in Some (retErr, logEvent env ctx ''wapp.panic_recovered'' stacktrace r w')))"

text \<open>What the wrappers call: \<open>handleRecovered(ctx, r, debug.Stack())\<close>.\<close>

definition recovery_handler ::
  "('ctx, 'p, 'stack, 'v, 'e, 'params, 'w) recovery_env \<Rightarrow> 'ctx \<Rightarrow> 'p \<Rightarrow> 'w \<Rightarrow> 'e \<times> 'w" where
  "recovery_handler env ctx r w = the (handleRecovered env ctx r (debugStack env w) w)"

section \<open>The handler never fails\<close>

text \<open>The file of a frame ends with one of the two names at most.\<close>

lemma HasSuffix_append: "HasSuffix s suffix \<longleftrightarrow> (\<exists>pre. s = pre @ suffix)"
proof
  assume "HasSuffix s suffix"
  then have "s = take (length s - length suffix) s @ suffix"
    by (metis HasSuffix_def append_take_drop_id)
  then show "\<exists>pre. s = pre @ suffix" by blast
qed (auto simp: HasSuffix_def)

lemma drop_frame_Cons:
  "drop_frame suffix (frame # trace) = Some (if in_file suffix frame then trace else frame # trace)"
  by (simp add: drop_frame_def slice_nth_def slice_from_def)

lemma trim_frames_long:
  "trim_frames (f1 # f2 # trace) =
     Some (if in_file ''runtime/debug/stack.go'' f1
           then (if in_file ''wapp/fatal.go'' f2 then trace else f2 # trace)
           else (if in_file ''wapp/fatal.go'' f1 then f2 # trace else f1 # f2 # trace))"
  by (simp add: trim_frames_def drop_frame_Cons)

abbreviation wapp_frame :: "'v StackFrameV1 \<Rightarrow> bool" where
  "wapp_frame frame \<equiv> in_file ''runtime/debug/stack.go'' frame \<or> in_file ''wapp/fatal.go'' frame"

text \<open>At most two frames go, from the top, each because of its file.\<close>

lemma trim_frames_drops:
  assumes "length xs > 2"
  shows "\<exists>n \<le> 2. trim_frames xs = Some (drop n xs) \<and> (\<forall>frame \<in> set (take n xs). wapp_frame frame)"
proof -
  from assms obtain f1 f2 trace where xs: "xs = f1 # f2 # trace"
    by (cases xs rule: list.exhaust; cases "tl xs") auto
  define n :: nat where "n = (if in_file ''runtime/debug/stack.go'' f1
      then if in_file ''wapp/fatal.go'' f2 then 2 else 1
      else if in_file ''wapp/fatal.go'' f1 then 1 else 0)"
  have "n \<le> 2" by (simp add: n_def)
  moreover have "trim_frames xs = Some (drop n xs)" "\<forall>frame \<in> set (take n xs). wapp_frame frame"
    by (simp_all add: n_def xs trim_frames_long)
  ultimately show ?thesis by blast
qed

lemma trim_dump_drops:
  "\<exists>d. trim_dump stacktrace = Some d \<and> tl (Threads d) = tl (Threads stacktrace)
     \<and> (\<forall>thread rest. Threads stacktrace = thread # rest \<longrightarrow>
          (\<exists>n \<le> 2. StackTrace (hd (Threads d)) = drop n (StackTrace thread)
            \<and> (\<forall>frame \<in> set (take n (StackTrace thread)). wapp_frame frame)))"
proof (cases "length (Threads stacktrace) > 0 \<and> length (StackTrace (Threads stacktrace ! 0)) > 2")
  case True
  then obtain thread rest where th: "Threads stacktrace = thread # rest" by (cases "Threads stacktrace") auto
  with True trim_frames_drops [of "StackTrace thread"] obtain n where "n \<le> 2"
    "trim_frames (StackTrace thread) = Some (drop n (StackTrace thread))"
    "\<forall>frame \<in> set (take n (StackTrace thread)). wapp_frame frame" by auto
  with True th show ?thesis by (auto simp: trim_dump_def Let_def)
next
  case False
  then show ?thesis by (auto simp: trim_dump_def intro!: exI [of _ 0])
qed

section \<open>Property\<close>

text \<open>
  Claim C28: a recovered panic is always reported. On every stack dump the handler stays within the
  slices it indexes (its guard asks for three frames and it removes two at most: the frame of
  \<open>debug.Stack\<close> and the frame of the wrapper, nothing else), it logs the panic, then the event, and
  the wrapper returns a non-nil error, which wraps the panic's value when that is an error.
\<close>

theorem recovered_panic_reported:
  assumes "runFn ctx w = (Panic r, w1)"
  shows "\<exists>stacktrace. trim_dump (ThreadDumpV1FromGoroutines env (debugStack env w1)) = Some stacktrace
    \<and> tl (Threads stacktrace) = tl (Threads (ThreadDumpV1FromGoroutines env (debugStack env w1)))
    \<and> (\<forall>thread rest. Threads (ThreadDumpV1FromGoroutines env (debugStack env w1)) = thread # rest \<longrightarrow>
        (\<exists>n \<le> 2. StackTrace (hd (Threads stacktrace)) = drop n (StackTrace thread)
          \<and> (\<forall>frame \<in> set (take n (StackTrace thread)).
              in_file ''runtime/debug/stack.go'' frame \<or> in_file ''wapp/fatal.go'' frame)))
    \<and> (let goroutines = ThreadDumpV1ToGoroutines env stacktrace in
       RunWithRecoveryLoggingWithError (recovery_handler env) ctx runFn w =
        (case asError env r of
           Some err \<Rightarrow>
             (Ret (Some (WrapWithContextParams env ctx err ''panic recovered'' stacktrace)),
              logEvent env ctx ''wapp.panic_recovered'' stacktrace r
                (logRecoveredError env ctx stacktrace (ParamsFromError env err) err goroutines w1))
         | None \<Rightarrow>
             (Ret (Some (ErrorWithContextParams env ctx ''panic recovered'' stacktrace r)),
              logEvent env ctx ''wapp.panic_recovered'' stacktrace r
                (logRecovered env ctx stacktrace r goroutines w1))))"
proof -
  obtain d where d: "trim_dump (ThreadDumpV1FromGoroutines env (debugStack env w1)) = Some d"
    and drops: "tl (Threads d) = tl (Threads (ThreadDumpV1FromGoroutines env (debugStack env w1)))"
    "\<forall>thread rest. Threads (ThreadDumpV1FromGoroutines env (debugStack env w1)) = thread # rest \<longrightarrow>
        (\<exists>n \<le> 2. StackTrace (hd (Threads d)) = drop n (StackTrace thread)
          \<and> (\<forall>frame \<in> set (take n (StackTrace thread)). wapp_frame frame))"
    using trim_dump_drops [of "ThreadDumpV1FromGoroutines env (debugStack env w1)"] by blast
  show ?thesis
    by (rule exI [of _ d], intro conjI d drops)
      (simp add: RunWithRecoveryLoggingWithError_def assms recovery_handler_def handleRecovered_def d
        Let_def split: option.split)
qed

text \<open>A panicking call whose stack has the two frames on top and whose panic value is an error.\<close>

definition sample_frame :: "string \<Rightarrow> unit StackFrameV1" where
  "sample_frame file = \<lparr>Address = None, Procedure = None, File = Some file, Line = None, frameParams = ()\<rparr>"

definition sample_env :: "(unit, string, string list, unit, string, unit, string list) recovery_env" where
  "sample_env = \<lparr>
     debugStack = (\<lambda>w. [''/go/runtime/debug/stack.go'', ''/v/wapp/fatal.go'', ''/app/main.go'']),
     ThreadDumpV1FromGoroutines = (\<lambda>s. \<lparr>Threads = [\<lparr>threadId = None, threadName = None,
        StackTrace = map sample_frame s, threadParams = ()\<rparr>]\<rparr>),
     ThreadDumpV1ToGoroutines = (\<lambda>d. []), asError = Some, ParamsFromError = (\<lambda>_. ()),
     logRecoveredError = (\<lambda>_ d _ e _ w. w @ [e]), logRecovered = (\<lambda>_ d _ _ w. w),
     WrapWithContextParams = (\<lambda>_ e m _. m @ '': '' @ e), ErrorWithContextParams = (\<lambda>_ m _ _. m),
     logEvent = (\<lambda>_ m _ _ w. w @ [m])\<rparr>"

theorem recovered_panic_reported_witness:
  "\<exists>res :: (string option, unit) outcome \<times> string list.
     res = RunWithRecoveryLoggingWithError (recovery_handler sample_env) () (\<lambda>_ w. (Panic ''boom'', w)) []
     \<and> res = (Ret (Some ''panic recovered: boom''), [''boom'', ''wapp.panic_recovered''])"
  using recovered_panic_reported [of "\<lambda>_ w. (Panic ''boom'', w)" "()" "[]" "''boom''" "[]" sample_env]
  by (auto simp: sample_env_def Let_def)

end
