(* ===== verification/Item_Submitter.thy ===== *)
theory Item_Submitter
  imports Delayed_Queue
begin

text \<open>
  The item submitter of \<open>executor/item_submitter.go\<close>: options, the goroutine that pulls items from
  the collapsing queue, and the completion callback that reports, releases, retries or drops an item.
  The machine keeps the queue of \<open>Delayed_Queue\<close>, the program point of the pulling goroutine and
  the stage of every task handed to the consumer pool. The pool runs a task when it likes; what the
  consumer returns, and whether it or the error logger panics, is the environment's choice. A task
  whose consumer panics skips its callback (\<open>panic_skips_callback\<close> in \<open>Pool_Wrappers\<close>). Each stage of a
  callback makes one call on the queue, so that tasks interleave between any two of them. Metrics,
  tracing and log parameters are left out.
\<close>

section \<open>Configuration\<close>

record ('ctx, 'w, 'e, 'p, 'tag) ItemSubmitterConfig =
  maxNumRequeues :: int
  unlimitedRetries :: bool
  logError :: "'ctx \<Rightarrow> 'e \<Rightarrow> 'w \<Rightarrow> (unit, 'p) outcome \<times> 'w"
  itemSubmitterName :: string
  additionalMetricTags :: "'tag list"

type_synonym ('ctx, 'w, 'e, 'p, 'tag) ItemSubmitterOption =
  "('ctx, 'w, 'e, 'p, 'tag) ItemSubmitterConfig \<Rightarrow> ('ctx, 'w, 'e, 'p, 'tag) ItemSubmitterConfig"

definition WithMaxNumRequeues :: "int \<Rightarrow> ('ctx, 'w, 'e, 'p, 'tag) ItemSubmitterOption" where
  "WithMaxNumRequeues n c = c\<lparr>maxNumRequeues := n, unlimitedRetries := False\<rparr>"

definition WithUnlimitedRetries :: "('ctx, 'w, 'e, 'p, 'tag) ItemSubmitterOption" where
  "WithUnlimitedRetries c = c\<lparr>unlimitedRetries := True\<rparr>"

definition WithErrorLogger ::
  "('ctx \<Rightarrow> 'e \<Rightarrow> 'w \<Rightarrow> (unit, 'p) outcome \<times> 'w) option \<Rightarrow> ('ctx, 'w, 'e, 'p, 'tag) ItemSubmitterOption" where
  "WithErrorLogger errorLogger c =
     (case errorLogger of None \<Rightarrow> c | Some f \<Rightarrow> c\<lparr>logError := f\<rparr>)"

definition WithItemSubmitterName :: "string \<Rightarrow> ('ctx, 'w, 'e, 'p, 'tag) ItemSubmitterOption" where
  "WithItemSubmitterName name c = c\<lparr>itemSubmitterName := name\<rparr>"

text \<open>\<open>svcLog\<close> is the default logger, \<open>newTag\<close> is \<open>metrics.NewTag\<close> (\<open>None\<close>: an error).\<close>

definition submitter_config ::
  "('ctx \<Rightarrow> 'e \<Rightarrow> 'w \<Rightarrow> (unit, 'p) outcome \<times> 'w) \<Rightarrow> (string \<Rightarrow> string \<Rightarrow> 'tag option)
     \<Rightarrow> ('ctx, 'w, 'e, 'p, 'tag) ItemSubmitterOption list \<Rightarrow> ('ctx, 'w, 'e, 'p, 'tag) ItemSubmitterConfig" where
  "submitter_config svcLog newTag options =
     (let config = fold (\<lambda>option config. option config) options
            \<lparr>maxNumRequeues = 5, unlimitedRetries = False, logError = svcLog,
             itemSubmitterName = '''', additionalMetricTags = []\<rparr>
      in if itemSubmitterName config \<noteq> ''''
         then (case newTag ''itemsubmittername'' (itemSubmitterName config) of
             Some tag \<Rightarrow> config\<lparr>additionalMetricTags := [tag]\<rparr>
           | None \<Rightarrow> config)
         else config)"

section \<open>The completion callback\<close>

text \<open>
  \<open>gives_up\<close> is the test of \<open>handleProcessError\<close>; \<open>on_complete\<close> is the effect of the whole
  callback on the queue when nothing comes in between (\<open>t0\<close> is the clock reading of
  \<open>AddAfter\<close>).
\<close>

definition gives_up :: "('ctx, 'w, 'e, 'p, 'tag) ItemSubmitterConfig \<Rightarrow> int \<Rightarrow> bool" where
  "gives_up config numRequeues \<longleftrightarrow>
     \<not> unlimitedRetries config \<and> numRequeues \<ge> maxNumRequeues config"

definition handleProcessError ::
  "(float64 \<Rightarrow> int) \<Rightarrow> ('ctx, 'w, 'e, 'p, 'tag) ItemSubmitterConfig \<Rightarrow> 'a \<Rightarrow> int \<Rightarrow> 'a dq \<Rightarrow> 'a dq" where
  "handleProcessError impl config element t0 q =
     (let numRequeues = NumRequeues element q
      in if gives_up config numRequeues then ResetRateLimit element q
         else snd (AddRateLimited impl element t0 q))"

definition on_complete ::
  "(float64 \<Rightarrow> int) \<Rightarrow> ('ctx, 'w, 'e, 'p, 'tag) ItemSubmitterConfig \<Rightarrow> 'a \<Rightarrow> 'e option \<Rightarrow> int \<Rightarrow> 'a dq \<Rightarrow> 'a dq" where
  "on_complete impl config element err t0 q =
     (let q' = snd (cq_Done element q)
      in case err of
           Some _ \<Rightarrow> handleProcessError impl config element t0 q'
         | None \<Rightarrow> ResetRateLimit element q')"

section \<open>The machine\<close>

datatype 'a puller = Pulling | Submitting 'a | PullerStopped

datatype ('a, 'e) stage =
    Waiting 'a                 \<comment> \<open>handed to the pool, its consumer has not ended\<close>
  | Returned 'a "'e option"    \<comment> \<open>the consumer returned; the callback is about to report\<close>
  | Reported 'a "'e option"    \<comment> \<open>about to call \<open>queue.Done\<close>\<close>
  | Handling 'a 'e             \<comment> \<open>about to read \<open>NumRequeues\<close>\<close>
  | Logging 'a int             \<comment> \<open>about to log; \<open>numRequeues\<close>\<close>
  | Resetting 'a
  | Requeuing 'a               \<comment> \<open>\<open>AddRateLimited\<close>, about to ask the limiter\<close>
  | Delaying 'a int            \<comment> \<open>about to call \<open>AddAfter\<close>\<close>
  | Ended
  | Aborted                    \<comment> \<open>the error logger panicked\<close>
  | Lost 'a                    \<comment> \<open>the consumer panicked\<close>

record ('a, 'e) submitter =
  sq :: "'a dq"
  puller :: "'a puller"
  tasks :: "('a, 'e) stage list"
  reports :: "('a \<times> 'e option) list"

definition NewDefaultItemSubmitter :: "('a, 'e) submitter" where
  "NewDefaultItemSubmitter = \<lparr>sq = New_dq, puller = Pulling, tasks = [], reports = []\<rparr>"

definition Submit :: "'a \<Rightarrow> ('a, 'e) submitter \<Rightarrow> ('a, 'e) submitter" where
  "Submit element s = s\<lparr>sq := snd (cq_Add element (sq s))\<rparr>"

definition SubmitAfter :: "'a \<Rightarrow> int \<Rightarrow> int \<Rightarrow> ('a, 'e) submitter \<Rightarrow> ('a, 'e) submitter" where
  "SubmitAfter element delay t0 s = s\<lparr>sq := snd (AddAfter element delay t0 (sq s))\<rparr>"

text \<open>\<open>startPullingFromQueue\<close>: \<open>Get\<close>, then \<open>singleProcessAttempt\<close>. \<open>None\<close>: \<open>Get\<close> waits.\<close>

definition pull :: "('a, 'e) submitter \<Rightarrow> ('a, 'e) submitter option" where
  "pull s =
     (case puller s of
        Pulling \<Rightarrow>
          (case cq_Get (sq s) of
             (Item element, q) \<Rightarrow> Some (s\<lparr>sq := q, puller := Submitting element\<rparr>)
           | (ShutDownSeen, q) \<Rightarrow> Some (s\<lparr>puller := PullerStopped\<rparr>)
           | (_, q) \<Rightarrow> None)
      | Submitting element \<Rightarrow> Some (s\<lparr>puller := Pulling, tasks := tasks s @ [Waiting element]\<rparr>)
      | PullerStopped \<Rightarrow> None)"

datatype 'e choice = ConsumerReturns "'e option" | ConsumerPanics | LoggerReturns | LoggerPanics | ReadClock int | GoOn

text \<open>The next stage of task \<open>i\<close>.\<close>

definition callback_step ::
  "(float64 \<Rightarrow> int) \<Rightarrow> ('ctx, 'w, 'e, 'p, 'tag) ItemSubmitterConfig \<Rightarrow> nat \<Rightarrow> 'e choice
     \<Rightarrow> ('a, 'e) submitter \<Rightarrow> ('a, 'e) submitter option" where
  "callback_step impl config i ch s =
     (let next = (\<lambda>st q. Some (s\<lparr>sq := q, tasks := (tasks s)[i := st]\<rparr>)); q = sq s in
      case (tasks s ! i, ch) of
        (Waiting x, ConsumerReturns err) \<Rightarrow> next (Returned x err) q
      | (Waiting x, ConsumerPanics) \<Rightarrow> next (Lost x) q
      | (Returned x err, GoOn) \<Rightarrow>
          Some (s\<lparr>tasks := (tasks s)[i := Reported x err], reports := reports s @ [(x, err)]\<rparr>)
      | (Reported x err, GoOn) \<Rightarrow>
          next (case err of Some e \<Rightarrow> Handling x e | None \<Rightarrow> Resetting x) (snd (cq_Done x q))
      | (Handling x e, GoOn) \<Rightarrow> next (Logging x (NumRequeues x q)) q
      | (Logging x n, LoggerReturns) \<Rightarrow> next (if gives_up config n then Resetting x else Requeuing x) q
      | (Logging x n, LoggerPanics) \<Rightarrow> next Aborted q
      | (Resetting x, GoOn) \<Rightarrow> next Ended (ResetRateLimit x q)
      | (Requeuing x, GoOn) \<Rightarrow> (case dq_When impl x q of (delay, q') \<Rightarrow> next (Delaying x delay) q')
      | (Delaying x delay, ReadClock t0) \<Rightarrow>
          (if t0 \<le> clock q then next Ended (snd (AddAfter x delay t0 q)) else None)
      | _ \<Rightarrow> None)"

datatype ('a, 'e) sact =
    SubmitItem 'a | SubmitItemAfter 'a int int | Pull | Task nat "'e choice"
  | QueueTimer "'a dact" | ContextDone "'a list"

fun timer_action :: "'a dact \<Rightarrow> bool" where
  "timer_action (ActTick d) = True"
| "timer_action (ActFire e) = True"
| "timer_action (ActCallbackLock e) = True"
| "timer_action (ActCallbackAdd e) = True"
| "timer_action (ActCallbackLeave e) = True"
| "timer_action _ = False"

fun sexec ::
  "(float64 \<Rightarrow> int) \<Rightarrow> ('ctx, 'w, 'e, 'p, 'tag) ItemSubmitterConfig
     \<Rightarrow> ('a, 'e) submitter \<Rightarrow> ('a, 'e) sact \<Rightarrow> ('a, 'e) submitter option" where
  "sexec impl config s (SubmitItem x) = Some (Submit x s)"
| "sexec impl config s (SubmitItemAfter x delay t0) =
     (if t0 \<le> clock (sq s) then Some (SubmitAfter x delay t0 s) else None)"
| "sexec impl config s Pull = pull s"
| "sexec impl config s (Task i ch) =
     (if i < length (tasks s) then callback_step impl config i ch s else None)"
| "sexec impl config s (QueueTimer a) =
     (if timer_action a then map_option (\<lambda>q. s\<lparr>sq := q\<rparr>) (dexec impl (sq s) a) else None)"
| "sexec impl config s (ContextDone order) =
     map_option (\<lambda>q. s\<lparr>sq := q\<rparr>) (dexec impl (sq s) (ActShutDown order))"

declare sexec.simps [simp del]

definition sinit :: "('a, 'e) submitter \<Rightarrow> bool" where
  "sinit s \<longleftrightarrow> s = NewDefaultItemSubmitter"

section \<open>Who holds an item\<close>

fun held :: "('a, 'e) stage \<Rightarrow> 'a list" where
  "held (Waiting x) = [x]"
| "held (Returned x _) = [x]"
| "held (Reported x _) = [x]"
| "held (Lost x) = [x]"
| "held _ = []"

fun pulled :: "'a puller \<Rightarrow> 'a list" where
  "pulled (Submitting x) = [x]"
| "pulled _ = []"

definition holding :: "('a, 'e) submitter \<Rightarrow> 'a list" where
  "holding s = pulled (puller s) @ concat (map held (tasks s))"

definition sub_inv :: "('a, 'e) submitter \<Rightarrow> bool" where
  "sub_inv s \<longleftrightarrow> distinct (holding s) \<and> set (holding s) = fset (processing (sq s))"


lemma processing_frame [simp]:
  "processing (set_timer e st q) = processing q" "processing (wg_add n q) = processing q"
  "processing (stop_timer e q) = processing q" "processing (start_entry x r d q) = processing q"
  "processing (ResetRateLimit x q) = processing q" "processing (snd (dq_When impl x q)) = processing q"
  by (simp_all add: set_timer_def wg_add_def stop_timer_def start_entry_def ResetRateLimit_def
      snd_dq_When Let_def)

lemma processing_AddAfter [simp]: "processing (snd (AddAfter x d t0 q)) = processing q"
  by (simp add: AddAfter_def AddAfter_locked_def Let_def split: option.split)

lemma processing_cancel [simp]: "processing (cancel_loop order q) = processing q"
  by (induction order q rule: cancel_loop.induct) (simp_all split: option.split)

lemma dexec_timer_processing:
  "dexec impl q a = Some q' \<Longrightarrow> timer_action a \<Longrightarrow> processing q' = processing q"
  by (cases a)
    (auto simp: callback_locked_def callback_leave_def snd_callback_add Let_def split: if_splits)

lemma dexec_shutdown_processing:
  "dexec impl q (ActShutDown order) = Some q' \<Longrightarrow> processing q' = processing q"
  by (auto simp: dq_ShutDown_def cq_ShutDown_def cancelDelayedEntries_def split: if_splits)

lemma concat_held_update:
  "i < length ts \<Longrightarrow> mset (concat (map held (ts[i := st]))) + mset (held (ts ! i)) =
     mset (concat (map held ts)) + mset (held st)"
  by (rule mset_concat_map_update)

text \<open>The invariant as an equation of multisets, which is what a step changes.\<close>

lemma sub_inv_mset: "sub_inv s \<longleftrightarrow> mset (holding s) = mset_set (fset (processing (sq s)))"
proof
  assume "sub_inv s"
  then show "mset (holding s) = mset_set (fset (processing (sq s)))"
    by (metis mset_set_set sub_inv_def)
next
  assume eq: "mset (holding s) = mset_set (fset (processing (sq s)))"
  then have set: "set (holding s) = fset (processing (sq s))"
    using mset_eq_setD by (metis finite_fset finite_set_mset_mset_set set_mset_mset)
  with eq have "length (holding s) = card (set (holding s))" by (metis size_mset size_mset_set)
  with set show "sub_inv s" by (simp add: sub_inv_def card_distinct)
qed

lemma held_task:
  "sub_inv s \<Longrightarrow> i < length (tasks s) \<Longrightarrow> x \<in> set (held (tasks s ! i)) \<Longrightarrow> x |\<in>| processing (sq s)"
  unfolding sub_inv_def holding_def by (force simp: in_set_conv_nth)


lemma holding_task:
  assumes "i < length (tasks s)"
  shows "mset (holding (s\<lparr>tasks := (tasks s)[i := st]\<rparr>)) + mset (held (tasks s ! i)) =
    mset (holding s) + mset (held st)"
  using concat_held_update [OF assms, of st] by (simp add: holding_def)

lemma holding_other [simp]:
  "holding (s\<lparr>sq := q\<rparr>) = holding s" "holding (s\<lparr>reports := r\<rparr>) = holding s"
  by (simp_all add: holding_def)

text \<open>A stage that holds what the one before held, over a queue that processes the same.\<close>

lemma sub_inv_same_held:
  assumes "sub_inv s" and "i < length (tasks s)" and "held st = held (tasks s ! i)"
    and "processing q = processing (sq s)"
  shows "sub_inv (s\<lparr>sq := q, tasks := (tasks s)[i := st], reports := r\<rparr>)"
  using assms holding_task [OF assms(2), of st] by (simp add: sub_inv_mset holding_def)

lemma sub_inv_released:
  assumes inv: "sub_inv s" and i: "i < length (tasks s)" and held: "held (tasks s ! i) = [x]"
    and st: "held st = []"
  shows "sub_inv (s\<lparr>sq := snd (cq_Done x (sq s)), tasks := (tasks s)[i := st]\<rparr>)"
proof -
  have "x |\<in>| processing (sq s)" using held_task [OF inv i, of x] held by simp
  then have "mset_set (fset (processing (sq s))) = add_mset x (mset_set (fset (processing (sq s)) - {x}))"
    by (intro mset_set.remove) simp_all
  with inv holding_task [OF i, of st] held st show ?thesis
    by (simp add: sub_inv_mset holding_def)
qed

lemma callback_step_form:
  assumes "i < length (tasks s)" and "callback_step impl config i ch s = Some t"
  shows "t = s\<lparr>sq := sq t, tasks := (tasks s)[i := tasks t ! i], reports := reports t\<rparr>"
  using assms by (cases "tasks s ! i"; cases ch) (auto simp: callback_step_def Let_def split: if_splits prod.splits)

text \<open>The steps of a task, one case for each stage it can leave.\<close>

lemma callback_step_cases [consumes 2, case_names consumer report finish handle log requeue delay reset]:
  assumes "i < length (tasks s)" and "callback_step impl config i ch s = Some t"
  obtains x where "tasks s ! i = Waiting x" "sq t = sq s" "reports t = reports s"
      "ch = ConsumerPanics \<and> tasks t ! i = Lost x
        \<or> (\<exists>err. ch = ConsumerReturns err \<and> tasks t ! i = Returned x err)"
    | x err where "tasks s ! i = Returned x err" "sq t = sq s" "reports t = reports s @ [(x, err)]"
      "tasks t ! i = Reported x err"
    | x err where "tasks s ! i = Reported x err" "sq t = snd (cq_Done x (sq s))" "reports t = reports s"
      "tasks t ! i = (case err of Some e \<Rightarrow> Handling x e | None \<Rightarrow> Resetting x)"
    | x e where "tasks s ! i = Handling x e" "sq t = sq s" "reports t = reports s"
      "tasks t ! i = Logging x (NumRequeues x (sq s))"
    | x n where "tasks s ! i = Logging x n" "sq t = sq s" "reports t = reports s"
      "tasks t ! i = (if gives_up config n then Resetting x else Requeuing x) \<or> tasks t ! i = Aborted"
    | x d where "tasks s ! i = Requeuing x" "sq t = snd (dq_When impl x (sq s))" "reports t = reports s"
      "tasks t ! i = Delaying x d"
    | x d t0 where "tasks s ! i = Delaying x d" "sq t = snd (AddAfter x d t0 (sq s))" "reports t = reports s"
      "tasks t ! i = Ended" "t0 \<le> clock (sq s)"
    | x where "tasks s ! i = Resetting x" "sq t = ResetRateLimit x (sq s)" "reports t = reports s"
      "tasks t ! i = Ended"
  using assms
  by (cases "tasks s ! i"; cases ch) (auto simp: callback_step_def Let_def split: if_splits prod.splits)

lemma callback_step_effect:
  assumes "i < length (tasks s)" and "callback_step impl config i ch s = Some t"
  shows "held (tasks t ! i) = held (tasks s ! i) \<and> processing (sq t) = processing (sq s)
      \<and> (\<forall>x err. tasks s ! i \<noteq> Reported x err)
    \<or> (\<exists>x err. tasks s ! i = Reported x err \<and> sq t = snd (cq_Done x (sq s)) \<and> held (tasks t ! i) = []
         \<and> reports t = reports s)"
  using assms by (cases rule: callback_step_cases) (auto simp: processing_AddAfter snd_dq_When split: option.split)

lemma callback_step_inv:
  assumes inv: "sub_inv s" and i: "i < length (tasks s)" and step: "callback_step impl config i ch s = Some t"
  shows "sub_inv t"
  using callback_step_effect [OF i step]
proof (elim disjE exE conjE)
  assume "held (tasks t ! i) = held (tasks s ! i)" "processing (sq t) = processing (sq s)"
  then show ?thesis
    by (subst callback_step_form [OF i step]) (rule sub_inv_same_held [OF inv i])
next
  fix x err
  assume "tasks s ! i = Reported x err" "sq t = snd (cq_Done x (sq s))" "held (tasks t ! i) = []"
    "reports t = reports s"
  with sub_inv_released [OF inv i, of x "tasks t ! i"] show ?thesis
    by (subst callback_step_form [OF i step]) simp
qed


lemma pull_cases:
  assumes "pull s = Some t"
  obtains (get) x rest where "puller s = Pulling" "queue (sq s) = x # rest"
      "t = s\<lparr>sq := snd (cq_Get (sq s)), puller := Submitting x\<rparr>"
      "processing (sq t) = finsert x (processing (sq s))"
    | (stop) "puller s = Pulling" "t = s\<lparr>puller := PullerStopped\<rparr>"
    | (submit) x where "puller s = Submitting x" "t = s\<lparr>puller := Pulling, tasks := tasks s @ [Waiting x]\<rparr>"
  using assms
  by (cases "puller s"; cases "queue (sq s)")
    (auto simp: pull_def cq_Get_Nil_Get cq_Get_Cons_Get split: if_splits)

lemma pull_inv:
  assumes inv: "sub_inv s" and q: "d_inv (sq s)" and step: "pull s = Some t"
  shows "sub_inv t"
  using step
proof (cases rule: pull_cases)
  case (get x rest)
  with q have x: "x |\<notin>| processing (sq s)"
    using cq_inv_mem [of "sq s" x] by (simp add: d_inv_def)
  have "holding t = x # holding s" using get by (simp add: holding_def)
  with inv get(4) x show ?thesis by (auto simp: sub_inv_def)
next
  case stop
  with inv show ?thesis by (simp add: sub_inv_def holding_def)
next
  case (submit x)
  with inv show ?thesis by (auto simp: sub_inv_def holding_def)
qed

lemma sexec_inv:
  assumes inv: "sub_inv s" and q: "d_inv (sq s)" and step: "sexec impl config s a = Some t"
  shows "sub_inv t"
proof (cases a)
  case Pull
  with step pull_inv [OF inv q] show ?thesis by (simp add: sexec.simps)
next
  case (Task i ch)
  with step callback_step_inv [OF inv] show ?thesis by (auto simp: sexec.simps split: if_splits)
next
  case (QueueTimer b)
  with step inv dexec_timer_processing [of impl "sq s" b] show ?thesis
    by (auto simp: sexec.simps sub_inv_def split: if_splits)
next
  case (ContextDone order)
  with step obtain q' where "dexec impl (sq s) (ActShutDown order) = Some q'" "t = s\<lparr>sq := q'\<rparr>"
    by (auto simp: sexec.simps simp del: dexec.simps)
  with inv dexec_shutdown_processing [of impl "sq s" order] show ?thesis by (simp add: sub_inv_def)
qed (use step inv in \<open>auto simp: sexec.simps Submit_def SubmitAfter_def sub_inv_def split: if_splits\<close>)

text \<open>Every step is a step of the queue's machine, or leaves the queue alone.\<close>

lemma callback_step_embeds:
  assumes inv: "sub_inv s" and i: "i < length (tasks s)" and step: "callback_step impl config i ch s = Some t"
  shows "sq t = sq s \<or> (\<exists>b. dexec impl (sq s) b = Some (sq t))"
  using i step
proof (cases rule: callback_step_cases)
  case (finish x err)
  with held_task [OF inv i, of x] have "x |\<in>| processing (sq s)" by simp
  with finish show ?thesis by (intro disjI2 exI [of _ "ActDone x"]) simp
next
  case (reset x)
  then show ?thesis by (intro disjI2 exI [of _ "ActReset x"]) simp
next
  case (requeue x d)
  then show ?thesis by (intro disjI2 exI [of _ "ActWhen x"]) simp
next
  case (delay x d t0)
  then show ?thesis by (intro disjI2 exI [of _ "ActAddAfter x d t0"]) simp
qed simp_all

lemma sexec_embeds:
  assumes inv: "sub_inv s" and step: "sexec impl config s a = Some t"
  shows "sq t = sq s \<or> (\<exists>b. dexec impl (sq s) b = Some (sq t))"
proof (cases a)
  case (SubmitItem x)
  with step show ?thesis by (intro disjI2 exI [of _ "ActAdd x"]) (auto simp: sexec.simps Submit_def)
next
  case (SubmitItemAfter x d t0)
  with step show ?thesis
    by (intro disjI2 exI [of _ "ActAddAfter x d t0"]) (auto simp: sexec.simps SubmitAfter_def split: if_splits)
next
  case Pull
  with step have "pull s = Some t" by (simp add: sexec.simps)
  then show ?thesis by (cases rule: pull_cases) (auto intro!: exI [of _ ActGet])
next
  case (Task i ch)
  with step have "i < length (tasks s)" "callback_step impl config i ch s = Some t"
    by (simp_all add: sexec.simps split: if_splits)
  then show ?thesis by (rule callback_step_embeds [OF inv])
next
  case (QueueTimer b)
  with step show ?thesis
    by (intro disjI2 exI [of _ b]) (auto simp: sexec.simps split: if_splits simp del: dexec.simps)
next
  case (ContextDone order)
  with step show ?thesis
    by (intro disjI2 exI [of _ "ActShutDown order"]) (auto simp: sexec.simps simp del: dexec.simps)
qed

interpretation sub: embedding dinit "by_exec (dexec impl)" d_inv sinit "by_exec (sexec impl config)" sq sub_inv
proof unfold_locales
  show "dinit (sq s) \<and> sub_inv s" if "sinit s" for s :: "('a, 'b) submitter"
    using that
    by (simp add: sinit_def dinit_def NewDefaultItemSubmitter_def sub_inv_def holding_def New_dq_def
        NewCollapsingQueue_def collapsingQueue.defs set_op_defs)
qed (auto simp: by_exec_def intro: sexec_inv dest: sexec_embeds)


section \<open>An item whose consumer panicked\<close>

lemma concat_disjoint:
  "distinct (concat xss) \<Longrightarrow> i < length xss \<Longrightarrow> j < length xss \<Longrightarrow> i \<noteq> j \<Longrightarrow> set (xss ! i) \<inter> set (xss ! j) = {}"
proof (induction xss arbitrary: i j)
  case (Cons xs xss)
  have later: "set xs \<inter> set (xss ! k) = {}" if "k < length xss" for k
    using that Cons.prems(1) UN_upper [OF nth_mem [OF that], of set] by fastforce
  show ?case
    using Cons.prems Cons.IH later by (cases i; cases j) (auto simp: Int_commute)
qed simp

lemma held_disjoint:
  "sub_inv s \<Longrightarrow> i < length (tasks s) \<Longrightarrow> j < length (tasks s) \<Longrightarrow> i \<noteq> j \<Longrightarrow>
   set (held (tasks s ! i)) \<inter> set (held (tasks s ! j)) = {}"
  using concat_disjoint [of "map held (tasks s)" i j] by (simp add: sub_inv_def holding_def)

lemma lost_alone:
  assumes inv: "sub_inv s" and lost: "Lost x \<in> set (tasks s)"
  shows "Waiting x \<notin> set (tasks s)" "Returned x err \<notin> set (tasks s)" "puller s \<noteq> Submitting x"
    "x |\<in>| processing (sq s)"
proof -
  from lost obtain k where k: "k < length (tasks s)" "tasks s ! k = Lost x" by (auto simp: in_set_conv_nth)
  have other: "st = Lost x" if "st \<in> set (tasks s)" "x \<in> set (held st)" for st
  proof -
    from that obtain i where i: "i < length (tasks s)" "tasks s ! i = st" by (auto simp: in_set_conv_nth)
    with held_disjoint [OF inv i(1) k(1)] k(2) that(2) show ?thesis by (cases "i = k") auto
  qed
  show "Waiting x \<notin> set (tasks s)" "Returned x err \<notin> set (tasks s)"
    using other [of "Waiting x"] other [of "Returned x err"] by auto
  show "x |\<in>| processing (sq s)" using held_task [OF inv k(1), of x] k(2) by simp
  have "x \<in> set (concat (map held (tasks s)))" using lost by force
  with inv show "puller s \<noteq> Submitting x" by (auto simp: sub_inv_def holding_def)
qed

lemma lost_step:
  assumes inv: "sub_inv s" and lost: "Lost x \<in> set (tasks s)" and step: "sexec impl config s a = Some t"
  shows "Lost x \<in> set (tasks t) \<and> filter (\<lambda>r. fst r = x) (reports t) = filter (\<lambda>r. fst r = x) (reports s)"
proof (cases a)
  case (Task i ch)
  with step have i: "i < length (tasks s)" and cb: "callback_step impl config i ch s = Some t"
    by (simp_all add: sexec.simps split: if_splits)
  from lost obtain k where k: "k < length (tasks s)" "tasks s ! k = Lost x" by (auto simp: in_set_conv_nth)
  from i cb have "\<forall>y. tasks s ! i \<noteq> Lost y" by (cases rule: callback_step_cases) simp_all
  with k have "i \<noteq> k" by auto
  with k have "Lost x \<in> set ((tasks s)[i := st])" for st by (metis length_list_update nth_list_update_neq nth_mem)
  then have "Lost x \<in> set (tasks t)" by (subst callback_step_form [OF i cb]) simp
  moreover have "filter (\<lambda>r. fst r = x) (reports t) = filter (\<lambda>r. fst r = x) (reports s)"
    using i cb
  proof (cases rule: callback_step_cases)
    case (report y err)
    with lost_alone(2) [OF inv lost] i have "y \<noteq> x" by (metis nth_mem)
    with report show ?thesis by simp
  qed simp_all
  ultimately show ?thesis ..
next
  case Pull
  with step have "pull s = Some t" by (simp add: sexec.simps)
  then show ?thesis using lost by (cases rule: pull_cases) auto
qed (use step lost in \<open>auto simp: sexec.simps Submit_def SubmitAfter_def split: if_splits\<close>)

lemma lost_path:
  "path (by_exec (sexec impl config)) s as t \<Longrightarrow> sub_inv s \<Longrightarrow> d_inv (sq s) \<Longrightarrow> Lost x \<in> set (tasks s) \<Longrightarrow>
   Lost x \<in> set (tasks t) \<and> filter (\<lambda>r. fst r = x) (reports t) = filter (\<lambda>r. fst r = x) (reports s) \<and> sub_inv t"
proof (induction rule: path.induct)
  case (path_Cons s a t as u)
  then have step: "sexec impl config s a = Some t" by (simp add: by_exec_def)
  have "sub_inv t" using sexec_inv [OF path_Cons.prems(1,2) step] .
  moreover have "d_inv (sq t)"
    using sexec_embeds [OF path_Cons.prems(1) step] path_Cons.prems(2) by (auto intro: d_inv_step)
  ultimately show ?case using path_Cons.IH lost_step [OF path_Cons.prems(1,3) step] by simp
qed simp

section \<open>Retries\<close>

lemma rateLimiter_AddAfter [simp]: "rateLimiter (snd (AddAfter x d t0 q)) = rateLimiter q"
  by (simp add: AddAfter_def AddAfter_locked_def start_entry_def stop_timer_def set_timer_def wg_add_def
      Let_def split: option.split)

lemma NumRequeues_cong: "rateLimiter q = rateLimiter q' \<Longrightarrow> NumRequeues x q = NumRequeues x q'"
  by (simp add: NumRequeues_def)

definition queue_limiter :: "'a dq \<Rightarrow> bool" where
  "queue_limiter q \<longleftrightarrow> baseDelay (rateLimiter q) = 500000000 \<and> maxDelay (rateLimiter q) = 10000000000"

text \<open>What one failed attempt does, by the number of requeues the item has had.\<close>

lemma on_complete_gives_up:
  "gives_up config (NumRequeues x q) \<Longrightarrow>
   on_complete impl config x (Some e) t0 q = ResetRateLimit x (snd (cq_Done x q))"
  by (simp add: on_complete_def handleProcessError_def NumRequeues_def)

lemma on_complete_retries:
  assumes "\<not> gives_up config (NumRequeues x q)" and "queue_limiter q"
    and "0 \<le> NumRequeues x q" and "NumRequeues x q + 1 < 2 ^ 63"
  shows "on_complete impl config x (Some e) t0 q =
      snd (AddAfter x (min 10000000000 (500000000 * 2 ^ nat (NumRequeues x q))) t0
        (snd (dq_When impl x (snd (cq_Done x q)))))"
    and "NumRequeues x (on_complete impl config x (Some e) t0 q) = NumRequeues x q + 1"
proof -
  let ?q = "snd (cq_Done x q)"
  have n: "NumRequeues x ?q = NumRequeues x q" by (simp add: NumRequeues_def)
  have "AddRateLimited impl x t0 ?q =
      AddAfter x (min 10000000000 (500000000 * 2 ^ nat (NumRequeues x q))) t0 (snd (dq_When impl x ?q))
    \<and> NumRequeues x (snd (dq_When impl x ?q)) = NumRequeues x q + 1"
    using AddRateLimited_delays [of ?q "rateLimiter q" x impl t0] assms(2-4) n
    by (simp add: queue_limiter_def)
  with assms(1) n show "on_complete impl config x (Some e) t0 q =
      snd (AddAfter x (min 10000000000 (500000000 * 2 ^ nat (NumRequeues x q))) t0 (snd (dq_When impl x ?q)))"
    and "NumRequeues x (on_complete impl config x (Some e) t0 q) = NumRequeues x q + 1"
    by (simp_all add: on_complete_def handleProcessError_def) (simp add: NumRequeues_def)
qed

lemma queue_limiter_on_complete:
  assumes "queue_limiter q"
  shows "queue_limiter (on_complete impl config x err t0 q)"
proof -
  have "rateLimiter (snd (AddRateLimited impl x t0 q')) = snd (When impl x (rateLimiter q'))" for q' :: "'a dq"
    by (simp add: AddRateLimited_def dq_When_def split_beta)
  with assms show ?thesis
    by (simp add: queue_limiter_def on_complete_def handleProcessError_def ResetRateLimit_def
        limiter_ResetRateLimit_def Let_def split: option.split)
qed

text \<open>
  A run of failures of one item: \<open>qs i\<close> is the queue before the callback of failure \<open>i\<close>, which
  other operations may have changed since the failure before, but for the limiter.
\<close>

definition failures_in_a_row ::
  "(float64 \<Rightarrow> int) \<Rightarrow> ('ctx, 'w, 'e, 'p, 'tag) ItemSubmitterConfig \<Rightarrow> 'a \<Rightarrow> 'e \<Rightarrow> (nat \<Rightarrow> int)
     \<Rightarrow> (nat \<Rightarrow> 'a dq) \<Rightarrow> bool" where
  "failures_in_a_row impl config x e t0 qs \<longleftrightarrow>
     NumRequeues x (qs 0) = 0 \<and> queue_limiter (qs 0)
     \<and> (\<forall>i. rateLimiter (qs (Suc i)) = rateLimiter (on_complete impl config x (Some e) (t0 i) (qs i)))"

lemma failures_limiter: "failures_in_a_row impl config x e t0 qs \<Longrightarrow> queue_limiter (qs i)"
proof (induction i)
  case (Suc i)
  then have "queue_limiter (on_complete impl config x (Some e) (t0 i) (qs i))"
    by (intro queue_limiter_on_complete) simp
  with Suc.prems show ?case by (simp add: failures_in_a_row_def queue_limiter_def)
qed (simp add: failures_in_a_row_def)

lemma failures_step:
  assumes "failures_in_a_row impl config x e t0 qs"
  shows "NumRequeues x (qs (Suc i)) = NumRequeues x (on_complete impl config x (Some e) (t0 i) (qs i))"
  using assms by (intro NumRequeues_cong) (simp add: failures_in_a_row_def)

lemma limited_count:
  assumes fails: "failures_in_a_row impl config x e t0 qs" and limited: "\<not> unlimitedRetries config"
    and max: "maxNumRequeues config < 2 ^ 63"
  shows "NumRequeues x (qs i) = int (i mod (nat (maxNumRequeues config) + 1))"
proof (induction i)
  case 0
  from fails show ?case by (simp add: failures_in_a_row_def)
next
  case (Suc i)
  let ?m = "nat (maxNumRequeues config)"
  show ?case
  proof (cases "i mod (?m + 1) = ?m")
    case True
    with Suc limited have "gives_up config (NumRequeues x (qs i))" by (simp add: gives_up_def)
    from on_complete_gives_up [OF this] failures_step [OF fails, of i]
    have "NumRequeues x (qs (Suc i)) = 0" by (simp add: NumRequeues_def ResetRateLimit_def)
    with True show ?thesis by (simp add: mod_Suc)
  next
    case False
    have "i mod (?m + 1) < ?m + 1" by (rule mod_less_divisor) simp
    with False have less: "i mod (?m + 1) < ?m" by linarith
    with Suc have "\<not> gives_up config (NumRequeues x (qs i))"
      by (simp add: gives_up_def zless_nat_eq_int_zless)
    from on_complete_retries(2) [OF this failures_limiter [OF fails]] Suc less max failures_step [OF fails, of i]
    have "NumRequeues x (qs (Suc i)) = int (i mod (?m + 1)) + 1" by simp
    with False show ?thesis by (simp add: mod_Suc)
  qed
qed

lemma unlimited_count:
  assumes fails: "failures_in_a_row impl config x e t0 qs" and "unlimitedRetries config"
  shows "int i < 2 ^ 63 \<Longrightarrow> NumRequeues x (qs i) = int i"
proof (induction i)
  case 0
  from fails show ?case by (simp add: failures_in_a_row_def)
next
  case (Suc i)
  from assms(2) have "\<not> gives_up config (NumRequeues x (qs i))" by (simp add: gives_up_def)
  from on_complete_retries(2) [OF this failures_limiter [OF fails]] Suc failures_step [OF fails, of i]
  show ?case by simp
qed

section \<open>Properties\<close>


text \<open>
  With unlimited retries every failure requeues the item, failure \<open>i\<close> in a row (from 0)
  after \<open>500 ms * 2^i\<close>, at most 10 s.
\<close>

theorem unlimited_retries_back_off:
  assumes "failures_in_a_row impl config x e t0 qs" and "unlimitedRetries config" and "int i + 1 < 2 ^ 63"
  shows "NumRequeues x (qs i) = int i
    \<and> on_complete impl config x (Some e) (t0 i) (qs i) =
        snd (AddAfter x (min 10000000000 (500000000 * 2 ^ i)) (t0 i)
          (snd (dq_When impl x (snd (cq_Done x (qs i))))))"
proof -
  have count: "NumRequeues x (qs i) = int i" using unlimited_count [OF assms(1,2), of i] assms(3) by simp
  from assms(2) have "\<not> gives_up config (NumRequeues x (qs i))" by (simp add: gives_up_def)
  from on_complete_retries(1) [OF this failures_limiter [OF assms(1)]] count assms(3) show ?thesis by simp
qed


text \<open>
  The submitter refines its queue: what it reaches is a reachable state of the queue's
  machine, so the queue keeps its invariant whatever the consumers, the callbacks, the timers and the
  callers of \<open>Submit\<close> do.
\<close>

theorem submitter_refines_queue:
  assumes "reach sinit (by_exec (sexec impl config)) s"
  shows "reach dinit (by_exec (dexec impl)) (sq s) \<and> d_inv (sq s)"
  using sub.reach_embeds [OF assms] sub.inner_invariant [OF assms] by simp

text \<open>
  Claim C23: once the consumer panicked on an item, that item stays in the processing set for good: no
  later submission of it ever reaches a consumer, and neither the panic nor anything else is reported
  for it again.
\<close>

theorem panic_blocks_item:
  assumes "reach sinit (by_exec (sexec impl config)) s" and "Lost x \<in> set (tasks s)"
    and "path (by_exec (sexec impl config)) s as t"
  shows "x |\<in>| processing (sq t) \<and> Waiting x \<notin> set (tasks t) \<and> puller t \<noteq> Submitting x
    \<and> filter (\<lambda>r. fst r = x) (reports t) = filter (\<lambda>r. fst r = x) (reports s)"
proof -
  have lost: "Lost x \<in> set (tasks t)" "filter (\<lambda>r. fst r = x) (reports t) = filter (\<lambda>r. fst r = x) (reports s)"
    and inv: "sub_inv t"
    using lost_path [OF assms(3) sub.outer_invariant [OF assms(1)] sub.inner_invariant [OF assms(1)] assms(2)]
    by simp_all
  from lost_alone [OF inv lost(1)] lost(2) show ?thesis by simp
qed


text \<open>
  A callback that nothing interleaves with and whose logger returns takes its task from the
  report to the end and has on the queue the effect of \<open>on_complete\<close>: release, then either reset the
  failure count, or requeue with backoff.
\<close>

theorem callback_alone:
  assumes "i < length (tasks s)" and "tasks s ! i = Reported x err" and "t0 \<le> clock (sq s)"
  shows "\<exists>choices t. run (sexec impl config) s (map (Task i) choices) = Some t
    \<and> sq t = on_complete impl config x err t0 (sq s) \<and> tasks t = (tasks s)[i := Ended] \<and> reports t = reports s"
proof (cases err)
  case None
  with assms show ?thesis
    by (intro exI [of _ "[GoOn, GoOn]"])
      (simp add: sexec.simps callback_step_def Let_def on_complete_def)
next
  case (Some e)
  show ?thesis
  proof (cases "gives_up config (NumRequeues x (snd (cq_Done x (sq s))))")
    case True
    with assms Some show ?thesis
      by (intro exI [of _ "[GoOn, GoOn, LoggerReturns, GoOn]"])
        (simp add: sexec.simps callback_step_def Let_def on_complete_def handleProcessError_def)
  next
    case False
    with assms Some show ?thesis
      by (intro exI [of _ "[GoOn, GoOn, LoggerReturns, GoOn, ReadClock t0]"])
        (simp add: sexec.simps callback_step_def Let_def on_complete_def handleProcessError_def
          AddRateLimited_def dq_When_def split_beta)
  qed
qed

section \<open>Runs on concrete inputs\<close>

text \<open>The defaults with at most \<open>n\<close> requeues; a submission of \<open>''k''\<close> pulled and handed to the pool.\<close>

definition sample_config :: "int \<Rightarrow> (unit, unit, string, string, string) ItemSubmitterConfig" where
  "sample_config n = submitter_config (\<lambda>_ _ w. (Ret (), w)) (\<lambda>_ _. None) [WithUnlimitedRetries, WithMaxNumRequeues n]"

lemma sample_config_simps:
  "maxNumRequeues (sample_config n) = n" "unlimitedRetries (sample_config n) = False"
  by (simp_all add: sample_config_def submitter_config_def WithUnlimitedRetries_def WithMaxNumRequeues_def)

lemmas submitter_eval = sexec.simps callback_step_def pull_def Submit_def NewDefaultItemSubmitter_def
  New_dq_def NewCollapsingQueue_def collapsingQueue.defs cq_defs set_op_defs Let_def

lemma two_items_run:
  "\<exists>s :: (string, string) submitter.
     run (sexec (\<lambda>_. 0) (sample_config 1)) NewDefaultItemSubmitter
       [SubmitItem ''k'', SubmitItem ''l'', Pull, Pull, Pull, Pull, Task 0 ConsumerPanics,
        Task 1 (ConsumerReturns (Some ''e'')), Task 1 GoOn] = Some s
     \<and> tasks s = [Lost ''k'', Reported ''l'' (Some ''e'')] \<and> puller s = Pulling
     \<and> reports s = [(''l'', Some ''e'')] \<and> clock (sq s) = 0"
  by (simp add: submitter_eval)

lemma two_items_reach:
  "\<exists>s :: (string, string) submitter. reach sinit (by_exec (sexec (\<lambda>_. 0) (sample_config 1))) s
     \<and> tasks s = [Lost ''k'', Reported ''l'' (Some ''e'')] \<and> puller s = Pulling
     \<and> reports s = [(''l'', Some ''e'')] \<and> clock (sq s) = 0"
proof -
  obtain s :: "(string, string) submitter" where s:
    "run (sexec (\<lambda>_. 0) (sample_config 1)) NewDefaultItemSubmitter
       [SubmitItem ''k'', SubmitItem ''l'', Pull, Pull, Pull, Pull, Task 0 ConsumerPanics,
        Task 1 (ConsumerReturns (Some ''e'')), Task 1 GoOn] = Some s"
    "tasks s = [Lost ''k'', Reported ''l'' (Some ''e'')] \<and> puller s = Pulling
     \<and> reports s = [(''l'', Some ''e'')] \<and> clock (sq s) = 0"
    using two_items_run by metis
  have "reach sinit (by_exec (sexec (\<lambda>_. 0) (sample_config 1))) s"
    by (rule run_reach [OF _ s(1)]) (simp add: sinit_def)
  with s(2) show ?thesis by blast
qed


theorem submitter_refines_queue_witness:
  "\<exists>s :: (string, string) submitter. reach sinit (by_exec (sexec (\<lambda>_. 0) (sample_config 1))) s
     \<and> length (tasks s) = 2 \<and> d_inv (sq s)"
proof -
  obtain s :: "(string, string) submitter" where s: "reach sinit (by_exec (sexec (\<lambda>_. 0) (sample_config 1))) s"
    "tasks s = [Lost ''k'', Reported ''l'' (Some ''e'')]"
    using two_items_reach by metis
  with submitter_refines_queue [OF s(1)] show ?thesis by (intro exI [of _ s]) simp
qed

theorem panic_blocks_item_witness:
  "\<exists>s t :: (string, string) submitter. reach sinit (by_exec (sexec (\<lambda>_. 0) (sample_config 1))) s
     \<and> path (by_exec (sexec (\<lambda>_. 0) (sample_config 1))) s [SubmitItem ''k''] t
     \<and> ''k'' |\<in>| processing (sq t) \<and> Waiting ''k'' \<notin> set (tasks t)"
proof -
  obtain s :: "(string, string) submitter" where s: "reach sinit (by_exec (sexec (\<lambda>_. 0) (sample_config 1))) s"
    "tasks s = [Lost ''k'', Reported ''l'' (Some ''e'')]"
    using two_items_reach by metis
  have "path (by_exec (sexec (\<lambda>_. 0) (sample_config 1))) s [SubmitItem ''k''] (Submit ''k'' s)"
    by (auto intro!: path.intros simp: by_exec_def sexec.simps)
  from this panic_blocks_item [OF s(1) _ this, of "''k''"] s show ?thesis
    by (intro exI [of _ s] exI [of _ "Submit ''k'' s"]) simp
qed

theorem callback_alone_witness:
  "\<exists>s t :: (string, string) submitter. reach sinit (by_exec (sexec (\<lambda>_. 0) (sample_config 1))) s
     \<and> (\<exists>choices. run (sexec (\<lambda>_. 0) (sample_config 1)) s (map (Task 1) choices) = Some t)
     \<and> sq t = on_complete (\<lambda>_. 0) (sample_config 1) ''l'' (Some ''e'') 0 (sq s)
     \<and> tasks t = [Lost ''k'', Ended]"
proof -
  obtain s :: "(string, string) submitter" where s: "reach sinit (by_exec (sexec (\<lambda>_. 0) (sample_config 1))) s"
    "tasks s = [Lost ''k'', Reported ''l'' (Some ''e'')]" "clock (sq s) = 0"
    using two_items_reach by metis
  from callback_alone [of 1 s "''l''" "Some ''e''" 0 "\<lambda>_. 0" "sample_config 1"] s obtain choices t where
    "run (sexec (\<lambda>_. 0) (sample_config 1)) s (map (Task 1) choices) = Some t"
    "sq t = on_complete (\<lambda>_. 0) (sample_config 1) ''l'' (Some ''e'') 0 (sq s)" "tasks t = [Lost ''k'', Ended]"
    by auto
  with s(1) show ?thesis by blast
qed

text \<open>Failures in a row from a fresh queue, with nothing else in between.\<close>

fun failing :: "(float64 \<Rightarrow> int) \<Rightarrow> ('ctx, 'w, 'e, 'p, 'tag) ItemSubmitterConfig \<Rightarrow> 'a \<Rightarrow> 'e \<Rightarrow> nat \<Rightarrow> 'a dq" where
  "failing impl config x e 0 = New_dq"
| "failing impl config x e (Suc i) = on_complete impl config x (Some e) 0 (failing impl config x e i)"

lemma failing_in_a_row: "failures_in_a_row impl config x e (\<lambda>_. 0) (failing impl config x e)"
  by (simp add: failures_in_a_row_def NumRequeues_def queue_limiter_def New_dq_def collapsingQueue.defs
      limiter_NumRequeues_def lookup0_def NewItemExponentialFailureRateLimiter_def)


theorem unlimited_retries_back_off_witness:
  "NumRequeues ''k'' (failing (\<lambda>_. 0) (WithUnlimitedRetries (sample_config 2)) ''k'' ''e'' 4) = 4"
  using unlimited_retries_back_off [OF failing_in_a_row [of "\<lambda>_. 0" "WithUnlimitedRetries (sample_config 2)" "''k''" "''e''"], where i = 4]
  by (simp add: WithUnlimitedRetries_def)

end
