(* ===== verification/Submitter_Task.thy ===== *)
theory Submitter_Task
  imports Pool_Wrappers Item_Submitter
begin

text \<open>
  The task that the item submitter hands to its consumer pool, as the code has it: the consumer,
  then the closure of \<open>singleProcessAttempt\<close> with \<open>handleProcessError\<close>, wrapped as the pools wrap it
  and run by \<open>Compute\<close> of its future. The world of a task is the submitter's queue, the reports
  to the health source and whatever the client's consumer and logger act on. Run without interruption,
  a task goes through the stages of \<open>Item_Submitter\<close> with the choices its consumer and logger make.
\<close>

record ('a, 'e, 'u) task_world =
  tw_queue :: "'a dq"
  tw_reports :: "('a \<times> 'e option) list"
  tw_user :: 'u

section \<open>The closure\<close>

definition on_queue :: "('a dq \<Rightarrow> 'a dq) \<Rightarrow> (('a, 'e, 'u) task_world, unit, 'p) go" where
  "on_queue f = go_effect (\<lambda>w. w\<lparr>tw_queue := f (tw_queue w)\<rparr>)"

text \<open>\<open>keyedErrorHealthCheckSource.Submit\<close>\<close>

definition report_result :: "'a \<Rightarrow> 'e option \<Rightarrow> (('a, 'e, 'u) task_world, unit, 'p) go" where
  "report_result element err = go_effect (\<lambda>w. w\<lparr>tw_reports := tw_reports w @ [(element, err)]\<rparr>)"

definition on_user :: "('u, 'r, 'p) go \<Rightarrow> (('a, 'e, 'u) task_world, 'r, 'p) go" where
  "on_user m w = (case m (tw_user w) of (res, u) \<Rightarrow> (res, w\<lparr>tw_user := u\<rparr>))"

definition handleProcessError_call ::
  "(float64 \<Rightarrow> int) \<Rightarrow> ('ctx, 'u, 'e, 'p, 'tag) ItemSubmitterConfig \<Rightarrow> 'ctx \<Rightarrow> 'a \<Rightarrow> 'e
     \<Rightarrow> (('a, 'e, 'u) task_world, unit, 'p) go" where
  "handleProcessError_call impl cfg ctx element err w =
     (let numRequeues = NumRequeues element (tw_queue w)
      in go_bind (on_user (logError cfg ctx err)) (\<lambda>_.
         if \<not> unlimitedRetries cfg \<and> numRequeues \<ge> maxNumRequeues cfg
         then on_queue (ResetRateLimit element)
         else on_queue (\<lambda>q. snd (AddRateLimited impl element (clock q) q))) w)"

definition attempt_callback ::
  "(float64 \<Rightarrow> int) \<Rightarrow> ('ctx, 'u, 'e, 'p, 'tag) ItemSubmitterConfig \<Rightarrow> 'a
     \<Rightarrow> 'ctx \<Rightarrow> 'a \<Rightarrow> 'e option \<Rightarrow> (('a, 'e, 'u) task_world, unit, 'p) go" where
  "attempt_callback impl cfg element = (\<lambda>ctx elem err.
     go_bind (report_result elem err) (\<lambda>_.
     go_bind (on_queue (\<lambda>q. snd (cq_Done element q))) (\<lambda>_.
       case err of
         Some e \<Rightarrow> handleProcessError_call impl cfg ctx element e
       | None \<Rightarrow> on_queue (ResetRateLimit element))))"

text \<open>What \<open>SubmitWithCallback\<close> of the consumer pool makes of it for the supplier pool.\<close>

definition attempt_supplier ::
  "(float64 \<Rightarrow> int) \<Rightarrow> ('ctx, 'u, 'e, 'p, 'tag) ItemSubmitterConfig
     \<Rightarrow> ('ctx, 'u, 'a, 'e, 'p) consumer \<Rightarrow> 'a \<Rightarrow> ('ctx, ('a, 'e, 'u) task_world, unit, 'e, 'p) supplier" where
  "attempt_supplier impl cfg consumer element =
     supplier_of_runnable (consumer_runnable (\<lambda>ctx arg. on_user (consumer ctx arg)) element
       (attempt_callback impl cfg element))"

definition singleProcessAttempt ::
  "(float64 \<Rightarrow> int) \<Rightarrow> ('ctx, 'u, 'e, 'p, 'tag) ItemSubmitterConfig \<Rightarrow> ('ctx, 'u, 'a, 'e, 'p) consumer
     \<Rightarrow> ('ctx \<Rightarrow> ('ctx, ('a, 'e, 'u) task_world, unit, 'e, 'p) supplier \<Rightarrow> 's \<Rightarrow> ('f \<times> 's) option)
     \<Rightarrow> 'ctx \<Rightarrow> 'a \<Rightarrow> 's \<Rightarrow> 's option" where
  "singleProcessAttempt impl cfg consumer submit ctx element =
     consumer_SubmitWithCallback submit (\<lambda>ctx arg. on_user (consumer ctx arg)) ctx element
       (attempt_callback impl cfg element)"

lemma singleProcessAttempt_submits:
  "singleProcessAttempt impl cfg consumer submit ctx element st =
     map_option snd (submit ctx (attempt_supplier impl cfg consumer element) st)"
  by (simp add: singleProcessAttempt_def consumer_SubmitWithCallback_def runnable_Submit_def
      attempt_supplier_def)

text \<open>The recovery handler acts on the user's part of the world.\<close>

definition handle_user ::
  "('ctx \<Rightarrow> 'p \<Rightarrow> 'u \<Rightarrow> 'e \<times> 'u) \<Rightarrow> 'ctx \<Rightarrow> 'p \<Rightarrow> ('a, 'e, 'u) task_world \<Rightarrow> 'e \<times> ('a, 'e, 'u) task_world" where
  "handle_user handle ctx p w = (case handle ctx p (tw_user w) of (e, u) \<Rightarrow> (e, w\<lparr>tw_user := u\<rparr>))"

section \<open>The stages a task goes through\<close>

text \<open>
  What consumer and logger do when the task is run in the user's world \<open>u\<close>: the stage the task ends in,
  and the choices on the way there (\<open>t0\<close> is the clock reading of \<open>AddAfter\<close>).
\<close>

definition attempt_end ::
  "('ctx, 'u, 'e, 'p, 'tag) ItemSubmitterConfig \<Rightarrow> ('ctx, 'u, 'a, 'e, 'p) consumer \<Rightarrow> 'ctx \<Rightarrow> 'a \<Rightarrow> 'u
     \<Rightarrow> ('a, 'e) stage" where
  "attempt_end cfg consumer ctx x u =
     (case consumer ctx x u of
        (Panic _, _) \<Rightarrow> Lost x
      | (Ret None, _) \<Rightarrow> Ended
      | (Ret (Some e), u1) \<Rightarrow>
          (case logError cfg ctx e u1 of (Panic _, _) \<Rightarrow> Aborted | (Ret _, _) \<Rightarrow> Ended))"

definition attempt_choices ::
  "('ctx, 'u, 'e, 'p, 'tag) ItemSubmitterConfig \<Rightarrow> ('ctx, 'u, 'a, 'e, 'p) consumer \<Rightarrow> 'ctx \<Rightarrow> 'a \<Rightarrow> 'u
     \<Rightarrow> int \<Rightarrow> int \<Rightarrow> 'e choice list" where
  "attempt_choices cfg consumer ctx x u numRequeues t0 =
     (case consumer ctx x u of
        (Panic _, _) \<Rightarrow> [ConsumerPanics]
      | (Ret None, _) \<Rightarrow> [ConsumerReturns None, GoOn, GoOn, GoOn]
      | (Ret (Some e), u1) \<Rightarrow>
          [ConsumerReturns (Some e), GoOn, GoOn, GoOn] @
          (case logError cfg ctx e u1 of
             (Panic _, _) \<Rightarrow> [LoggerPanics]
           | (Ret _, _) \<Rightarrow>
               if gives_up cfg numRequeues then [LoggerReturns, GoOn]
               else [LoggerReturns, GoOn, ReadClock t0]))"

text \<open>What the run of the supplier comes to, by what the consumer and the logger do.\<close>

lemma attempt_supplier_panics:
  "consumer ctx x (tw_user w) = (Panic p, u) \<Longrightarrow>
   attempt_supplier impl cfg consumer x ctx w = (Panic p, w\<lparr>tw_user := u\<rparr>)"
  by (simp add: attempt_supplier_def consumer_runnable_run then_callback_def supplier_of_runnable_run
      on_user_def)

lemma attempt_supplier_returns:
  "consumer ctx x (tw_user w) = (Ret err, u) \<Longrightarrow>
   attempt_supplier impl cfg consumer x ctx w =
     (case attempt_callback impl cfg x ctx x err (w\<lparr>tw_user := u\<rparr>) of
        (Panic p, v) \<Rightarrow> (Panic p, v) | (Ret _, v) \<Rightarrow> (Ret ((), err), v))"
  by (simp add: attempt_supplier_def consumer_runnable_run then_callback_def supplier_of_runnable_run
      on_user_def)

lemma attempt_callback_None:
  "attempt_callback impl cfg x ctx elem None w =
     (Ret (), w\<lparr>tw_reports := tw_reports w @ [(elem, None)],
        tw_queue := ResetRateLimit x (snd (cq_Done x (tw_queue w)))\<rparr>)"
  by (simp add: attempt_callback_def report_result_def on_queue_def go_bind_effect)
    (simp add: go_effect_def)

lemma attempt_callback_Some:
  "attempt_callback impl cfg x ctx elem (Some e) w =
     (let q = snd (cq_Done x (tw_queue w)); v = w\<lparr>tw_reports := tw_reports w @ [(elem, Some e)], tw_queue := q\<rparr>
      in case logError cfg ctx e (tw_user w) of
           (Panic p, u) \<Rightarrow> (Panic p, v\<lparr>tw_user := u\<rparr>)
         | (Ret _, u) \<Rightarrow> (Ret (), v\<lparr>tw_user := u, tw_queue :=
             (if gives_up cfg (NumRequeues x q) then ResetRateLimit x q
              else snd (AddRateLimited impl x (clock q) q))\<rparr>))"
  by (simp add: attempt_callback_def report_result_def on_queue_def go_bind_effect
      handleProcessError_call_def Let_def gives_up_def)
    (simp add: go_bind_def on_user_def go_effect_def split: prod.split outcome.split)

text \<open>\<open>Compute\<close> stores a result and leaves queue and reports as the supplier's run left them.\<close>

lemma Compute_attempt:
  assumes "Compute (handle_user handle) () ctx (NewDefaultComputingFuture sp) w = (wk, d, w')"
  shows "tw_queue w' = tw_queue (snd (sp ctx w))" "tw_reports w' = tw_reports (snd (sp ctx w))"
    "Get_result d \<noteq> None"
  using assms
  by (cases "sp ctx w"; cases "fst (sp ctx w)";
      auto simp: Compute_unset NewDefaultComputingFuture_def supplied_def handle_user_def
        Get_result_def split: prod.splits)+

lemmas stage_eval = Item_Submitter.sexec.simps callback_step_def Let_def

section \<open>Property\<close>

text \<open>
  Claim C10: the stages of the item submitter are what the code does. A task that runs without
  interruption from a state of the submitter has on the queue and the reports the effect of the
  corresponding stages, with the choices that its consumer and its logger make, and leaves the task in
  the stage they lead to; the panic of either is caught by the future.
\<close>

theorem task_run_refines_stages:
  assumes "i < length (tasks s)" and "tasks s ! i = Waiting x"
    and w: "w = \<lparr>tw_queue = sq s, tw_reports = reports s, tw_user = u\<rparr>"
    and compute: "Compute (handle_user handle) () ctx
      (NewDefaultComputingFuture (attempt_supplier impl cfg consumer x)) w = (wk, d, w')"
  shows "run (Item_Submitter.sexec impl cfg) s (map (Task i) (attempt_choices cfg consumer ctx x u
      (NumRequeues x (sq s)) (clock (sq s)))) =
      Some (s\<lparr>sq := tw_queue w', reports := tw_reports w',
              tasks := (tasks s)[i := attempt_end cfg consumer ctx x u]\<rparr>)
    \<and> Get_result d \<noteq> None"
proof -
  note run = Compute_attempt [OF compute]
  have q: "tw_queue w = sq s" "tw_reports w = reports s" "tw_user w = u" by (simp_all add: w)
  show ?thesis
  proof (cases "consumer ctx x u")
    case (Pair res u1)
    show ?thesis
    proof (cases res)
      case (Panic p)
      with Pair q have "attempt_supplier impl cfg consumer x ctx w = (Panic p, w\<lparr>tw_user := u1\<rparr>)"
        by (intro attempt_supplier_panics) simp
      with run q assms(1,2) Panic Pair show ?thesis
        by (simp add: attempt_choices_def attempt_end_def stage_eval)
    next
      case (Ret err)
      with Pair q have sup: "attempt_supplier impl cfg consumer x ctx w =
          (case attempt_callback impl cfg x ctx x err (w\<lparr>tw_user := u1\<rparr>) of
             (Panic p, v) \<Rightarrow> (Panic p, v) | (Ret _, v) \<Rightarrow> (Ret ((), err), v))"
        by (intro attempt_supplier_returns) simp
      show ?thesis
      proof (cases err)
        case None
        with run q assms(1,2) Pair Ret sup show ?thesis
          by (simp add: attempt_choices_def attempt_end_def stage_eval attempt_callback_None)
      next
        case (Some e)
        have n: "NumRequeues x (snd (cq_Done x (sq s))) = NumRequeues x (sq s)"
          by (simp add: NumRequeues_def)
        show ?thesis
        proof (cases "logError cfg ctx e u1")
          case log: (Pair o1 u2)
          show ?thesis
            using run q assms(1,2) Pair Ret sup Some log n
            by (cases o1) (simp_all add: attempt_choices_def attempt_end_def stage_eval
                attempt_callback_Some AddRateLimited_def dq_When_def split_beta)
        qed
      qed
    qed
  qed
qed

text \<open>A consumer that fails, with at most one requeue.\<close>

theorem task_run_refines_stages_witness:
  "\<exists>s t :: (string, string) submitter.
     run (Item_Submitter.sexec (\<lambda>_. 0) (sample_config 1)) NewDefaultItemSubmitter
       [SubmitItem ''k'', Pull, Pull] = Some s
     \<and> run (Item_Submitter.sexec (\<lambda>_. 0) (sample_config 1)) s (map (Task 0)
       [ConsumerReturns (Some ''e''), GoOn, GoOn, GoOn, LoggerReturns, GoOn, ReadClock 0]) = Some t
     \<and> reports t = [(''k'', Some ''e'')] \<and> tasks t = [Ended]"
proof -
  obtain s :: "(string, string) submitter" where s:
    "run (Item_Submitter.sexec (\<lambda>_. 0) (sample_config 1)) NewDefaultItemSubmitter
       [SubmitItem ''k'', Pull, Pull] = Some s"
    "tasks s = [Waiting ''k'']" "reports s = []" "clock (sq s) = 0" "NumRequeues ''k'' (sq s) = 0"
    by (simp add: submitter_eval NumRequeues_def limiter_NumRequeues_def lookup0_def
        NewItemExponentialFailureRateLimiter_def)
  define consumer :: "(unit, unit, string, string, string) consumer" where
    "consumer = (\<lambda>_ _ w. (Ret (Some ''e''), w))"
  obtain wk d w' where compute: "Compute (handle_user (\<lambda>_ p w. (p, w))) () ()
      (NewDefaultComputingFuture (attempt_supplier (\<lambda>_. 0) (sample_config 1) consumer ''k''))
      \<lparr>tw_queue = sq s, tw_reports = reports s, tw_user = ()\<rparr> = (wk, d, w')" by (metis prod_cases3)
  have log: "logError (sample_config 1) = (\<lambda>_ _ w. (Ret (), w))"
    by (simp add: sample_config_def submitter_config_def WithUnlimitedRetries_def WithMaxNumRequeues_def)
  have "tw_reports w' = [(''k'', Some ''e'')]"
    using Compute_attempt(2) [OF compute] s(3)
    by (simp add: attempt_supplier_returns consumer_def attempt_callback_Some log Let_def)
  with task_run_refines_stages [OF _ _ refl compute, of 0] s log show ?thesis
    by (intro exI [of _ s] exI)
      (auto simp: attempt_choices_def attempt_end_def consumer_def gives_up_def sample_config_simps)
qed

end
