(* ===== verification/Submitter_Progress.thy ===== *)
theory Submitter_Progress
  imports Item_Submitter
begin

text \<open>
  The item submitter gets its work done. Its own steps (pulling, the stages of the tasks, the timer
  callbacks) all lower a rank as long as no consumer returns an error, so that they come to rest; at
  rest every task has ended and the only items left waiting are those blocked by a consumer that
  panicked. Submissions, the passing of time, the cancellation and an error of a consumer are the
  environment's.
\<close>

fun stage_rank :: "('a, 'e) stage \<Rightarrow> nat" where
  "stage_rank (Waiting _) = 4"
| "stage_rank (Returned _ None) = 3"
| "stage_rank (Returned _ (Some _)) = 16"
| "stage_rank (Reported _ None) = 2"
| "stage_rank (Reported _ (Some _)) = 15"
| "stage_rank (Handling _ _) = 14"
| "stage_rank (Logging _ _) = 13"
| "stage_rank (Requeuing _) = 12"
| "stage_rank (Delaying _ _) = 11"
| "stage_rank (Resetting _) = 1"
| "stage_rank _ = 0"

fun puller_rank :: "'a puller \<Rightarrow> nat" where
  "puller_rank (Submitting _) = 6"
| "puller_rank Pulling = 1"
| "puller_rank PullerStopped = 0"

fun timer_rank :: "timer_status \<Rightarrow> nat" where
  "timer_rank Pending = 10"
| "timer_rank Fired = 9"
| "timer_rank Adding = 8"
| "timer_rank Leaving = 1"
| "timer_rank _ = 0"

definition queue_rank :: "'a dq \<Rightarrow> nat" where
  "queue_rank q = 6 * fcard (dirty q) + sum_list (map (\<lambda>d. timer_rank (timer d)) (entries q))"

definition sub_rank :: "('a, 'e) submitter \<Rightarrow> nat" where
  "sub_rank s = queue_rank (sq s) + sum_list (map stage_rank (tasks s)) + puller_rank (puller s)"

fun sub_internal :: "('a, 'e) sact \<Rightarrow> bool" where
  "sub_internal Pull = True"
| "sub_internal (Task _ (ConsumerReturns (Some _))) = False"
| "sub_internal (Task _ _) = True"
| "sub_internal (QueueTimer (ActTick _)) = False"
| "sub_internal (QueueTimer _) = True"
| "sub_internal _ = False"

definition sub_at_rest ::
  "(float64 \<Rightarrow> int) \<Rightarrow> ('ctx, 'w, 'e, 'p, 'tag) ItemSubmitterConfig \<Rightarrow> ('a, 'e) submitter \<Rightarrow> bool" where
  "sub_at_rest impl config s \<longleftrightarrow> (\<forall>a t. sub_internal a \<longrightarrow> sexec impl config s a \<noteq> Some t)"

section \<open>The rank of the queue\<close>

lemma queue_rank_Add: "queue_rank (snd (cq_Add x q)) \<le> queue_rank q + 6"
  by (simp add: queue_rank_def cq_Add_def Let_def set_op_defs fcard_finsert_if)

lemma queue_rank_Done [simp]: "queue_rank (snd (cq_Done x q)) = queue_rank q"
  by (simp add: queue_rank_def)

lemma queue_rank_limiter [simp]:
  "queue_rank (ResetRateLimit x q) = queue_rank q" "queue_rank (snd (dq_When impl x q)) = queue_rank q"
  by (simp_all add: queue_rank_def ResetRateLimit_def snd_dq_When)

lemma queue_rank_set_timer:
  "e < length (entries q) \<Longrightarrow>
   queue_rank (set_timer e st q) + timer_rank (timer (entries q ! e)) = queue_rank q + timer_rank st"
  using sum_list_map_update [of e "entries q" "\<lambda>d. timer_rank (timer d)" "(entries q ! e)\<lparr>timer := st\<rparr>"]
  by (simp add: queue_rank_def set_timer_def)

lemma queue_rank_fields [simp]:
  "queue_rank (wg_add n q) = queue_rank q" "queue_rank (q\<lparr>delayedEntries := D\<rparr>) = queue_rank q"
  by (simp_all add: queue_rank_def wg_add_def)

lemma queue_rank_stop: "e < length (entries q) \<Longrightarrow> queue_rank (stop_timer e q) \<le> queue_rank q"
  using queue_rank_set_timer [of e q Stopped] by (simp add: stop_timer_def)

lemma queue_rank_start [simp]: "queue_rank (start_entry x r d q) = queue_rank q + 10"
  by (simp add: queue_rank_def)

lemma queue_rank_AddAfter:
  assumes "d_inv q"
  shows "queue_rank (snd (AddAfter x d t0 q)) \<le> queue_rank q + 10"
proof (cases "d \<le> 0")
  case True
  with queue_rank_Add [of x q] show ?thesis by (simp add: AddAfter_def)
next
  case False
  have "e < length (entries q)" if "delayedEntries q x = Some e" for e
    using assms that entries_ok_reg by (force simp: d_inv_def)
  with False queue_rank_stop [of _ q] show ?thesis
    by (auto simp: AddAfter_def AddAfter_locked_def Let_def split: option.split)
qed

lemma queue_rank_timer:
  assumes "dexec impl q a = Some q'" and "timer_action a" and "\<forall>d. a \<noteq> ActTick d"
  shows "queue_rank q' < queue_rank q"
proof -
  have st: "e < length (entries q) \<and> timer (entries q ! e) = st" if "status q e = Some st" for e st
    using that by (simp add: status_def split: if_splits)
  show ?thesis
  proof (cases a)
    case (ActFire e)
    with assms have "status q e = Some Pending" "q' = set_timer e Fired q" by (auto split: if_splits)
    with st queue_rank_set_timer [of e q Fired] show ?thesis by force
  next
    case (ActCallbackLock e)
    with assms have f: "status q e = Some Fired" "q' = callback_locked e q" by (auto split: if_splits)
    from st [OF f(1)] have e: "e < length (entries q)" "timer (entries q ! e) = Fired" by simp_all
    let ?q = "q\<lparr>delayedEntries := (delayedEntries q)(item_of (entries q ! e) := None)\<rparr>"
    have "queue_rank (set_timer e Adding ?q) + 9 = queue_rank q + 8"
      using queue_rank_set_timer [of e ?q Adding] e by simp
    moreover have "queue_rank (set_timer e Leaving q) + 9 = queue_rank q + 1"
      using queue_rank_set_timer [of e q Leaving] e by simp
    ultimately show ?thesis unfolding f(2) callback_locked_def Let_def by simp
  next
    case (ActCallbackAdd e)
    with assms have f: "status q e = Some Adding" "q' = snd (callback_add e q)" by (auto split: if_splits)
    from st [OF f(1)] have e: "e < length (entries q)" "timer (entries q ! e) = Adding" by simp_all
    let ?q = "snd (cq_Add (item_of (entries q ! e)) q)"
    have "queue_rank (set_timer e Leaving ?q) + 8 = queue_rank ?q + 1"
      using queue_rank_set_timer [of e ?q Leaving] e by simp
    with queue_rank_Add [of "item_of (entries q ! e)" q] show ?thesis
      unfolding f(2) snd_callback_add by simp
  next
    case (ActCallbackLeave e)
    with assms have f: "status q e = Some Leaving" "q' = callback_leave e q" by (auto split: if_splits)
    with st [OF f(1)] queue_rank_set_timer [of e q Finished] show ?thesis by (simp add: callback_leave_def)
  qed (use assms in auto)
qed

section \<open>Every internal step lowers the rank\<close>

lemma sub_rank_task:
  assumes "i < length (tasks s)" and "queue_rank q + stage_rank st < queue_rank (sq s) + stage_rank (tasks s ! i)"
  shows "sub_rank (s\<lparr>sq := q, tasks := (tasks s)[i := st], reports := r\<rparr>) < sub_rank s"
  using assms(2) sum_list_map_update [OF assms(1), of stage_rank st] by (simp add: sub_rank_def)

lemma callback_step_rank:
  assumes q: "d_inv (sq s)" and i: "i < length (tasks s)" and step: "callback_step impl config i ch s = Some t"
    and ch: "\<forall>e. ch \<noteq> ConsumerReturns (Some e)"
  shows "sub_rank t < sub_rank s"
proof -
  have "queue_rank (sq t) + stage_rank (tasks t ! i) < queue_rank (sq s) + stage_rank (tasks s ! i)"
    using i step
  proof (cases rule: callback_step_cases)
    case (delay x d t0)
    with queue_rank_AddAfter [OF q, of x d t0] show ?thesis by simp
  next
    case (report x err)
    then show ?thesis by (cases err) simp_all
  qed (use ch in \<open>auto split: option.splits\<close>)
  from sub_rank_task [OF i this] show ?thesis by (subst callback_step_form [OF i step])
qed

lemma pull_rank:
  assumes q: "d_inv (sq s)" and step: "pull s = Some t"
  shows "sub_rank t < sub_rank s"
  using step
proof (cases rule: pull_cases)
  case (get x rest)
  with q have "x |\<in>| dirty (sq s)" using cq_inv_mem [of "sq s" x] by (simp add: d_inv_def)
  then have "fcard (dirty (sq s) |-| {|x|}) + 1 = fcard (dirty (sq s))"
    by (metis Suc_eq_plus1 fcard_Suc_fminus1)
  moreover have "dirty (sq t) = dirty (sq s) |-| {|x|}" "entries (sq t) = entries (sq s)"
    using get by (simp_all add: cq_Get_Cons_Get)
  ultimately show ?thesis using get by (simp add: sub_rank_def queue_rank_def)
qed (simp_all add: sub_rank_def)


lemma sexec_rank:
  assumes q: "d_inv (sq s)" and step: "sexec impl config s a = Some t" and int: "sub_internal a"
  shows "sub_rank t < sub_rank s"
proof (cases a)
  case Pull
  with step pull_rank [OF q] show ?thesis by (simp add: sexec.simps)
next
  case (Task i ch)
  with step have "i < length (tasks s)" "callback_step impl config i ch s = Some t"
    by (simp_all add: sexec.simps split: if_splits)
  moreover from Task int have "\<forall>e. ch \<noteq> ConsumerReturns (Some e)" by auto
  ultimately show ?thesis by (rule callback_step_rank [OF q])
next
  case (QueueTimer b)
  with step obtain q' where b: "timer_action b" "dexec impl (sq s) b = Some q'" "t = s\<lparr>sq := q'\<rparr>"
    by (auto simp: sexec.simps split: if_splits simp del: dexec.simps)
  moreover from QueueTimer int have "\<forall>d. b \<noteq> ActTick d" by auto
  ultimately have "queue_rank q' < queue_rank (sq s)" by (intro queue_rank_timer)
  with b(3) show ?thesis by (simp add: sub_rank_def)
qed (use int in simp_all)

lemma sub_inv_both_step:
  "sexec impl config s a = Some t \<Longrightarrow> sub_inv s \<and> d_inv (sq s) \<Longrightarrow> sub_inv t \<and> d_inv (sq t)"
  using sexec_inv [of s impl config a t] sexec_embeds [of s impl config a t] by (auto intro: d_inv_step)

lemma sub_inv_both_init: "sinit s \<Longrightarrow> sub_inv s \<and> d_inv (sq s)"
  using sub.init_embeds [of s] by (auto intro: d_inv_init)

interpretation sp: ranked_system sinit "by_exec (sexec impl config)" "\<lambda>s. sub_inv s \<and> d_inv (sq s)"
  sub_internal sub_rank
  by unfold_locales (auto simp: by_exec_def intro: sexec_rank dest: sub_inv_both_init
      sub_inv_both_step [OF _ conjI])

section \<open>At rest\<close>

fun is_lost :: "('a, 'e) stage \<Rightarrow> bool" where
  "is_lost (Lost _) = True"
| "is_lost _ = False"

fun is_over :: "('a, 'e) stage \<Rightarrow> bool" where
  "is_over Ended = True"
| "is_over Aborted = True"
| "is_over (Lost _) = True"
| "is_over _ = False"

text \<open>A task that is not over has an internal step.\<close>

lemma task_has_step:
  assumes "i < length (tasks s)" and "\<not> is_over (tasks s ! i)"
  shows "\<exists>ch t. sub_internal (Task i ch) \<and> sexec impl config s (Task i ch) = Some t"
proof (cases "tasks s ! i")
  case (Waiting x)
  with assms(1) show ?thesis
    by (intro exI [of _ "ConsumerReturns None"]) (simp add: sexec.simps callback_step_def Let_def)
next
  case (Logging x n)
  with assms(1) show ?thesis
    by (intro exI [of _ LoggerReturns]) (simp add: sexec.simps callback_step_def Let_def)
next
  case (Delaying x d)
  with assms(1) show ?thesis
    by (intro exI [of _ "ReadClock (clock (sq s))"]) (simp add: sexec.simps callback_step_def Let_def)
qed (use assms in \<open>auto intro!: exI [of _ GoOn] simp: sexec.simps callback_step_def Let_def split: prod.split\<close>)

lemma rest_tasks_over:
  assumes "sub_at_rest impl config s" and "st \<in> set (tasks s)"
  shows "is_over st"
proof (rule ccontr)
  assume "\<not> is_over st"
  with assms(2) obtain i where "i < length (tasks s)" "\<not> is_over (tasks s ! i)"
    by (auto simp: in_set_conv_nth)
  from task_has_step [OF this] assms(1) show False unfolding sub_at_rest_def by blast
qed

lemma rest_puller:
  assumes "sub_at_rest impl config s"
  shows "puller s = PullerStopped \<or> puller s = Pulling \<and> queue (sq s) = []"
proof (rule ccontr)
  assume "\<not> ?thesis"
  then have "pull s \<noteq> None"
    by (cases "puller s"; cases "queue (sq s)") (auto simp: pull_def cq_Get_Cons_Get)
  then obtain t where "sexec impl config s Pull = Some t" by (auto simp: sexec.simps)
  with assms show False unfolding sub_at_rest_def by (metis sub_internal.simps(1))
qed

lemma rest_timers:
  assumes "sub_at_rest impl config s" and "status (sq s) e = Some st"
  shows "st = Pending \<or> st = Stopped \<or> st = Finished"
proof (rule ccontr)
  assume "\<not> ?thesis"
  then have "st = Fired \<or> st = Adding \<or> st = Leaving" by (cases st) simp_all
  then have "\<exists>b t. sub_internal (QueueTimer b) \<and> sexec impl config s (QueueTimer b) = Some t"
  proof (elim disjE)
    assume "st = Fired"
    with assms(2) show ?thesis by (intro exI [of _ "ActCallbackLock e"]) (simp add: sexec.simps)
  next
    assume "st = Adding"
    with assms(2) show ?thesis by (intro exI [of _ "ActCallbackAdd e"]) (simp add: sexec.simps)
  next
    assume "st = Leaving"
    with assms(2) show ?thesis by (intro exI [of _ "ActCallbackLeave e"]) (simp add: sexec.simps)
  qed
  with assms(1) show False unfolding sub_at_rest_def by blast
qed

lemma rest_dirty:
  assumes rest: "sub_at_rest impl config s" and inv: "sub_inv s" "d_inv (sq s)"
    and going: "puller s \<noteq> PullerStopped" and x: "x |\<in>| dirty (sq s)"
  shows "Lost x \<in> set (tasks s)"
proof -
  from rest_puller [OF rest] going have pul: "puller s = Pulling" and "queue (sq s) = []" by auto
  with inv(2) x have "x |\<in>| processing (sq s)" using cq_inv_mem [of "sq s" x] by (simp add: d_inv_def)
  with inv(1) pul obtain st where st: "st \<in> set (tasks s)" "x \<in> set (held st)"
    by (auto simp: sub_inv_def holding_def)
  with rest_tasks_over [OF rest st(1)] show ?thesis by (cases st) auto
qed

section \<open>Property\<close>

text \<open>
  Left alone with consumers that return no further error, the submitter comes to rest: its
  steps are bounded by the rank and can be continued until none is left. Then every task is over,
  no timer callback is under way, and, unless the puller has stopped for the shutdown, an item
  that is still marked as submitted is one on which the consumer panicked.
\<close>

theorem submitter_comes_to_rest:
  assumes "reach sinit (by_exec (sexec impl config)) s"
  shows "(\<forall>as t. path (by_exec (sexec impl config)) s as t \<and> (\<forall>a \<in> set as. sub_internal a)
        \<longrightarrow> length as \<le> sub_rank s)
    \<and> (\<exists>as t. path (by_exec (sexec impl config)) s as t \<and> (\<forall>a \<in> set as. sub_internal a)
        \<and> sub_at_rest impl config t)
    \<and> (\<forall>as t. path (by_exec (sexec impl config)) s as t \<and> sub_at_rest impl config t
        \<longrightarrow> list_all is_over (tasks t)
          \<and> (\<forall>e. status (sq t) e \<notin> {Some Fired, Some Adding, Some Leaving})
          \<and> (puller t \<noteq> PullerStopped \<longrightarrow> (\<forall>x. x |\<in>| dirty (sq t) \<longrightarrow> Lost x \<in> set (tasks t))))"
proof (intro conjI allI impI)
  have inv: "sub_inv s \<and> d_inv (sq s)" using assms by (rule sp.inv_reach)
  show "length as \<le> sub_rank s"
    if "path (by_exec (sexec impl config)) s as t \<and> (\<forall>a \<in> set as. sub_internal a)" for as t
    using sp.internal_path_bounded [OF conjunct1 [OF that] inv conjunct2 [OF that]] by simp
  show "\<exists>as t. path (by_exec (sexec impl config)) s as t \<and> (\<forall>a \<in> set as. sub_internal a)
      \<and> sub_at_rest impl config t"
    using sp.comes_to_rest [OF inv, of impl config] by (simp add: sub_at_rest_def by_exec_def)
  fix as t assume t: "path (by_exec (sexec impl config)) s as t \<and> sub_at_rest impl config t"
  then have rest: "sub_at_rest impl config t" and inv': "sub_inv t" "d_inv (sq t)"
    using sp.inv_path [OF conjunct1 [OF t] inv] by simp_all
  show "list_all is_over (tasks t)" using rest_tasks_over [OF rest] by (simp add: list_all_iff)
  show "status (sq t) e \<notin> {Some Fired, Some Adding, Some Leaving}" for e
    using rest_timers [OF rest, of e] by auto
  show "Lost x \<in> set (tasks t)" if "puller t \<noteq> PullerStopped" "x |\<in>| dirty (sq t)" for x
    by (rule rest_dirty [OF rest inv' that])
qed

theorem submitter_comes_to_rest_witness:
  "\<exists>s t :: (string, string) submitter. reach sinit (by_exec (sexec (\<lambda>_. 0) (sample_config 1))) s
     \<and> tasks s = [Lost ''k'', Reported ''l'' (Some ''e'')]
     \<and> (\<exists>as. path (by_exec (sexec (\<lambda>_. 0) (sample_config 1))) s as t) \<and> list_all is_over (tasks t)"
proof -
  obtain s :: "(string, string) submitter" where s: "reach sinit (by_exec (sexec (\<lambda>_. 0) (sample_config 1))) s"
    "tasks s = [Lost ''k'', Reported ''l'' (Some ''e'')]"
    using two_items_reach by metis
  from submitter_comes_to_rest [OF s(1)] obtain as t where
    "path (by_exec (sexec (\<lambda>_. 0) (sample_config 1))) s as t" "list_all is_over (tasks t)" by metis
  with s show ?thesis by blast
qed

end
