(* ===== verification/Retry_Progress.thy ===== *)
theory Retry_Progress
  imports Submitter_Progress
begin

text \<open>
  With limited retries the item submitter finishes whatever its consumers return. The work in it is
  made of tokens: an item marked as submitted, an item on its way to the pool, a task that is not
  over, a timer that is still to add its item. No step of the submitter makes tokens out of
  nothing: a requeue turns a task into a timer, a timer turns into a submitted item, and so on. What a
  token still costs depends on the requeues its item has left; the callback that forgets them
  (\<open>ResetRateLimit\<close>) uses up its own token. So the pair of the number of tokens and of what they cost
  falls lexicographically with every step. The passing of time is an idle step.
\<close>

section \<open>Tokens\<close>

fun stage_tokens :: "('a, 'e) stage \<Rightarrow> nat" where
  "stage_tokens st = (if is_over st then 0 else 1)"

fun timer_tokens :: "timer_status \<Rightarrow> nat" where
  "timer_tokens Pending = 1"
| "timer_tokens Fired = 1"
| "timer_tokens Adding = 1"
| "timer_tokens _ = 0"

fun puller_tokens :: "'a puller \<Rightarrow> nat" where
  "puller_tokens (Submitting _) = 1"
| "puller_tokens _ = 0"

definition queue_tokens :: "'a dq \<Rightarrow> nat" where
  "queue_tokens q = fcard (dirty q) + sum_list (map (\<lambda>d. timer_tokens (timer d)) (entries q))"

definition tokens :: "('a, 'e) submitter \<Rightarrow> nat" where
  "tokens s = queue_tokens (sq s) + sum_list (map stage_tokens (tasks s)) + puller_tokens (puller s)"

section \<open>Costs\<close>

text \<open>\<open>b x\<close>: the requeues item \<open>x\<close> has left. A logged failure that will be requeued has paid for one.\<close>

definition requeues_left :: "('ctx, 'w, 'e, 'p, 'tag) ItemSubmitterConfig \<Rightarrow> 'a dq \<Rightarrow> 'a \<Rightarrow> nat" where
  "requeues_left config q x = nat (maxNumRequeues config - NumRequeues x q)"

fun stage_cost ::
  "('ctx, 'w, 'e, 'p, 'tag) ItemSubmitterConfig \<Rightarrow> ('a \<Rightarrow> nat) \<Rightarrow> ('a, 'e) stage \<Rightarrow> nat" where
  "stage_cost config b (Waiting x) = 20 * b x + 8"
| "stage_cost config b (Returned x _) = 20 * b x + 7"
| "stage_cost config b (Reported x _) = 20 * b x + 6"
| "stage_cost config b (Handling x _) = 20 * b x + 5"
| "stage_cost config b (Logging x n) = (if gives_up config n then 20 * b x + 4 else 20 * (b x - 1) + 22)"
| "stage_cost config b (Requeuing x) = 20 * (b x - 1) + 21"
| "stage_cost config b (Delaying x _) = 20 * b x + 20"
| "stage_cost config b (Resetting x) = 20 * b x + 1"
| "stage_cost config b _ = 0"

fun timer_cost :: "nat \<Rightarrow> timer_status \<Rightarrow> nat" where
  "timer_cost b Pending = 20 * b + 19"
| "timer_cost b Fired = 20 * b + 18"
| "timer_cost b Adding = 20 * b + 17"
| "timer_cost b Leaving = 1"
| "timer_cost b _ = 0"

fun puller_cost :: "('a \<Rightarrow> nat) \<Rightarrow> 'a puller \<Rightarrow> nat" where
  "puller_cost b (Submitting x) = 20 * b x + 11"
| "puller_cost b Pulling = 1"
| "puller_cost b PullerStopped = 0"

definition queue_cost :: "('a \<Rightarrow> nat) \<Rightarrow> 'a dq \<Rightarrow> nat" where
  "queue_cost b q = (\<Sum>x \<in> fset (dirty q). 20 * b x + 14)
     + sum_list (map (\<lambda>d. timer_cost (b (item_of d)) (timer d)) (entries q))"

definition cost ::
  "('ctx, 'w, 'e, 'p, 'tag) ItemSubmitterConfig \<Rightarrow> ('a \<Rightarrow> nat) \<Rightarrow> ('a, 'e) submitter \<Rightarrow> nat" where
  "cost config b s = queue_cost b (sq s) + sum_list (map (stage_cost config b) (tasks s))
     + puller_cost b (puller s)"

definition retry_measure ::
  "('ctx, 'w, 'e, 'p, 'tag) ItemSubmitterConfig \<Rightarrow> ('a, 'e) submitter \<Rightarrow> nat \<times> nat" where
  "retry_measure config s = (tokens s, cost config (requeues_left config (sq s)) s)"

definition falls :: "((nat \<times> nat) \<times> (nat \<times> nat)) set" where
  "falls = less_than <*lex*> less_than"

lemma falls_iff: "((m, c), (n, d)) \<in> falls \<longleftrightarrow> m < n \<or> m = n \<and> c < d"
  by (auto simp: falls_def)

lemma wf_falls: "wf falls"
  unfolding falls_def by (intro wf_lex_prod wf_less_than)

text \<open>Fewer requeues left never cost more.\<close>

lemma stage_cost_mono: "(\<And>x. b x \<le> c x) \<Longrightarrow> stage_cost config b st \<le> stage_cost config c st"
  by (cases st) (auto intro: diff_le_mono)

lemma queue_cost_mono:
  assumes "\<And>x. b x \<le> c x"
  shows "queue_cost b q \<le> queue_cost c q"
proof -
  have "timer_cost (b x) st \<le> timer_cost (c x) st" for x st
    using assms [of x] by (cases st) simp_all
  then show ?thesis unfolding queue_cost_def
    using assms by (intro add_mono sum_mono sum_list_mono) (simp_all add: assms)
qed

lemma tasks_cost_mono:
  "(\<And>x. b x \<le> c x) \<Longrightarrow> sum_list (map (stage_cost config b) ts) \<le> sum_list (map (stage_cost config c) ts)"
  by (intro sum_list_mono stage_cost_mono)

lemma puller_cost_mono: "(\<And>x. b x \<le> c x) \<Longrightarrow> puller_cost b p \<le> puller_cost c p"
  by (cases p) simp_all

section \<open>The operations of the queue\<close>

text \<open>An operation that brings one token, of cost \<open>v\<close> at most, or none.\<close>

definition brings :: "('a \<Rightarrow> nat) \<Rightarrow> nat \<Rightarrow> 'a dq \<Rightarrow> 'a dq \<Rightarrow> bool" where
  "brings b v q q' \<longleftrightarrow> queue_tokens q' \<le> queue_tokens q
     \<or> queue_tokens q' = Suc (queue_tokens q) \<and> queue_cost b q' \<le> queue_cost b q + v"

lemma brings_nothing [simp]: "brings b v q q"
  by (simp add: brings_def)

lemma queue_measure_fields [simp]:
  "queue_tokens (wg_add n q) = queue_tokens q" "queue_cost b (wg_add n q) = queue_cost b q"
  "queue_tokens (q\<lparr>delayedEntries := D\<rparr>) = queue_tokens q" "queue_cost b (q\<lparr>delayedEntries := D\<rparr>) = queue_cost b q"
  "queue_tokens (q\<lparr>clock := t\<rparr>) = queue_tokens q" "queue_cost b (q\<lparr>clock := t\<rparr>) = queue_cost b q"
  "queue_tokens (ResetRateLimit x q) = queue_tokens q" "queue_cost b (ResetRateLimit x q) = queue_cost b q"
  "queue_tokens (snd (dq_When impl x q)) = queue_tokens q" "queue_cost b (snd (dq_When impl x q)) = queue_cost b q"
  "queue_tokens (snd (cq_Done x q)) = queue_tokens q" "queue_cost b (snd (cq_Done x q)) = queue_cost b q"
  by (simp_all add: queue_tokens_def queue_cost_def wg_add_def ResetRateLimit_def snd_dq_When)

lemma brings_Add: "brings b (20 * b x + 14) q (snd (cq_Add x q))"
proof (cases "shuttingDown q \<or> x |\<in>| dirty q")
  case True
  then have "snd (cq_Add x q) = q" by (auto simp: cq_Add_def Let_def set_op_defs)
  then show ?thesis by simp
next
  case False
  then have "dirty (snd (cq_Add x q)) = finsert x (dirty q)"
    by (simp add: cq_Add_def Let_def set_op_defs)
  with False show ?thesis
    by (simp add: brings_def queue_tokens_def queue_cost_def fcard_finsert_if)
qed

lemma queue_set_timer:
  assumes "e < length (entries q)"
  shows "queue_tokens (set_timer e st q) + timer_tokens (timer (entries q ! e)) = queue_tokens q + timer_tokens st"
    and "queue_cost b (set_timer e st q) + timer_cost (b (item_of (entries q ! e))) (timer (entries q ! e)) =
      queue_cost b q + timer_cost (b (item_of (entries q ! e))) st"
  using sum_list_map_update [OF assms, of "\<lambda>d. timer_tokens (timer d)" "(entries q ! e)\<lparr>timer := st\<rparr>"]
    sum_list_map_update [OF assms, of "\<lambda>d. timer_cost (b (item_of d)) (timer d)" "(entries q ! e)\<lparr>timer := st\<rparr>"]
  by (simp_all add: queue_tokens_def queue_cost_def set_timer_def)

lemma queue_start_entry:
  "queue_tokens (start_entry x r d q) = Suc (queue_tokens q)"
  "queue_cost b (start_entry x r d q) = queue_cost b q + 20 * b x + 19"
  by (simp_all add: start_entry_def queue_tokens_def queue_cost_def wg_add_def Let_def)

lemma queue_stop_timer:
  assumes "e < length (entries q)"
  shows "stop_timer e q = q \<or> queue_tokens (stop_timer e q) < queue_tokens q"
  using queue_set_timer(1) [OF assms, of Stopped] by (auto simp: stop_timer_def)

lemma brings_AddAfter:
  assumes "d_inv q"
  shows "brings b (20 * b x + 19) q (snd (AddAfter x d t0 q))"
proof (cases "d \<le> 0")
  case True
  with brings_Add [of b x q] show ?thesis by (auto simp: AddAfter_def brings_def)
next
  case False
  have reg: "e < length (entries q)" if "delayedEntries q x = Some e" for e
    using assms that entries_ok_reg by (force simp: d_inv_def)
  have new: "brings b (20 * b x + 19) q (start_entry x r d q)" for r
    by (simp add: brings_def queue_start_entry)
  have replaced: "brings b (20 * b x + 19) q (start_entry x r d (stop_timer e q))"
    if "delayedEntries q x = Some e" for r e
    using queue_stop_timer [OF reg [OF that]] new [of r]
    by (auto simp: brings_def queue_start_entry)
  from False new replaced show ?thesis
    by (auto simp: AddAfter_def AddAfter_locked_def Let_def split: option.split)
qed

definition queue_falls :: "('a \<Rightarrow> nat) \<Rightarrow> 'a dq \<Rightarrow> 'a dq \<Rightarrow> bool" where
  "queue_falls b q q' \<longleftrightarrow> queue_tokens q' < queue_tokens q
     \<or> queue_tokens q' = queue_tokens q \<and> queue_cost b q' < queue_cost b q"

lemma queue_falls_timer:
  assumes "dexec impl q a = Some q'" and "timer_action a" and "\<forall>d. a \<noteq> ActTick d"
  shows "queue_falls b q q' \<and> rateLimiter q' = rateLimiter q"
proof -
  have st: "e < length (entries q) \<and> timer (entries q ! e) = st" if "status q e = Some st" for e st
    using that by (simp add: status_def split: if_splits)
  have rl: "rateLimiter (set_timer e st' q1) = rateLimiter q1" for e st' and q1 :: "'a dq"
    by (simp add: set_timer_def)
  show ?thesis
  proof (cases a)
    case (ActFire e)
    with assms have f: "status q e = Some Pending" "q' = set_timer e Fired q" by (auto split: if_splits)
    with st [OF f(1)] queue_set_timer(1) [of e q Fired] queue_set_timer(2) [of e q b Fired] rl show ?thesis by (simp add: queue_falls_def)
  next
    case (ActCallbackLock e)
    with assms have f: "status q e = Some Fired" "q' = callback_locked e q" by (auto split: if_splits)
    from st [OF f(1)] have e: "e < length (entries q)" "timer (entries q ! e) = Fired" by simp_all
    let ?q = "q\<lparr>delayedEntries := (delayedEntries q)(item_of (entries q ! e) := None)\<rparr>"
    show ?thesis
      using queue_set_timer(1) [of e ?q Adding] queue_set_timer(2) [of e ?q b Adding] queue_set_timer(1) [of e q Leaving] queue_set_timer(2) [of e q b Leaving] e
      by (auto simp: f(2) callback_locked_def Let_def rl queue_falls_def)
  next
    case (ActCallbackAdd e)
    with assms have f: "status q e = Some Adding" "q' = snd (callback_add e q)" by (auto split: if_splits)
    from st [OF f(1)] have e: "e < length (entries q)" "timer (entries q ! e) = Adding" by simp_all
    let ?x = "item_of (entries q ! e)"
    let ?q = "snd (cq_Add ?x q)"
    show ?thesis
      using queue_set_timer(1) [of e ?q Leaving] queue_set_timer(2) [of e ?q b Leaving] brings_Add [of b ?x q] e
      by (auto simp: f(2) snd_callback_add rl queue_falls_def brings_def)
  next
    case (ActCallbackLeave e)
    with assms have f: "status q e = Some Leaving" "q' = callback_leave e q" by (auto split: if_splits)
    with st [OF f(1)] queue_set_timer(1) [of e q Finished] queue_set_timer(2) [of e q b Finished] show ?thesis
      by (simp add: callback_leave_def queue_falls_def wg_add_def) (simp add: set_timer_def queue_tokens_def queue_cost_def)
  qed (use assms in auto)
qed

section \<open>The steps of a task\<close>

lemma task_measure:
  fixes q :: "'a dq" and st :: "('a, 'e) stage" and r :: "('a \<times> 'e option) list"
  assumes "i < length (tasks s)"
  defines "t \<equiv> s\<lparr>sq := q, tasks := (tasks s)[i := st], reports := r\<rparr>"
  shows "tokens t + stage_tokens (tasks s ! i) + queue_tokens (sq s) = tokens s + stage_tokens st + queue_tokens q"
    and "cost config b t + stage_cost config b (tasks s ! i) + queue_cost b (sq s) =
      cost config b s + stage_cost config b st + queue_cost b q"
  using sum_list_map_update [OF assms(1), of stage_tokens st]
    sum_list_map_update [OF assms(1), of "stage_cost config b" st]
  by (simp_all add: tokens_def cost_def t_def del: stage_tokens.simps)

text \<open>
  A task that only changes its stage, for one that costs less, or that ends and leaves one token
  of less cost in the queue.
\<close>

lemma task_falls:
  assumes i: "i < length (tasks s)" and same: "rateLimiter q = rateLimiter (sq s)"
    and change: "\<not> is_over (tasks s ! i) \<and>
      (is_over st \<and> (\<exists>v. brings (requeues_left config (sq s)) v (sq s) q
          \<and> v < stage_cost config (requeues_left config (sq s)) (tasks s ! i))
       \<or> \<not> is_over st \<and> queue_tokens q = queue_tokens (sq s)
          \<and> queue_cost (requeues_left config (sq s)) q = queue_cost (requeues_left config (sq s)) (sq s)
          \<and> stage_cost config (requeues_left config (sq s)) st
              < stage_cost config (requeues_left config (sq s)) (tasks s ! i))"
  shows "(retry_measure config (s\<lparr>sq := q, tasks := (tasks s)[i := st], reports := r\<rparr>),
      retry_measure config s) \<in> falls"
proof -
  have b: "requeues_left config q = requeues_left config (sq s)"
    using NumRequeues_cong [OF same] by (simp add: requeues_left_def fun_eq_iff)
  note m = task_measure [OF i, where q = q and st = st and r = r]
    task_measure(2) [OF i, where q = q and st = st and r = r and config = config
      and b = "requeues_left config (sq s)"]
  have zero: "is_over st \<Longrightarrow> stage_cost config c st = 0" for c by (cases st) simp_all
  from change show ?thesis
    using m zero [of "requeues_left config (sq s)"]
    by (auto simp: retry_measure_def falls_iff b brings_def)
qed

lemma NumRequeues_When:
  assumes "0 \<le> NumRequeues x q" and "NumRequeues x q + 1 < 2 ^ 63"
  shows "NumRequeues y (snd (dq_When impl x q)) = NumRequeues y q + (if y = x then 1 else 0)"
  using When_NumRequeues [of x "rateLimiter q" impl] When_other [of y x impl "rateLimiter q"] assms
  by (simp add: NumRequeues_def snd_dq_When)

lemma When_requeues:
  assumes "0 \<le> NumRequeues x q" and "NumRequeues x q + 1 < 2 ^ 63"
  shows "requeues_left config (snd (dq_When impl x q)) y =
    (if y = x then requeues_left config q x - 1 else requeues_left config q y)"
  using NumRequeues_When [OF assms, of y impl] by (auto simp: requeues_left_def)

lemma requeue_falls:
  assumes i: "i < length (tasks s)" and st: "tasks s ! i = Requeuing x"
    and n: "0 \<le> NumRequeues x (sq s)" "NumRequeues x (sq s) + 1 < 2 ^ 63"
  shows "(retry_measure config (s\<lparr>sq := snd (dq_When impl x (sq s)), tasks := (tasks s)[i := Delaying x d]\<rparr>),
    retry_measure config s) \<in> falls"
proof -
  let ?q = "snd (dq_When impl x (sq s))"
  let ?b = "requeues_left config (sq s)" and ?c = "requeues_left config ?q"
  let ?t = "s\<lparr>sq := ?q, tasks := (tasks s)[i := Delaying x d]\<rparr>"
  have left: "?c y = (if y = x then ?b x - 1 else ?b y)" for y by (rule When_requeues [OF n])
  then have mono: "?c y \<le> ?b y" for y by simp
  have tok: "tokens ?t = tokens s"
    using task_measure(1) [OF i, where st = "Delaying x d" and q = ?q and r = "reports s"] st by simp
  have rest: "sum_list (map (stage_cost config ?c) ((tasks s)[i := Ended])) \<le>
      sum_list (map (stage_cost config ?b) ((tasks s)[i := Ended]))"
    by (rule tasks_cost_mono) (rule mono)
  have "sum_list (map (stage_cost config f) ((tasks s)[i := Delaying x d])) =
      sum_list (map (stage_cost config f) ((tasks s)[i := Ended])) + (20 * f x + 20)" for f
    using sum_list_map_update [of i "(tasks s)[i := Ended]" "stage_cost config f" "Delaying x d"] i by simp
  moreover have "sum_list (map (stage_cost config f) (tasks s)) =
      sum_list (map (stage_cost config f) ((tasks s)[i := Ended])) + (20 * (f x - 1) + 21)" for f
    using sum_list_map_update [OF i, of "stage_cost config f" Ended] st by simp
  ultimately have "sum_list (map (stage_cost config ?c) ((tasks s)[i := Delaying x d])) <
      sum_list (map (stage_cost config ?b) (tasks s))"
    using rest left [of x] by simp
  moreover have "queue_cost ?c ?q \<le> queue_cost ?b (sq s)" "puller_cost ?c (puller s) \<le> puller_cost ?b (puller s)"
    using queue_cost_mono [of ?c ?b "sq s"] puller_cost_mono [of ?c ?b] mono by simp_all
  ultimately show ?thesis by (simp add: retry_measure_def falls_iff tok cost_def)
qed

lemma reset_falls:
  assumes i: "i < length (tasks s)" and st: "tasks s ! i = Resetting x"
  shows "(retry_measure config (s\<lparr>sq := ResetRateLimit x (sq s), tasks := (tasks s)[i := Ended]\<rparr>),
    retry_measure config s) \<in> falls"
  using task_measure(1) [OF i, where st = Ended and q = "ResetRateLimit x (sq s)" and r = "reports s"] st
  by (simp add: retry_measure_def falls_iff)

lemma callback_step_falls:
  assumes q: "d_inv (sq s)" and i: "i < length (tasks s)" and step: "callback_step impl config i ch s = Some t"
    and limited: "\<not> unlimitedRetries config"
    and n: "\<And>x. 0 \<le> NumRequeues x (sq s)" "\<And>x. tasks s ! i = Requeuing x \<Longrightarrow> NumRequeues x (sq s) + 1 < 2 ^ 63"
  shows "(retry_measure config t, retry_measure config s) \<in> falls"
proof -
  let ?b = "requeues_left config (sq s)"
  note form = callback_step_form [OF i step]
  show ?thesis
    using i step
  proof (cases rule: callback_step_cases)
    case (requeue x d)
    with requeue_falls [OF i requeue(1) n(1) n(2) [OF requeue(1)]] show ?thesis by (subst form) simp
  next
    case (reset x)
    with reset_falls [OF i reset(1)] show ?thesis by (subst form) simp
  next
    case (delay x d t0)
    with brings_AddAfter [OF q, of ?b x d t0] show ?thesis
      by (subst form, intro task_falls [OF i]) (auto intro!: exI [of _ "20 * ?b x + 19"])
  next
    case (handle x e)
    have "0 < ?b x" if "\<not> gives_up config (NumRequeues x (sq s))"
      using that limited by (simp add: gives_up_def requeues_left_def)
    with handle show ?thesis by (subst form, intro task_falls [OF i]) auto
  next
    case (finish x err)
    then show ?thesis by (subst form, intro task_falls [OF i]) (auto split: option.split)
  qed (subst form, intro task_falls [OF i], auto intro!: exI [of _ 0])+
qed

section \<open>Every step lowers the measure\<close>

fun retry_internal :: "('a, 'e) sact \<Rightarrow> bool" where
  "retry_internal Pull = True"
| "retry_internal (Task _ _) = True"
| "retry_internal (QueueTimer (ActTick _)) = False"
| "retry_internal (QueueTimer _) = True"
| "retry_internal _ = False"

fun time_passes :: "('a, 'e) sact \<Rightarrow> bool" where
  "time_passes (QueueTimer (ActTick _)) = True"
| "time_passes _ = False"

lemma rateLimiter_Get [simp]: "rateLimiter (snd (cq_Get q)) = rateLimiter q"
  by (cases "queue q") (simp_all add: cq_Get_Nil_Get cq_Get_Cons_Get)

lemma pull_limiter: "pull s = Some t \<Longrightarrow> rateLimiter (sq t) = rateLimiter (sq s)"
  by (erule pull_cases) simp_all

lemma pull_falls:
  assumes q: "d_inv (sq s)" and step: "pull s = Some t"
  shows "(retry_measure config t, retry_measure config s) \<in> falls"
proof -
  have b: "requeues_left config (sq t) = requeues_left config (sq s)"
    using NumRequeues_cong [OF pull_limiter [OF step]] by (simp add: requeues_left_def fun_eq_iff)
  show ?thesis
    using step
  proof (cases rule: pull_cases)
    case (get x rest)
    with q have x: "x |\<in>| dirty (sq s)" using cq_inv_mem [of "sq s" x] by (simp add: d_inv_def)
    then have card: "fcard (dirty (sq s) |-| {|x|}) + 1 = fcard (dirty (sq s))"
      by (metis Suc_eq_plus1 fcard_Suc_fminus1)
    from x have "(\<Sum>y \<in> fset (dirty (sq s)). 20 * c y + 14) =
        20 * c x + 14 + (\<Sum>y \<in> fset (dirty (sq s)) - {x}. 20 * c y + (14::nat))" for c :: "'a \<Rightarrow> nat"
      by (intro sum.remove) simp_all
    moreover have "dirty (sq t) = dirty (sq s) |-| {|x|}" "entries (sq t) = entries (sq s)"
      using get by (simp_all add: cq_Get_Cons_Get)
    ultimately show ?thesis
      using get card b by (simp add: retry_measure_def falls_iff tokens_def cost_def queue_tokens_def queue_cost_def)
  next
    case stop
    with b show ?thesis by (simp add: retry_measure_def falls_iff tokens_def cost_def)
  next
    case (submit x)
    with b show ?thesis by (simp add: retry_measure_def falls_iff tokens_def cost_def)
  qed
qed

text \<open>Requeues promised by a task but not yet counted by the limiter.\<close>

fun commits :: "('ctx, 'w, 'e, 'p, 'tag) ItemSubmitterConfig \<Rightarrow> 'a \<Rightarrow> ('a, 'e) stage \<Rightarrow> bool" where
  "commits config x (Logging y n) = (y = x \<and> \<not> gives_up config n)"
| "commits config x (Requeuing y) = (y = x)"
| "commits config x _ = False"

definition committed ::
  "('ctx, 'w, 'e, 'p, 'tag) ItemSubmitterConfig \<Rightarrow> 'a \<Rightarrow> ('a, 'e) submitter \<Rightarrow> nat" where
  "committed config x s = length (filter (commits config x) (tasks s))"

definition counts_within ::
  "('ctx, 'w, 'e, 'p, 'tag) ItemSubmitterConfig \<Rightarrow> int \<Rightarrow> ('a, 'e) submitter \<Rightarrow> bool" where
  "counts_within config B s \<longleftrightarrow>
     (\<forall>x. 0 \<le> NumRequeues x (sq s) \<and> NumRequeues x (sq s) + int (committed config x s) \<le> B)"

lemma committed_tokens:
  fixes x :: 'a and s :: "('a, 'e) submitter"
  shows "committed config x s \<le> tokens s"
proof -
  have "length (filter (commits config x) ts) \<le> sum_list (map stage_tokens ts)" for ts :: "('a, 'e) stage list"
  proof (induction ts)
    case (Cons st ts)
    then show ?case by (cases st) simp_all
  qed simp
  then show ?thesis unfolding committed_def tokens_def by (metis add.commute le_add2 le_trans trans_le_add2)
qed

lemma counts_same:
  "counts_within config B s \<Longrightarrow> rateLimiter (sq t) = rateLimiter (sq s) \<Longrightarrow>
   (\<And>x. committed config x t \<le> committed config x s) \<Longrightarrow> counts_within config B t"
  using NumRequeues_cong [of "sq t" "sq s"] unfolding counts_within_def by (metis (no_types, lifting) add_left_mono of_nat_mono order_trans)

lemma counts_mono: "counts_within config B s \<Longrightarrow> B \<le> C \<Longrightarrow> counts_within config C s"
  unfolding counts_within_def by (meson order_trans)

lemma counts_task:
  assumes inv: "counts_within config B s" and B: "B < 2 ^ 63" and limited: "\<not> unlimitedRetries config"
    and i: "i < length (tasks s)" and step: "callback_step impl config i ch s = Some t"
    and room: "\<And>x. max 0 (maxNumRequeues config) + int (committed config x t) \<le> B"
  shows "counts_within config B t"
proof -
  have upd: "committed config x t + (if commits config x (tasks s ! i) then 1 else 0) =
      committed config x s + (if commits config x (tasks t ! i) then 1 else 0)" for x
    using length_filter_update [OF i, of "commits config x" "tasks t ! i"]
    by (subst (1 2) callback_step_form [OF i step]) (simp add: committed_def i)
  have nr: "0 \<le> NumRequeues x (sq s)" "NumRequeues x (sq s) + int (committed config x s) \<le> B" for x
    using inv by (simp_all add: counts_within_def)
  have plain: ?thesis if "rateLimiter (sq t) = rateLimiter (sq s)"
    "\<And>x. commits config x (tasks t ! i) \<Longrightarrow> commits config x (tasks s ! i)"
  proof (rule counts_same [OF inv that(1)])
    show "committed config x t \<le> committed config x s" for x using upd [of x] that(2) [of x] by (auto split: if_splits)
  qed
  have within: ?thesis if "\<And>x. 0 \<le> NumRequeues x (sq t)" "\<And>x. NumRequeues x (sq t) + int (committed config x t) \<le> B"
    using that by (simp add: counts_within_def)
  show ?thesis
    using i step
  proof (cases rule: callback_step_cases)
    case (handle y e)
    show ?thesis
    proof (cases "gives_up config (NumRequeues y (sq s))")
      case True
      with handle show ?thesis by (intro plain) auto
    next
      case False
      with limited have "NumRequeues y (sq s) < max 0 (maxNumRequeues config)" by (simp add: gives_up_def)
      then have "NumRequeues x (sq s) + int (committed config x t) \<le> B" for x
        using room [of x] nr(2) [of x] upd [of x] handle by (cases "x = y") auto
      with nr(1) handle(2) show ?thesis by (intro within) simp_all
    qed
  next
    case (requeue y d)
    have "committed config y s \<ge> 1" using upd [of y] requeue by simp
    with nr(2) [of y] B have "NumRequeues y (sq s) + 1 < 2 ^ 63" by linarith
    with nr(1) [of y] have t: "NumRequeues x (sq t) = NumRequeues x (sq s) + (if x = y then 1 else 0)" for x
      by (simp add: requeue(2) NumRequeues_When)
    show ?thesis
    proof (rule within)
      show "0 \<le> NumRequeues x (sq t)" "NumRequeues x (sq t) + int (committed config x t) \<le> B" for x
        using nr [of x] upd [of x] requeue(1,4) t [of x] by (auto split: if_splits)
    qed
  next
    case (reset y)
    then have t: "NumRequeues x (sq t) = (if x = y then 0 else NumRequeues x (sq s))" for x
      by (simp add: NumRequeues_def ResetRateLimit_def limiter_NumRequeues_def limiter_ResetRateLimit_def lookup0_def)
    show ?thesis
    proof (rule within)
      show "0 \<le> NumRequeues x (sq t)" "NumRequeues x (sq t) + int (committed config x t) \<le> B" for x
        using nr [of x] upd [of x] reset(1,4) t [of x] room [of x] by (auto split: if_splits)
    qed
  qed (intro plain, auto split: if_splits option.splits)+
qed

lemma rateLimiter_cancel [simp]: "rateLimiter (cancel_loop order q) = rateLimiter q"
  by (induction order q rule: cancel_loop.induct)
    (simp_all add: stop_timer_def set_timer_def wg_add_def split: option.split)

lemma shutdown_limiter: "dexec impl q (ActShutDown order) = Some q' \<Longrightarrow> rateLimiter q' = rateLimiter q"
  by (auto simp: dq_ShutDown_def cq_ShutDown_def cancelDelayedEntries_def split: if_splits)

lemma timer_limiter: "dexec impl q a = Some q' \<Longrightarrow> timer_action a \<Longrightarrow> rateLimiter q' = rateLimiter q"
proof (cases "\<exists>d. a = ActTick d")
  case False
  then show "dexec impl q a = Some q' \<Longrightarrow> timer_action a \<Longrightarrow> rateLimiter q' = rateLimiter q"
    using queue_falls_timer [of impl q a q'] by simp
qed (auto split: if_splits)

lemma counts_step:
  assumes inv: "counts_within config B s" and B: "B < 2 ^ 63" and limited: "\<not> unlimitedRetries config"
    and step: "sexec impl config s a = Some t"
    and room: "\<And>x. max 0 (maxNumRequeues config) + int (committed config x t) \<le> B"
  shows "counts_within config B t"
proof (cases a)
  case (Task i ch)
  with step have "i < length (tasks s)" "callback_step impl config i ch s = Some t"
    by (simp_all add: sexec.simps split: if_splits)
  then show ?thesis using counts_task [OF inv B limited] room by blast
next
  case Pull
  with step have p: "pull s = Some t" by (simp add: sexec.simps)
  moreover have "committed config x t = committed config x s" for x
    using p by (cases rule: pull_cases) (simp_all add: committed_def)
  ultimately show ?thesis by (intro counts_same [OF inv] pull_limiter) simp_all
next
  case (QueueTimer b)
  with step obtain q where "timer_action b" "dexec impl (sq s) b = Some q" "t = s\<lparr>sq := q\<rparr>"
    by (auto simp: sexec.simps split: if_splits simp del: dexec.simps)
  then show ?thesis by (intro counts_same [OF inv]) (simp_all add: timer_limiter committed_def)
next
  case (ContextDone order)
  with step obtain q where "dexec impl (sq s) (ActShutDown order) = Some q" "t = s\<lparr>sq := q\<rparr>"
    by (auto simp: sexec.simps simp del: dexec.simps)
  then show ?thesis by (intro counts_same [OF inv]) (simp_all add: shutdown_limiter committed_def)
qed (use step in \<open>auto simp: sexec.simps Submit_def SubmitAfter_def committed_def split: if_splits
       intro!: counts_same [OF inv]\<close>)

lemma falls_tokens: "(retry_measure config t, retry_measure config s) \<in> falls \<Longrightarrow> tokens t \<le> tokens s"
  by (auto simp: retry_measure_def falls_iff)

lemma sexec_falls:
  assumes q: "d_inv (sq s)" and counts: "counts_within config B s" "B < 2 ^ 63"
    and limited: "\<not> unlimitedRetries config"
    and step: "sexec impl config s a = Some t" and int: "retry_internal a"
  shows "(retry_measure config t, retry_measure config s) \<in> falls"
proof (cases a)
  case Pull
  with step pull_falls [OF q, of t config] show ?thesis by (simp add: sexec.simps)
next
  case (Task i ch)
  with step have i: "i < length (tasks s)" and cb: "callback_step impl config i ch s = Some t"
    by (simp_all add: sexec.simps split: if_splits)
  have nr: "0 \<le> NumRequeues x (sq s)" "NumRequeues x (sq s) + int (committed config x s) \<le> B" for x
    using counts(1) by (simp_all add: counts_within_def)
  have "NumRequeues x (sq s) + 1 < 2 ^ 63" if "tasks s ! i = Requeuing x" for x
  proof -
    have "tasks s ! i \<in> set (filter (commits config x) (tasks s))"
      using nth_mem [OF i] that by simp
    then have "0 < committed config x s" unfolding committed_def by (metis length_pos_if_in_set)
    with nr(2) [of x] counts(2) show ?thesis by linarith
  qed
  with callback_step_falls [OF q i cb limited nr(1)] show ?thesis by blast
next
  case (QueueTimer b)
  with step obtain q' where b: "timer_action b" "dexec impl (sq s) b = Some q'" "t = s\<lparr>sq := q'\<rparr>"
    by (auto simp: sexec.simps split: if_splits simp del: dexec.simps)
  moreover from QueueTimer int have "\<forall>d. b \<noteq> ActTick d" by auto
  ultimately have f: "queue_falls c (sq s) q'" "rateLimiter q' = rateLimiter (sq s)" for c
    using queue_falls_timer by blast+
  have "requeues_left config q' = requeues_left config (sq s)"
    using NumRequeues_cong [OF f(2)] by (simp add: requeues_left_def fun_eq_iff)
  with f(1) [of "requeues_left config (sq s)"] b(3) show ?thesis
    by (auto simp: retry_measure_def falls_iff tokens_def cost_def queue_falls_def)
qed (use int in simp_all)

lemma sexec_idle:
  "sexec impl config s a = Some t \<Longrightarrow> time_passes a \<Longrightarrow> \<exists>d \<ge> 0. t = s\<lparr>sq := (sq s)\<lparr>clock := clock (sq s) + d\<rparr>\<rparr>"
  by (cases a rule: time_passes.cases) (auto simp: sexec.simps split: if_splits)

lemma requeues_left_clock [simp]: "requeues_left config (q\<lparr>clock := c\<rparr>) = requeues_left config q"
  by (simp add: requeues_left_def NumRequeues_def fun_eq_iff)

lemma retry_measure_idle:
  "sexec impl config s a = Some t \<Longrightarrow> time_passes a \<Longrightarrow> retry_measure config t = retry_measure config s"
  by (drule (1) sexec_idle) (auto simp: retry_measure_def tokens_def cost_def)

text \<open>
  The submitter at work: the steps it and the passing of time make. Every count of requeues stays
  below \<open>B\<close> while at most \<open>N\<close> tokens are there.
\<close>

definition work_step ::
  "(float64 \<Rightarrow> int) \<Rightarrow> ('ctx, 'w, 'e, 'p, 'tag) ItemSubmitterConfig
     \<Rightarrow> ('a, 'e) submitter \<Rightarrow> ('a, 'e) sact \<Rightarrow> ('a, 'e) submitter \<Rightarrow> bool" where
  "work_step impl config s a t \<longleftrightarrow>
     sexec impl config s a = Some t \<and> (retry_internal a \<or> time_passes a)"

definition at_work ::
  "('ctx, 'w, 'e, 'p, 'tag) ItemSubmitterConfig \<Rightarrow> nat \<Rightarrow> int \<Rightarrow> ('a, 'e) submitter \<Rightarrow> bool" where
  "at_work config N B s \<longleftrightarrow> sub_inv s \<and> d_inv (sq s) \<and> tokens s \<le> N \<and> counts_within config B s
     \<and> \<not> unlimitedRetries config \<and> max 0 (maxNumRequeues config) + int N \<le> B \<and> B < 2 ^ 63"

lemma at_work_step:
  assumes "at_work config N B s" and "work_step impl config s a t"
  shows "at_work config N B t"
proof -
  from assms have inv: "sub_inv s" "d_inv (sq s)" "tokens s \<le> N" "counts_within config B s"
    "\<not> unlimitedRetries config" "max 0 (maxNumRequeues config) + int N \<le> B" "B < 2 ^ 63"
    and step: "sexec impl config s a = Some t" "retry_internal a \<or> time_passes a"
    by (simp_all add: at_work_def work_step_def)
  have "tokens t \<le> tokens s"
    using step(2) falls_tokens [OF sexec_falls [OF inv(2,4,7,5) step(1)]]
      arg_cong [OF retry_measure_idle [OF step(1)], of fst] by (auto simp: retry_measure_def)
  with inv(3) have N: "tokens t \<le> N" by simp
  have "max 0 (maxNumRequeues config) + int (committed config x t) \<le> B" for x
    using committed_tokens [of config x t] N inv(6) by linarith
  with counts_step [OF inv(4,7,5) step(1)] have "counts_within config B t" by blast
  with N inv sub_inv_both_step [OF step(1)] show ?thesis by (simp add: at_work_def)
qed

lemma work_step_falls:
  "at_work config N B s \<Longrightarrow> work_step impl config s a t \<Longrightarrow> retry_internal a \<Longrightarrow>
   (retry_measure config t, retry_measure config s) \<in> falls"
  unfolding at_work_def work_step_def using sexec_falls by blast

lemma work_step_idle:
  "work_step impl config s a t \<Longrightarrow> time_passes a \<Longrightarrow> retry_measure config t = retry_measure config s"
  unfolding work_step_def using retry_measure_idle by blast

interpretation work: terminating_system "at_work config N B" "work_step impl config" "at_work config N B"
  retry_internal time_passes "retry_measure config" falls
  by unfold_locales (blast intro: wf_falls at_work_step work_step_falls work_step_idle)+

section \<open>The counts in a reachable state\<close>

text \<open>
  A count can only pass the limit because several failures of an item read it before one of them
  has counted, so that it stays within the limit plus the number of tasks.
\<close>

definition counts_inv ::
  "('ctx, 'w, 'e, 'p, 'tag) ItemSubmitterConfig \<Rightarrow> ('a, 'e) submitter \<Rightarrow> bool" where
  "counts_inv config s \<longleftrightarrow>
     (\<not> unlimitedRetries config \<and> max 0 (maxNumRequeues config) + int (length (tasks s)) < 2 ^ 63 \<longrightarrow>
      counts_within config (max 0 (maxNumRequeues config) + int (length (tasks s))) s)"

lemma tasks_grow: "sexec impl config s a = Some t \<Longrightarrow> length (tasks s) \<le> length (tasks t)"
proof (cases a)
  case (Task i ch)
  moreover assume "sexec impl config s a = Some t"
  ultimately have "i < length (tasks s)" "callback_step impl config i ch s = Some t"
    by (simp_all add: sexec.simps split: if_splits)
  then have "length (tasks t) = length (tasks s)" using arg_cong [OF callback_step_form, of _ _ _ _ _ _ "\<lambda>s. length (tasks s)"] by simp
  then show ?thesis by simp
next
  case Pull
  moreover assume "sexec impl config s a = Some t"
  ultimately have "pull s = Some t" by (simp add: sexec.simps)
  then show ?thesis by (cases rule: pull_cases) simp_all
qed (auto simp: sexec.simps Submit_def SubmitAfter_def split: if_splits)

lemma counts_inv_step:
  assumes "counts_inv config s" and step: "sexec impl config s a = Some t"
  shows "counts_inv config t"
  unfolding counts_inv_def
proof (intro impI, elim conjE)
  let ?B = "max 0 (maxNumRequeues config) + int (length (tasks t))"
  assume limited: "\<not> unlimitedRetries config" and B: "?B < 2 ^ 63"
  with assms(1) tasks_grow [OF step] have
    "counts_within config (max 0 (maxNumRequeues config) + int (length (tasks s))) s"
    by (simp add: counts_inv_def)
  then have "counts_within config ?B s" by (rule counts_mono) (use tasks_grow [OF step] in simp)
  moreover have "committed config x t \<le> length (tasks t)" for x by (simp add: committed_def)
  ultimately show "counts_within config ?B t" by (intro counts_step [OF _ B limited step]) simp_all
qed

interpretation sc: transition_invariant sinit "by_exec (sexec impl config)" "counts_inv config"
proof (unfold_locales, goal_cases)
  case (1 s)
  then show ?case
    by (simp add: sinit_def NewDefaultItemSubmitter_def counts_inv_def counts_within_def committed_def
        New_dq_def collapsingQueue.defs NumRequeues_def limiter_NumRequeues_def lookup0_def
        NewItemExponentialFailureRateLimiter_def)
next
  case (2 s a t)
  then show ?case unfolding by_exec_def by (rule counts_inv_step)
qed

lemma reach_at_work:
  assumes "reach sinit (by_exec (sexec impl config)) s" and "\<not> unlimitedRetries config"
    and "max 0 (maxNumRequeues config) + int (length (tasks s)) + int (tokens s) < 2 ^ 63"
  shows "at_work config (tokens s) (max 0 (maxNumRequeues config) + int (length (tasks s)) + int (tokens s)) s"
proof -
  have "counts_within config (max 0 (maxNumRequeues config) + int (length (tasks s))) s"
    using sc.inv_reach [OF assms(1)] assms(2,3) by (simp add: counts_inv_def)
  then have "counts_within config (max 0 (maxNumRequeues config) + int (length (tasks s)) + int (tokens s)) s"
    by (rule counts_mono) simp
  with assms sp.inv_reach [OF assms(1)] show ?thesis by (simp add: at_work_def)
qed

section \<open>When the work is done\<close>

definition work_done ::
  "(float64 \<Rightarrow> int) \<Rightarrow> ('ctx, 'w, 'e, 'p, 'tag) ItemSubmitterConfig \<Rightarrow> ('a, 'e) submitter \<Rightarrow> bool" where
  "work_done impl config s \<longleftrightarrow>
     (\<forall>bs u a v. path (work_step impl config) s bs u \<longrightarrow> (\<forall>b \<in> set bs. time_passes b) \<longrightarrow>
        retry_internal a \<longrightarrow> \<not> work_step impl config u a v)"

lemma sub_internal_retry: "sub_internal a \<Longrightarrow> retry_internal a"
  by (cases a rule: retry_internal.cases) simp_all

lemma work_done_at_rest: "work_done impl config s \<Longrightarrow> sub_at_rest impl config s"
  unfolding work_done_def sub_at_rest_def
  by (auto simp: work_step_def dest!: sub_internal_retry spec [of _ "[]"] intro: path_Nil)

lemma work_done_no_pending:
  assumes finished: "work_done impl config s"
  shows "status (sq s) e \<noteq> Some Pending"
proof
  assume e: "status (sq s) e = Some Pending"
  define d where "d = max 0 (fireAt (entries (sq s) ! e) - clock (sq s))"
  let ?u = "s\<lparr>sq := (sq s)\<lparr>clock := clock (sq s) + d\<rparr>\<rparr>"
  have "work_step impl config s (QueueTimer (ActTick d)) ?u"
    by (simp add: work_step_def sexec.simps d_def)
  then have "path (work_step impl config) s [QueueTimer (ActTick d)] ?u" by (auto intro: path.intros)
  moreover have "\<exists>v. work_step impl config ?u (QueueTimer (ActFire e)) v"
    using e by (simp add: work_step_def sexec.simps status_def d_def split: if_splits)
  ultimately show False using finished unfolding work_done_def by fastforce
qed

section \<open>Property\<close>

text \<open>
  Claim C11: with limited retries the work ends. Whatever the consumers return, however tasks, timers and
  the clock interleave, a run without new submissions is only waiting for time to pass from some point
  on; and it can go on to a state in which nothing is left to do. There every task is over, every
  timer has been stopped or has finished, and, unless the puller has stopped for the shutdown, an item
  that is still marked as submitted is one on which the consumer panicked.
\<close>

theorem limited_retries_terminate:
  assumes "reach sinit (by_exec (sexec impl config)) s" and "\<not> unlimitedRetries config"
    and "max 0 (maxNumRequeues config) + int (length (tasks s)) + int (tokens s) < 2 ^ 63"
  shows "(\<forall>f act. f 0 = s \<and> (\<forall>n. work_step impl config (f n) (act n) (f (Suc n)))
        \<longrightarrow> (\<exists>n. \<forall>m \<ge> n. time_passes (act m)))
    \<and> (\<exists>as t. path (work_step impl config) s as t \<and> work_done impl config t)
    \<and> (\<forall>as t. path (work_step impl config) s as t \<and> work_done impl config t
        \<longrightarrow> list_all is_over (tasks t)
          \<and> (\<forall>e. status (sq t) e \<in> {None, Some Stopped, Some Finished})
          \<and> (puller t \<noteq> PullerStopped \<longrightarrow> (\<forall>x. x |\<in>| dirty (sq t) \<longrightarrow> Lost x \<in> set (tasks t))))"
proof (intro conjI allI impI)
  note inv = reach_at_work [OF assms]
  show "\<exists>n. \<forall>m \<ge> n. time_passes (act m)"
    if run: "f 0 = s \<and> (\<forall>n. work_step impl config (f n) (act n) (f (Suc n)))" for f act
  proof (rule work.eventually_idle [where f = f and act = act])
    show "at_work config (tokens s) (max 0 (maxNumRequeues config) + int (length (tasks s)) + int (tokens s)) (f 0)"
      using run inv by simp
    show "work_step impl config (f n) (act n) (f (Suc n)) \<and> (retry_internal (act n) \<or> time_passes (act n))" for n
      using run by (auto simp: work_step_def)
  qed
  show "\<exists>as t. path (work_step impl config) s as t \<and> work_done impl config t"
    using work.finishes [OF inv, of impl] by (auto simp: work_done_def)
  fix as t assume t: "path (work_step impl config) s as t \<and> work_done impl config t"
  then have "at_work config (tokens s) (max 0 (maxNumRequeues config) + int (length (tasks s)) + int (tokens s)) t"
    using work.inv_path inv by blast
  then have inv': "sub_inv t" "d_inv (sq t)" by (simp_all add: at_work_def)
  note rest = work_done_at_rest [OF conjunct2 [OF t]]
  show "list_all is_over (tasks t)" using rest_tasks_over [OF rest] by (simp add: list_all_iff)
  show "status (sq t) e \<in> {None, Some Stopped, Some Finished}" for e
    using rest_timers [OF rest, of e] work_done_no_pending [OF conjunct2 [OF t], of e]
    by (cases "status (sq t) e") auto
  show "Lost x \<in> set (tasks t)" if "puller t \<noteq> PullerStopped" "x |\<in>| dirty (sq t)" for x
    by (rule rest_dirty [OF rest inv' that])
qed

theorem limited_retries_terminate_witness:
  "\<exists>s t :: (string, string) submitter. reach sinit (by_exec (sexec (\<lambda>_. 0) (sample_config 1))) s
     \<and> tasks s = [Lost ''k'', Reported ''l'' (Some ''e'')]
     \<and> (\<exists>as. path (work_step (\<lambda>_. 0) (sample_config 1)) s as t) \<and> list_all is_over (tasks t)"
proof -
  have "\<exists>s :: (string, string) submitter.
     run (sexec (\<lambda>_. 0) (sample_config 1)) NewDefaultItemSubmitter
       [SubmitItem ''k'', SubmitItem ''l'', Pull, Pull, Pull, Pull, Task 0 ConsumerPanics,
        Task 1 (ConsumerReturns (Some ''e'')), Task 1 GoOn] = Some s
     \<and> tasks s = [Lost ''k'', Reported ''l'' (Some ''e'')] \<and> tokens s = 1"
    by (simp add: submitter_eval tokens_def queue_tokens_def fcard_finsert_if)
  then obtain s :: "(string, string) submitter" where s:
    "run (sexec (\<lambda>_. 0) (sample_config 1)) NewDefaultItemSubmitter
       [SubmitItem ''k'', SubmitItem ''l'', Pull, Pull, Pull, Pull, Task 0 ConsumerPanics,
        Task 1 (ConsumerReturns (Some ''e'')), Task 1 GoOn] = Some s"
    "tasks s = [Lost ''k'', Reported ''l'' (Some ''e'')]" "tokens s = 1" by blast
  have reach: "reach sinit (by_exec (sexec (\<lambda>_. 0) (sample_config 1))) s"
    by (rule run_reach [OF _ s(1)]) (simp add: sinit_def)
  from limited_retries_terminate [OF reach] s(2,3) obtain as t where
    "path (work_step (\<lambda>_. 0) (sample_config 1)) s as t" "list_all is_over (tasks t)"
    by (auto simp: sample_config_simps)
  with reach s(2) show ?thesis by blast
qed

end
