(* ===== verification/Submitter_System.thy ===== *)
theory Submitter_System
  imports Submitter_Task Retry_Progress
begin

text \<open>
  The item submitter with the worker pool it runs on, as one machine: the submitter of
  \<open>Item_Submitter\<close> and the pool of \<open>Worker_Pool\<close> side by side. The two synchronise where the code
  calls from one into the other: the puller enters the pool's \<open>Submit\<close> and comes back when the pool has
  called \<open>queue.Add\<close>; a task goes through its stages only while a worker is in \<open>Compute\<close> of its
  future, and the worker leaves \<open>Compute\<close> when the task is over. All other steps interleave. The pool
  serves this submitter alone and has any options; its metrics client does not panic during
  \<open>Submit\<close>, which would end the process. What the task does is in its stages
  (\<open>task_run_refines_stages\<close>), so the supplier the pool calls does nothing more.
\<close>

record ('ctx, 'a, 'e, 'p, 'tag) system =
  submitter_of :: "('a, 'e) submitter"
  pool_of :: "('ctx, unit, unit, 'e, 'p, 'tag) pool"

definition staged :: "('ctx, unit, unit, 'e, 'p) supplier" where
  "staged = (\<lambda>ctx w. (Ret ((), None), w))"

datatype ('ctx, 'a, 'e, 'p) yact =
    YClient "('a, 'e) sact"               \<comment> \<open>submissions, timers, the clock, the shutdown of the queue\<close>
  | YGet                                  \<comment> \<open>the puller takes an element\<close>
  | YHand                                 \<comment> \<open>\<open>SubmitWithCallback\<close> enters the pool's \<open>Submit\<close>\<close>
  | YEnqueue "nat option"                 \<comment> \<open>\<open>queue.Add\<close> of the pool; the puller goes on\<close>
  | YPool "('ctx, unit, unit, 'e, 'p) pact"  \<comment> \<open>any other step of the pool\<close>
  | YTask nat "'e choice"                 \<comment> \<open>the next stage of the task that worker \<open>j\<close> computes\<close>
  | YReturn nat                           \<comment> \<open>that task is over, \<open>Compute\<close> returns\<close>

fun client_action :: "('a, 'e) sact \<Rightarrow> bool" where
  "client_action Pull = False"
| "client_action (Task _ _) = False"
| "client_action _ = True"

fun pool_alone :: "('ctx, 'w, 'r, 'e, 'p) pact \<Rightarrow> bool" where
  "pool_alone (PSubmit _ _) = False"
| "pool_alone (PEnqueue _) = False"
| "pool_alone (WCompute _) = False"
| "pool_alone PPanic = False"
| "pool_alone (PEnv _) = False"
| "pool_alone _ = True"

fun yexec ::
  "(float64 \<Rightarrow> int) \<Rightarrow> ('c, 'u, 'e, 'q, 't) ItemSubmitterConfig \<Rightarrow> ('ctx \<Rightarrow> 'p \<Rightarrow> unit \<Rightarrow> 'e \<times> unit) \<Rightarrow> 'ctx
     \<Rightarrow> ('ctx, 'a, 'e, 'p, 'tag) system \<Rightarrow> ('ctx, 'a, 'e, 'p) yact \<Rightarrow> ('ctx, 'a, 'e, 'p, 'tag) system option" where
  "yexec impl cfg handle ctx y (YClient b) =
     (if client_action b
      then map_option (\<lambda>s. y\<lparr>submitter_of := s\<rparr>) (Item_Submitter.sexec impl cfg (submitter_of y) b)
      else None)"
| "yexec impl cfg handle ctx y YGet =
     (case puller (submitter_of y) of
        Pulling \<Rightarrow> map_option (\<lambda>s. y\<lparr>submitter_of := s\<rparr>) (pull (submitter_of y))
      | _ \<Rightarrow> None)"
| "yexec impl cfg handle ctx y YHand =
     (case puller (submitter_of y) of
        Submitting x \<Rightarrow> map_option (\<lambda>s. y\<lparr>pool_of := s\<rparr>) (pexec handle () (pool_of y) (PSubmit ctx staged))
      | _ \<Rightarrow> None)"
| "yexec impl cfg handle ctx y (YEnqueue c) =
     (case puller (submitter_of y) of
        Submitting x \<Rightarrow>
          (case (pull (submitter_of y), pexec handle () (pool_of y) (PEnqueue c)) of
             (Some s, Some p) \<Rightarrow> Some \<lparr>submitter_of = s, pool_of = p\<rparr>
           | _ \<Rightarrow> None)
      | _ \<Rightarrow> None)"
| "yexec impl cfg handle ctx y (YPool b) =
     (if pool_alone b then map_option (\<lambda>s. y\<lparr>pool_of := s\<rparr>) (pexec handle () (pool_of y) b) else None)"
| "yexec impl cfg handle ctx y (YTask j ch) =
     (if j < length (workers (pool_of y))
      then (case workers (pool_of y) ! j of
          WRun p \<Rightarrow> map_option (\<lambda>s. y\<lparr>submitter_of := s\<rparr>)
            (Item_Submitter.sexec impl cfg (submitter_of y) (Task p ch))
        | _ \<Rightarrow> None)
      else None)"
| "yexec impl cfg handle ctx y (YReturn j) =
     (if j < length (workers (pool_of y))
      then (case workers (pool_of y) ! j of
          WRun p \<Rightarrow>
            (if is_over (tasks (submitter_of y) ! p)
             then map_option (\<lambda>s. y\<lparr>pool_of := s\<rparr>) (pexec handle () (pool_of y) (WCompute j)) else None)
        | _ \<Rightarrow> None)
      else None)"

declare yexec.simps [simp del]

definition yinit :: "('ctx, 'a, 'e, 'p, 'tag) system \<Rightarrow> bool" where
  "yinit y \<longleftrightarrow> submitter_of y = NewDefaultItemSubmitter \<and> pinit (pool_of y)"

section \<open>How the two parts fit together\<close>

text \<open>
  Task \<open>p\<close> of the submitter is task \<open>p\<close> of the pool: its consumer has been called only if a worker
  is in \<open>Compute\<close> of it or was, and a computed task is over. Until the shutdown the pool accepts
  every task, and a submission under way is the puller's.
\<close>

fun is_waiting :: "('a, 'e) stage \<Rightarrow> bool" where
  "is_waiting (Waiting _) = True"
| "is_waiting _ = False"

definition link_inv :: "('ctx, 'a, 'e, 'p, 'tag) system \<Rightarrow> bool" where
  "link_inv y \<longleftrightarrow>
     length (tasks (submitter_of y)) = length (futures (pool_of y))
     \<and> (\<forall>p \<in> set (computed (pool_of y)). p < length (tasks (submitter_of y)) \<and> is_over (tasks (submitter_of y) ! p))
     \<and> (\<forall>p < length (tasks (submitter_of y)). is_waiting (tasks (submitter_of y) ! p)
          \<or> p \<in> set (computed (pool_of y)) \<or> WRun p \<in> set (workers (pool_of y)))
     \<and> (\<not> fq_ShuttingDown (pqueue (pool_of y)) \<longrightarrow>
          (\<forall>p < length (futures (pool_of y)). p \<in> set (accepted (pool_of y))))
     \<and> (submitting (pool_of y) \<noteq> NoSubmit \<longrightarrow> (\<exists>x. puller (submitter_of y) = Submitting x))"

definition y_inv :: "('ctx, 'a, 'e, 'p, 'tag) system \<Rightarrow> bool" where
  "y_inv y \<longleftrightarrow> sub_inv (submitter_of y) \<and> d_inv (sq (submitter_of y)) \<and> p_inv (pool_of y) \<and> link_inv y"

lemma WRun_awake: "w_awake g = WRun p \<longleftrightarrow> g = WRun p"
  by (cases g) simp_all

lemma wake_workers_WRun:
  assumes "wake_workers wk c ws = Some ws'"
  shows "WRun p \<in> set ws' \<longleftrightarrow> WRun p \<in> set ws"
proof -
  have "map (\<lambda>g. g = WRun p) ws' = map (\<lambda>g. g = WRun p) ws"
    by (rule wake_workers_same [OF assms]) (simp add: WRun_awake)
  then have "True \<in> set (map (\<lambda>g. g = WRun p) ws') \<longleftrightarrow> True \<in> set (map (\<lambda>g. g = WRun p) ws)"
    by (rule arg_cong)
  then show ?thesis by auto
qed

lemma WRun_update:
  "WRun p \<in> set ws \<Longrightarrow> ws ! i \<noteq> WRun p \<Longrightarrow> WRun p \<in> set (ws[i := g])"
  by (metis in_set_conv_nth length_list_update nth_list_update_neq)

text \<open>What a step of the pool on its own leaves as it is.\<close>

definition pool_frame :: "('ctx, 'w, 'r, 'e, 'p, 'tag) pool \<Rightarrow> ('ctx, 'w, 'r, 'e, 'p, 'tag) pool \<Rightarrow> bool" where
  "pool_frame s t \<longleftrightarrow> futures t = futures s \<and> computed t = computed s \<and> accepted t = accepted s
     \<and> (\<forall>p. WRun p \<in> set (workers s) \<longrightarrow> WRun p \<in> set (workers t))
     \<and> (submitting t = NoSubmit \<longleftrightarrow> submitting s = NoSubmit)"

lemma pool_alone_frame:
  assumes step: "pexec handle zero s b = Some t" and alone: "pool_alone b"
  shows "pool_frame s t"
proof (cases b)
  case (WGet i)
  with step obtain c where st: "i < length (workers s)" "workers s ! i = WLoop c \<or> workers s ! i = WWoken c"
    "t = worker_get i c s" by (auto elim: pexec_WGet_cases)
  then have "WRun p \<in> set (workers s) \<Longrightarrow> WRun p \<in> set ((workers s)[i := g])" for p g
    by (intro WRun_update) auto
  with st(3) show ?thesis
    by (cases "queue (delegate (pqueue s))") (auto simp: pool_frame_def worker_get_empty worker_get_item)
next
  case (WDone i c)
  with step obtain p wk q ws where st: "i < length (workers s)" "workers s ! i = WTaken p"
    "wake_workers wk c ((workers s)[i := WRun p]) = Some ws" "t = s\<lparr>pqueue := q, workers := ws\<rparr>"
    by (auto elim: pexec_WDone_cases)
  then have "WRun p' \<in> set (workers s) \<Longrightarrow> WRun p' \<in> set ((workers s)[i := g])" for p' g
    by (intro WRun_update) auto
  with st wake_workers_WRun [OF st(3)] show ?thesis by (auto simp: pool_frame_def)
next
  case (WFree i)
  with step have st: "workers s ! i = WMark" "t = s\<lparr>numberFree := numberFree s + 1, workers := (workers s)[i := WLoop True]\<rparr>"
    by (auto simp: pexec.simps split: if_splits)
  with WRun_update [of _ "workers s" i] show ?thesis by (simp add: pool_frame_def)
next
  case (WPanic i)
  with step have "workers s ! i = WMark" "t = s\<lparr>workers := (workers s)[i := startWorker_next WDied (pqueue s)]\<rparr>"
    by (auto simp: pexec.simps split: if_splits)
  with WRun_update [of _ "workers s" i] show ?thesis by (simp add: pool_frame_def)
next
  case PClose
  with step have "t = s\<lparr>pqueue := snd (fq_ShutDown (pqueue s)), workers := map w_awake (workers s)\<rparr>"
    by (auto elim: pexec_PClose_cases)
  then show ?thesis by (force simp: pool_frame_def image_iff WRun_awake)
qed (use step alone in \<open>auto simp: pool_frame_def pexec.simps startWorkerAsync_def split: submission.splits option.splits if_splits\<close>)

lemma client_frame:
  "Item_Submitter.sexec impl cfg s b = Some t \<Longrightarrow> client_action b \<Longrightarrow>
   tasks t = tasks s \<and> puller t = puller s \<and> reports t = reports s"
  by (cases b) (auto simp: Item_Submitter.sexec.simps Item_Submitter.Submit_def SubmitAfter_def split: if_splits)

lemma stage_frame:
  assumes i: "i < length (tasks s)" and step: "callback_step impl cfg i ch s = Some t"
  shows "tasks t = (tasks s)[i := tasks t ! i]" "puller t = puller s"
    "\<not> is_over (tasks s ! i)" "\<not> is_waiting (tasks t ! i)"
proof -
  show "tasks t = (tasks s)[i := tasks t ! i]" "puller t = puller s"
    by (subst callback_step_form [OF i step], simp)+
  show "\<not> is_over (tasks s ! i)" using i step by (cases rule: callback_step_cases) simp_all
  show "\<not> is_waiting (tasks t ! i)"
    using i step by (cases rule: callback_step_cases) (auto split: option.splits if_splits)
qed

lemma worker_task:
  assumes "p_inv s" and "i < length (workers s)" and "workers s ! i = WRun p"
  shows "p < length (futures s)" "p \<notin> set (computed s)" "p \<in> set (accepted s)"
proof -
  have inv: "pool_task_inv s" using assms(1) by (simp add: p_inv_def)
  note f = pool_task_WRun [OF inv assms(2), of p, unfolded assms(3) has_task.simps, OF refl]
  from f show "p < length (futures s)" "p \<notin> set (computed s)" by simp_all
  from f(1) inv show "p \<in> set (accepted s)" unfolding pool_task_inv_def by (metis Un_iff set_append)
qed

text \<open>What the worker's return from \<open>Compute\<close> and a submission change in the pool.\<close>

lemma WCompute_frame:
  assumes inv: "p_inv s" and step: "pexec handle zero s (WCompute i) = Some t" and i: "workers s ! i = WRun p"
  shows "length (futures t) = length (futures s)" "computed t = computed s @ [p]" "accepted t = accepted s"
    "submitting t = submitting s" "pqueue t = pqueue s"
    "WRun p' \<in> set (workers s) \<Longrightarrow> p' \<noteq> p \<Longrightarrow> WRun p' \<in> set (workers t)"
proof -
  from step i have t: "t = worker_compute handle zero i p s" "i < length (workers s)"
    by (auto elim: pexec_WCompute_cases)
  then show "computed t = computed s @ [p]" "accepted t = accepted s"
    "submitting t = submitting s" "pqueue t = pqueue s" by simp_all
  show "length (futures t) = length (futures s)"
    by (simp add: t(1) worker_compute_def Let_def split_beta)
  show "WRun p' \<in> set (workers s) \<Longrightarrow> p' \<noteq> p \<Longrightarrow> WRun p' \<in> set (workers t)"
    using i by (simp add: t(1) WRun_update)
qed

lemma PEnqueue_frame:
  assumes inv: "p_inv s" and step: "pexec handle zero s (PEnqueue c) = Some t"
  shows "length (futures t) = Suc (length (futures s))" "computed t = computed s" "submitting t = NoSubmit"
    "accepted t = (if fq_ShuttingDown (pqueue s) then accepted s else accepted s @ [length (futures s)])"
    "WRun p \<in> set (workers t) \<longleftrightarrow> WRun p \<in> set (workers s)" "\<exists>ctx sp. submitting s = Ready ctx sp"
proof -
  have "length (cells (pqueue s)) = length (futures s)" using inv by (simp add: p_inv_def pool_task_inv_def)
  with step show "length (futures t) = Suc (length (futures s))" "computed t = computed s" "submitting t = NoSubmit"
    "accepted t = (if fq_ShuttingDown (pqueue s) then accepted s else accepted s @ [length (futures s)])"
    "WRun p \<in> set (workers t) \<longleftrightarrow> WRun p \<in> set (workers s)" "\<exists>ctx sp. submitting s = Ready ctx sp"
    by (auto elim!: pexec_PEnqueue_cases simp: wake_workers_WRun)
qed

lemma still_open:
  "p_inv s \<Longrightarrow> pexec handle zero s a = Some t \<Longrightarrow> \<not> fq_ShuttingDown (pqueue t) \<Longrightarrow> \<not> fq_ShuttingDown (pqueue s)"
  using pexec_shuttingDown [of s handle zero a t] by (auto simp: fq_ShuttingDown_def cq_ShuttingDown_def)

lemma link_pool_frame:
  assumes link: "link_inv y" and frame: "pool_frame (pool_of y) t"
    and "\<not> fq_ShuttingDown (pqueue t) \<Longrightarrow> \<not> fq_ShuttingDown (pqueue (pool_of y))"
  shows "link_inv (y\<lparr>pool_of := t\<rparr>)"
proof -
  from frame have f: "futures t = futures (pool_of y)" "computed t = computed (pool_of y)"
    "accepted t = accepted (pool_of y)" "submitting t = NoSubmit \<longleftrightarrow> submitting (pool_of y) = NoSubmit"
    and run: "WRun p \<in> set (workers (pool_of y)) \<Longrightarrow> WRun p \<in> set (workers t)" for p
    by (simp_all add: pool_frame_def)
  show ?thesis
    unfolding link_inv_def
  proof (intro conjI impI)
    assume "\<not> fq_ShuttingDown (pqueue (pool_of (y\<lparr>pool_of := t\<rparr>)))"
    with assms(3) link show "\<forall>p < length (futures (pool_of (y\<lparr>pool_of := t\<rparr>))).
        p \<in> set (accepted (pool_of (y\<lparr>pool_of := t\<rparr>)))"
      by (simp add: f link_inv_def)
  qed (use link in \<open>auto simp: f link_inv_def intro: run\<close>)
qed

lemma link_submitter_frame:
  "link_inv y \<Longrightarrow> tasks s = tasks (submitter_of y) \<Longrightarrow> puller s = puller (submitter_of y) \<Longrightarrow>
   link_inv (y\<lparr>submitter_of := s\<rparr>)"
  unfolding link_inv_def by auto

lemma link_enqueue:
  assumes inv: "y_inv y" and step: "yexec impl cfg handle ctx y (YEnqueue c) = Some z"
  shows "link_inv z"
proof -
  from inv have link: "link_inv y" and p: "p_inv (pool_of y)" by (simp_all add: y_inv_def)
  from step obtain x s t where s: "puller (submitter_of y) = Submitting x" "pull (submitter_of y) = Some s"
    "pexec handle () (pool_of y) (PEnqueue c) = Some t" "z = \<lparr>submitter_of = s, pool_of = t\<rparr>"
    by (auto simp: yexec.simps split: puller.splits option.splits)
  from s(2,1) have "tasks s = tasks (submitter_of y) @ [Waiting x]" by (cases rule: pull_cases) simp_all
  moreover note PEnqueue_frame [OF p s(3)] still_open [OF p s(3)]
  ultimately show ?thesis using link s(4) by (auto simp: link_inv_def nth_append less_Suc_eq)
qed

lemma link_task:
  assumes inv: "y_inv y" and step: "yexec impl cfg handle ctx y (YTask j ch) = Some z"
  shows "link_inv z"
proof -
  from inv have link: "link_inv y" and p: "p_inv (pool_of y)" by (simp_all add: y_inv_def)
  from step obtain i s where s: "j < length (workers (pool_of y))" "workers (pool_of y) ! j = WRun i"
    "i < length (tasks (submitter_of y))" "callback_step impl cfg i ch (submitter_of y) = Some s"
    "z = y\<lparr>submitter_of := s\<rparr>"
    by (auto simp: yexec.simps Item_Submitter.sexec.simps split: worker.splits if_splits)
  note f = stage_frame [OF s(3,4)]
  have len: "length (tasks s) = length (tasks (submitter_of y))" by (subst f(1)) simp
  have other: "k \<noteq> i \<Longrightarrow> tasks s ! k = tasks (submitter_of y) ! k" for k by (subst f(1)) simp
  have run: "WRun i \<in> set (workers (pool_of y))" using s(1,2) by (metis nth_mem)
  have "i \<notin> set (computed (pool_of y))" using worker_task [OF p s(1,2)] by simp
  with link other show ?thesis
    unfolding link_inv_def s(5) using len run f(2) by simp metis
qed

lemma link_return:
  assumes inv: "y_inv y" and step: "yexec impl cfg handle ctx y (YReturn j) = Some z"
  shows "link_inv z"
proof -
  from inv have link: "link_inv y" and p: "p_inv (pool_of y)" by (simp_all add: y_inv_def)
  from step obtain i t where s: "j < length (workers (pool_of y))" "workers (pool_of y) ! j = WRun i"
    "is_over (tasks (submitter_of y) ! i)" "pexec handle () (pool_of y) (WCompute j) = Some t"
    "z = y\<lparr>pool_of := t\<rparr>"
    by (auto simp: yexec.simps split: worker.splits if_splits)
  note f = WCompute_frame [OF p s(4,2)] worker_task [OF p s(1,2)]
  have run: "is_waiting (tasks (submitter_of y) ! k) \<or> k \<in> set (computed t) \<or> WRun k \<in> set (workers t)"
    if "k < length (tasks (submitter_of y))" for k
    using that link f(2) f(6) [of k] by (cases "k = i") (auto simp: link_inv_def)
  show ?thesis
    unfolding link_inv_def s(5)
  proof (intro conjI)
    show "\<forall>p < length (tasks (submitter_of (y\<lparr>pool_of := t\<rparr>))).
        is_waiting (tasks (submitter_of (y\<lparr>pool_of := t\<rparr>)) ! p)
        \<or> p \<in> set (computed (pool_of (y\<lparr>pool_of := t\<rparr>)))
        \<or> WRun p \<in> set (workers (pool_of (y\<lparr>pool_of := t\<rparr>)))"
      using run by simp
  qed (use link f(1-5,7-9) s(3) in \<open>auto simp: link_inv_def\<close>)
qed

lemma y_link_step:
  assumes inv: "y_inv y" and step: "yexec impl cfg handle ctx y a = Some z"
  shows "link_inv z"
proof -
  from inv have link: "link_inv y" and p: "p_inv (pool_of y)" by (simp_all add: y_inv_def)
  show ?thesis
  proof (cases a)
    case (YClient b)
    with step link show ?thesis
      by (auto simp: yexec.simps dest!: client_frame intro!: link_submitter_frame split: if_splits)
  next
    case YGet
    with step obtain s where s: "puller (submitter_of y) = Pulling" "pull (submitter_of y) = Some s"
      "z = y\<lparr>submitter_of := s\<rparr>" by (auto simp: yexec.simps split: puller.splits)
    from s(2,1) have "tasks s = tasks (submitter_of y)" by (cases rule: pull_cases) simp_all
    moreover have "submitting (pool_of y) = NoSubmit" using link s(1) by (auto simp: link_inv_def)
    ultimately show ?thesis using link s(3) by (auto simp: link_inv_def)
  next
    case YHand
    with step obtain x t where s: "puller (submitter_of y) = Submitting x"
      "pexec handle () (pool_of y) (PSubmit ctx staged) = Some t" "z = y\<lparr>pool_of := t\<rparr>"
      by (auto simp: yexec.simps split: puller.splits)
    with link show ?thesis by (auto simp: link_inv_def pexec.simps split: if_splits)
  next
    case (YEnqueue c)
    with step show ?thesis by (auto intro: link_enqueue [OF inv])
  next
    case (YPool b)
    with step obtain t where s: "pool_alone b" "pexec handle () (pool_of y) b = Some t" "z = y\<lparr>pool_of := t\<rparr>"
      by (auto simp: yexec.simps split: if_splits)
    show ?thesis unfolding s(3)
      by (rule link_pool_frame [OF link pool_alone_frame [OF s(2,1)] still_open [OF p s(2)]])
  next
    case (YTask j ch)
    with step show ?thesis by (auto intro: link_task [OF inv])
  next
    case (YReturn j)
    with step show ?thesis by (auto intro: link_return [OF inv])
  qed
qed

section \<open>Every step is a step of one part or of both\<close>

lemma yexec_submitter:
  assumes "yexec impl cfg handle ctx y a = Some z"
  shows "submitter_of z = submitter_of y
    \<or> (\<exists>b. Item_Submitter.sexec impl cfg (submitter_of y) b = Some (submitter_of z)
         \<and> (case a of YClient c \<Rightarrow> b = c | _ \<Rightarrow> retry_internal b))"
proof (cases a)
  case YGet
  with assms show ?thesis
    by (auto simp: yexec.simps Item_Submitter.sexec.simps split: puller.splits intro!: exI [of _ Pull])
next
  case (YEnqueue c)
  with assms show ?thesis
    by (auto simp: yexec.simps Item_Submitter.sexec.simps split: puller.splits option.splits intro!: exI [of _ Pull])
next
  case (YTask j ch)
  with assms obtain p where "Item_Submitter.sexec impl cfg (submitter_of y) (Task p ch) = Some (submitter_of z)"
    by (auto simp: yexec.simps split: worker.splits if_splits)
  with YTask show ?thesis by (auto intro!: exI [of _ "Task p ch"])
qed (use assms in \<open>auto simp: yexec.simps split: puller.splits worker.splits if_splits\<close>)

lemma yexec_pool:
  assumes "yexec impl cfg handle ctx y a = Some z"
  shows "pool_of z = pool_of y \<or> (\<exists>b. pexec handle () (pool_of y) b = Some (pool_of z))"
  using assms by (cases a) (auto simp: yexec.simps split: puller.splits worker.splits option.splits if_splits)

lemma y_inv_step:
  assumes inv: "y_inv y" and step: "yexec impl cfg handle ctx y a = Some z"
  shows "y_inv z"
proof -
  have "sub_inv (submitter_of z) \<and> d_inv (sq (submitter_of z))"
    using yexec_submitter [OF step] sub_inv_both_step [of impl cfg "submitter_of y"] inv by (auto simp: y_inv_def)
  moreover have "p_inv (pool_of z)"
    using yexec_pool [OF step] p_inv_step [of "pool_of y"] inv by (auto simp: y_inv_def)
  ultimately show ?thesis using y_link_step [OF inv step] by (simp add: y_inv_def)
qed

lemma y_inv_init: "yinit y \<Longrightarrow> y_inv y"
proof -
  assume y: "yinit y"
  then have "sub_inv (submitter_of y) \<and> d_inv (sq (submitter_of y))"
    by (intro sub_inv_both_init) (simp add: yinit_def sinit_def)
  moreover from y have "p_inv (pool_of y)" by (simp add: yinit_def p_inv_init)
  moreover from y have "link_inv y"
    by (auto simp: yinit_def pinit_def link_inv_def NewDefaultItemSubmitter_def NewDefaultSupplierWorkerPool_def)
  ultimately show ?thesis by (simp add: y_inv_def)
qed

interpretation ys: embedding sinit "by_exec (Item_Submitter.sexec impl cfg)" "\<lambda>s. sub_inv s \<and> d_inv (sq s)"
  yinit "by_exec (yexec impl cfg handle ctx)" submitter_of y_inv
proof (unfold_locales, goal_cases)
  case (1 y)
  then show ?case by (auto simp: y_inv_init) (simp add: yinit_def sinit_def)
next
  case (2 y a z)
  from yexec_submitter [OF this(2) [unfolded by_exec_def]] show ?case unfolding by_exec_def by auto
next
  case (3 y a z)
  from y_inv_step [OF this(1) this(3) [unfolded by_exec_def]] show ?case .
qed

interpretation yp: embedding pinit "by_exec (pexec handle ())" p_inv
  yinit "by_exec (yexec impl cfg handle ctx)" pool_of y_inv
proof (unfold_locales, goal_cases)
  case (1 y)
  then show ?case by (auto simp: y_inv_init) (simp add: yinit_def)
next
  case (2 y a z)
  from yexec_pool [OF this(2) [unfolded by_exec_def]] show ?case unfolding by_exec_def .
next
  case (3 y a z)
  from y_inv_step [OF this(1) this(3) [unfolded by_exec_def]] show ?case .
qed

section \<open>Progress\<close>

fun sys_internal :: "('ctx, 'a, 'e, 'p) yact \<Rightarrow> bool" where
  "sys_internal (YClient b) = retry_internal b"
| "sys_internal (YPool b) = pinternal b"
| "sys_internal _ = True"

fun sys_idle :: "('ctx, 'a, 'e, 'p) yact \<Rightarrow> bool" where
  "sys_idle (YClient b) = time_passes b"
| "sys_idle _ = False"

text \<open>A puller that has not yet entered the pool still owes the pool a submission.\<close>

definition owed :: "('ctx, 'a, 'e, 'p, 'tag) system \<Rightarrow> nat" where
  "owed y = (case puller (submitter_of y) of
     Submitting x \<Rightarrow> if submitting (pool_of y) = NoSubmit then 12 else 0 | _ \<Rightarrow> 0)"

definition sys_measure ::
  "('c, 'u, 'e, 'q, 't) ItemSubmitterConfig \<Rightarrow> ('ctx, 'a, 'e, 'p, 'tag) system \<Rightarrow> (nat \<times> nat) \<times> nat" where
  "sys_measure cfg y = (retry_measure cfg (submitter_of y), pool_rank (pool_of y) + owed y)"

definition sys_work_step where
  "sys_work_step impl cfg handle ctx y a z \<longleftrightarrow>
     yexec impl cfg handle ctx y a = Some z \<and> (sys_internal a \<or> sys_idle a)"

definition sys_at_work ::
  "('c, 'u, 'e, 'q, 't) ItemSubmitterConfig \<Rightarrow> nat \<Rightarrow> int \<Rightarrow> ('ctx, 'a, 'e, 'p, 'tag) system \<Rightarrow> bool" where
  "sys_at_work cfg N B y \<longleftrightarrow> y_inv y \<and> at_work cfg N B (submitter_of y)"

lemma pool_step_falls:
  assumes p: "p_inv (pool_of y)" and step: "pexec handle () (pool_of y) b = Some t"
    and b: "pinternal b" "pool_alone b \<or> (\<exists>i. b = WCompute i)"
  shows "(sys_measure cfg (y\<lparr>pool_of := t\<rparr>), sys_measure cfg y) \<in> falls <*lex*> less_than"
proof -
  have "submitting t = NoSubmit \<longleftrightarrow> submitting (pool_of y) = NoSubmit"
    using b(2)
  proof
    assume "pool_alone b"
    from pool_alone_frame [OF step this] show ?thesis by (simp add: pool_frame_def)
  next
    assume "\<exists>i. b = WCompute i"
    with step show ?thesis by (auto elim!: pexec_WCompute_cases)
  qed
  with pool_rank_step [OF p step b(1)] show ?thesis
    by (simp add: sys_measure_def owed_def split: puller.split)
qed

lemma submitter_step_falls:
  assumes "at_work cfg N B (submitter_of y)" and "Item_Submitter.sexec impl cfg (submitter_of y) b = Some (submitter_of z)"
    and "retry_internal b"
  shows "(sys_measure cfg z, sys_measure cfg y) \<in> falls <*lex*> less_than"
  using work_step_falls [OF assms(1), of impl b "submitter_of z"] assms(2,3)
  by (simp add: sys_measure_def work_step_def)

lemma yexec_falls:
  assumes inv: "sys_at_work cfg N B y" and step: "yexec impl cfg handle ctx y a = Some z" and int: "sys_internal a"
  shows "(sys_measure cfg z, sys_measure cfg y) \<in> falls <*lex*> less_than"
proof -
  from inv have p: "p_inv (pool_of y)" and w: "at_work cfg N B (submitter_of y)"
    by (simp_all add: sys_at_work_def y_inv_def)
  note sub = submitter_step_falls [OF w]
  show ?thesis
  proof (cases a)
    case (YClient b)
    with step int show ?thesis by (intro sub [of impl b]) (auto simp: yexec.simps split: if_splits)
  next
    case YGet
    with step show ?thesis
      by (intro sub [of impl Pull]) (auto simp: yexec.simps Item_Submitter.sexec.simps split: puller.splits)
  next
    case YHand
    with step show ?thesis
      by (auto simp: yexec.simps pexec.simps sys_measure_def owed_def pool_rank_def
          split: puller.splits if_splits)
  next
    case (YEnqueue c)
    with step show ?thesis
      by (intro sub [of impl Pull])
        (auto simp: yexec.simps Item_Submitter.sexec.simps split: puller.splits option.splits)
  next
    case (YPool b)
    with step int p show ?thesis
      by (auto simp: yexec.simps intro!: pool_step_falls split: if_splits)
  next
    case (YTask j ch)
    with step obtain i where "Item_Submitter.sexec impl cfg (submitter_of y) (Task i ch) = Some (submitter_of z)"
      by (auto simp: yexec.simps split: worker.splits if_splits)
    then show ?thesis by (rule sub) simp
  next
    case (YReturn j)
    with step p show ?thesis
      by (auto simp: yexec.simps intro!: pool_step_falls split: worker.splits if_splits)
  qed
qed

lemma yexec_idle:
  assumes "yexec impl cfg handle ctx y a = Some z" and "sys_idle a"
  shows "sys_measure cfg z = sys_measure cfg y" "\<exists>b. time_passes b \<and> work_step impl cfg (submitter_of y) b (submitter_of z)"
proof -
  from assms obtain b s where b: "a = YClient b" "time_passes b"
    "Item_Submitter.sexec impl cfg (submitter_of y) b = Some s" "z = y\<lparr>submitter_of := s\<rparr>"
    by (cases a) (auto simp: yexec.simps split: if_splits)
  from sexec_idle [OF b(3,2)] retry_measure_idle [OF b(3,2)] b(4)
  show "sys_measure cfg z = sys_measure cfg y" by (auto simp: sys_measure_def owed_def)
  show "\<exists>b. time_passes b \<and> work_step impl cfg (submitter_of y) b (submitter_of z)"
    using b by (auto simp: work_step_def)
qed

lemma sys_work_submitter:
  assumes "sys_work_step impl cfg handle ctx y a z"
  shows "submitter_of z = submitter_of y \<or> (\<exists>b. work_step impl cfg (submitter_of y) b (submitter_of z))"
proof -
  from assms have step: "yexec impl cfg handle ctx y a = Some z" and a: "sys_internal a \<or> sys_idle a"
    by (simp_all add: sys_work_step_def)
  show ?thesis
  proof (cases "sys_idle a")
    case True
    from yexec_idle(2) [OF step this] show ?thesis by auto
  next
    case False
    with a yexec_submitter [OF step] show ?thesis by (cases a) (auto simp: work_step_def)
  qed
qed

lemma sys_at_work_step:
  assumes "sys_at_work cfg N B y" and "sys_work_step impl cfg handle ctx y a z"
  shows "sys_at_work cfg N B z"
  using assms sys_work_submitter [OF assms(2)] y_inv_step [of y impl cfg handle ctx a z]
    at_work_step [of cfg N B "submitter_of y"]
  by (auto simp: sys_at_work_def sys_work_step_def)

lemma sys_work_step_falls:
  assumes "sys_at_work cfg N B y" and "sys_work_step impl cfg handle ctx y a z" and "sys_internal a"
  shows "(sys_measure cfg z, sys_measure cfg y) \<in> falls <*lex*> less_than"
  using yexec_falls [OF assms(1) conjunct1 [OF assms(2) [unfolded sys_work_step_def]] assms(3)] .

lemma sys_work_step_idle:
  assumes "sys_work_step impl cfg handle ctx y a z" and "sys_idle a"
  shows "sys_measure cfg z = sys_measure cfg y"
  using yexec_idle(1) [OF conjunct1 [OF assms(1) [unfolded sys_work_step_def]] assms(2)] .

interpretation sw: terminating_system "sys_at_work cfg N B" "sys_work_step impl cfg handle ctx"
  "sys_at_work cfg N B" sys_internal sys_idle "sys_measure cfg" "falls <*lex*> less_than"
proof (unfold_locales, goal_cases)
  case (2 y a z)
  then show ?case by (rule sys_at_work_step)
next
  case (4 y a z)
  then show ?case by (rule sys_work_step_falls)
next
  case (5 y a z)
  from sys_work_step_idle [OF this(2,3)] show ?case .
qed (auto intro: wf_falls wf_lex_prod)

section \<open>When nothing is left to do\<close>

definition sys_work_done where
  "sys_work_done impl cfg handle ctx y \<longleftrightarrow>
     (\<forall>bs u a v. path (sys_work_step impl cfg handle ctx) y bs u \<longrightarrow> (\<forall>b \<in> set bs. sys_idle b) \<longrightarrow>
        sys_internal a \<longrightarrow> \<not> sys_work_step impl cfg handle ctx u a v)"

lemma done_no_step:
  assumes "sys_work_done impl cfg handle ctx y" and "sys_internal a"
  shows "yexec impl cfg handle ctx y a = None"
proof (rule ccontr)
  assume "yexec impl cfg handle ctx y a \<noteq> None"
  then obtain z where "yexec impl cfg handle ctx y a = Some z" by auto
  then have "sys_work_step impl cfg handle ctx y a z" using assms(2) by (simp add: sys_work_step_def)
  with assms path_Nil [of "sys_work_step impl cfg handle ctx" y] show False
    unfolding sys_work_done_def by fastforce
qed

lemma done_task_over:
  assumes fin: "sys_work_done impl cfg handle ctx y" and inv: "y_inv y"
    and j: "j < length (workers (pool_of y))" "workers (pool_of y) ! j = WRun p"
  shows "is_over (tasks (submitter_of y) ! p)"
proof (rule ccontr)
  assume not: "\<not> is_over (tasks (submitter_of y) ! p)"
  have "p < length (tasks (submitter_of y))"
    using inv worker_task(1) [OF _ j] by (simp add: y_inv_def link_inv_def)
  from task_has_step [OF this not] obtain ch s where
    "Item_Submitter.sexec impl cfg (submitter_of y) (Task p ch) = Some s" by blast
  with j have "yexec impl cfg handle ctx y (YTask j ch) \<noteq> None" by (simp add: yexec.simps)
  with done_no_step [OF fin, of "YTask j ch"] show False by simp
qed

lemma done_pool_at_rest:
  fixes y :: "('ctx, 'a, 'e, 'p, 'tag) system"
  assumes fin: "sys_work_done impl cfg handle ctx y" and inv: "y_inv y"
  shows "pool_at_rest handle () (pool_of y)"
  unfolding pool_at_rest_def
proof (intro allI impI)
  fix b :: "('ctx, unit, unit, 'e, 'p) pact"
  assume b: "pinternal b"
  show "pexec handle () (pool_of y) b = None"
  proof (rule ccontr)
    assume "pexec handle () (pool_of y) b \<noteq> None"
    then obtain t where t: "pexec handle () (pool_of y) b = Some t" by auto
    consider "pool_alone b" | c where "b = PEnqueue c" | j where "b = WCompute j"
      using b by (cases b) auto
    then show False
    proof cases
      case 1
      with t b have "yexec impl cfg handle ctx y (YPool b) \<noteq> None" by (simp add: yexec.simps)
      with b done_no_step [OF fin, of "YPool b"] show False by simp
    next
      case 2
      with t inv have "submitting (pool_of y) \<noteq> NoSubmit" by (auto elim: pexec_PEnqueue_cases)
      with inv obtain x where x: "puller (submitter_of y) = Submitting x" by (auto simp: y_inv_def link_inv_def)
      with t 2 have "yexec impl cfg handle ctx y (YEnqueue c) \<noteq> None" by (simp add: yexec.simps pull_def)
      with done_no_step [OF fin, of "YEnqueue c"] show False by simp
    next
      case 3
      with t obtain p where p: "j < length (workers (pool_of y))" "workers (pool_of y) ! j = WRun p"
        by (auto elim: pexec_WCompute_cases)
      with t 3 done_task_over [OF fin inv p] have "yexec impl cfg handle ctx y (YReturn j) \<noteq> None"
        by (simp add: yexec.simps)
      with done_no_step [OF fin, of "YReturn j"] show False by simp
    qed
  qed
qed

lemma done_computed:
  assumes fin: "sys_work_done impl cfg handle ctx y" and inv: "y_inv y" and up: "\<not> ctxDone (pool_of y)"
    and i: "i < length (futures (pool_of y))"
  shows "Get_result (futures (pool_of y) ! i) \<noteq> None" "is_over (tasks (submitter_of y) ! i)"
proof -
  let ?P = "pool_of y"
  from inv have p: "p_inv ?P" and link: "link_inv y" by (simp_all add: y_inv_def)
  have open': "\<not> fq_ShuttingDown (pqueue ?P)" and alive: "WDied \<notin> set (workers ?P)"
    using p up by (auto simp: p_inv_def pool_stop_inv_def fq_ShuttingDown_def cq_ShuttingDown_def)
  with link i have acc: "i \<in> set (accepted ?P)" by (simp add: link_inv_def)
  then have "accepted ?P \<noteq> []" by auto
  then have "workers ?P \<noteq> []" by (rule accepted_has_workers [OF p])
  with alive have "\<exists>g \<in> set (workers ?P). g \<noteq> WDied" by (cases "workers ?P") auto
  from at_rest_computed [OF p done_pool_at_rest [OF fin inv] this acc]
  show res: "Get_result (futures ?P ! i) \<noteq> None" .
  then have "computationResult (futures ?P ! i) \<noteq> None" by simp
  with i have "i \<in> set (computed ?P)" using p by (simp add: p_inv_def pool_task_inv_def)
  with link show "is_over (tasks (submitter_of y) ! i)" by (auto simp: link_inv_def)
qed

lemma done_tasks_over:
  assumes fin: "sys_work_done impl cfg handle ctx y" and inv: "y_inv y" and up: "\<not> ctxDone (pool_of y)"
    and st: "st \<in> set (tasks (submitter_of y))"
  shows "is_over st"
  using st done_computed(2) [OF fin inv up] inv by (auto simp: in_set_conv_nth y_inv_def link_inv_def)

lemma over_no_stage: "is_over (tasks s ! i) \<Longrightarrow> callback_step impl cfg i ch s = None"
  by (cases "tasks s ! i"; cases ch) (auto simp: callback_step_def Let_def)

lemma done_sub_at_rest:
  fixes y :: "('ctx, 'a, 'e, 'p, 'tag) system"
  assumes fin: "sys_work_done impl cfg handle ctx y" and inv: "y_inv y" and up: "\<not> ctxDone (pool_of y)"
  shows "sub_at_rest impl cfg (submitter_of y)"
  unfolding sub_at_rest_def
proof (intro allI impI notI)
  fix b :: "('a, 'e) sact" and s
  assume b: "sub_internal b" and s: "Item_Submitter.sexec impl cfg (submitter_of y) b = Some s"
  show False
  proof (cases b)
    case Pull
    with s have pull: "pull (submitter_of y) = Some s" by (simp add: Item_Submitter.sexec.simps)
    show False
    proof (cases "puller (submitter_of y)")
      case Pulling
      with pull have "yexec impl cfg handle ctx y YGet \<noteq> None" by (simp add: yexec.simps)
      with done_no_step [OF fin, of YGet] show False by simp
    next
      case (Submitting x)
      have "submitting (pool_of y) = NoSubmit" by (rule at_rest_submission [OF done_pool_at_rest [OF fin inv]])
      with Submitting have "yexec impl cfg handle ctx y YHand \<noteq> None" by (simp add: yexec.simps pexec.simps)
      with done_no_step [OF fin, of YHand] show False by simp
    next
      case PullerStopped
      with pull show False by (simp add: pull_def)
    qed
  next
    case (Task i ch)
    with s have i: "i < length (tasks (submitter_of y))" "callback_step impl cfg i ch (submitter_of y) = Some s"
      by (simp_all add: Item_Submitter.sexec.simps split: if_splits)
    from i(2) show False by (simp add: over_no_stage [OF done_tasks_over [OF fin inv up nth_mem [OF i(1)]]])
  next
    case (QueueTimer c)
    with s have "yexec impl cfg handle ctx y (YClient b) \<noteq> None" by (simp add: yexec.simps)
    with b done_no_step [OF fin, of "YClient b"] sub_internal_retry show False by fastforce
  qed (use b in simp_all)
qed

lemma done_no_pending:
  assumes fin: "sys_work_done impl cfg handle ctx y"
  shows "status (sq (submitter_of y)) e \<noteq> Some Pending"
proof
  assume e: "status (sq (submitter_of y)) e = Some Pending"
  let ?q = "sq (submitter_of y)"
  define d where "d = max 0 (fireAt (entries ?q ! e) - clock ?q)"
  let ?u = "y\<lparr>submitter_of := (submitter_of y)\<lparr>sq := ?q\<lparr>clock := clock ?q + d\<rparr>\<rparr>\<rparr>"
  have "sys_work_step impl cfg handle ctx y (YClient (QueueTimer (ActTick d))) ?u"
    by (simp add: sys_work_step_def yexec.simps Item_Submitter.sexec.simps d_def)
  then have "path (sys_work_step impl cfg handle ctx) y [YClient (QueueTimer (ActTick d))] ?u"
    by (auto intro: path.intros)
  moreover have "\<exists>v. sys_work_step impl cfg handle ctx ?u (YClient (QueueTimer (ActFire e))) v"
    using e by (simp add: sys_work_step_def yexec.simps Item_Submitter.sexec.simps status_def d_def split: if_splits)
  ultimately show False using fin unfolding sys_work_done_def by fastforce
qed

lemma pexec_ctxDone: "pexec handle zero s b = Some t \<Longrightarrow> b \<noteq> PCancel \<Longrightarrow> ctxDone t = ctxDone s"
proof (cases b)
  case (WGet i)
  moreover assume "pexec handle zero s b = Some t"
  ultimately show ?thesis
    by (cases "queue (delegate (pqueue s))") (auto elim!: pexec_WGet_cases simp: worker_get_empty worker_get_item)
qed (auto elim!: pexec_WDone_cases pexec_WCompute_cases pexec_PEnqueue_cases pexec_PClose_cases,
  auto simp: pexec.simps startWorkerAsync_def split: submission.splits option.splits if_splits)

lemma sys_work_ctxDone:
  assumes "sys_work_step impl cfg handle ctx y a z"
  shows "ctxDone (pool_of z) = ctxDone (pool_of y)"
proof -
  from assms have step: "yexec impl cfg handle ctx y a = Some z" and a: "sys_internal a \<or> sys_idle a"
    by (simp_all add: sys_work_step_def)
  then have "pool_of z = pool_of y \<or> (\<exists>b. b \<noteq> PCancel \<and> pexec handle () (pool_of y) b = Some (pool_of z))"
  proof (cases a)
    case (YPool b)
    with a have "b \<noteq> PCancel" by auto
    with YPool step show ?thesis by (auto simp: yexec.simps split: if_splits)
  qed (auto simp: yexec.simps split: puller.splits worker.splits option.splits if_splits)
  then show ?thesis by (auto dest: pexec_ctxDone)
qed

lemma sys_path_ctxDone:
  "path (sys_work_step impl cfg handle ctx) y as z \<Longrightarrow> ctxDone (pool_of z) = ctxDone (pool_of y)"
  by (induction rule: path.induct) (simp_all add: sys_work_ctxDone)

lemma sys_reach_at_work:
  assumes "reach yinit (by_exec (yexec impl cfg handle ctx)) y" and "\<not> unlimitedRetries cfg"
    and "max 0 (maxNumRequeues cfg) + int (length (tasks (submitter_of y))) + int (tokens (submitter_of y)) < 2 ^ 63"
  shows "sys_at_work cfg (tokens (submitter_of y)) (max 0 (maxNumRequeues cfg)
    + int (length (tasks (submitter_of y))) + int (tokens (submitter_of y))) y"
  using reach_at_work [OF conjunct1 [OF ys.reach_embeds [OF assms(1)]] assms(2,3)] ys.outer_invariant [OF assms(1)]
  by (simp add: sys_at_work_def)

section \<open>A pool that has shut down\<close>

text \<open>A task that the pool refused keeps its item.\<close>

definition stranded where
  "stranded p x R y \<longleftrightarrow> y_inv y \<and> p < length (tasks (submitter_of y))
     \<and> tasks (submitter_of y) ! p = Waiting x \<and> p \<notin> set (accepted (pool_of y))
     \<and> filter (\<lambda>r. fst r = x) (reports (submitter_of y)) = R"

lemma stage_reports:
  assumes i: "i < length (tasks s)" and step: "callback_step impl cfg i ch s = Some t"
  shows "reports t = reports s \<or> (\<exists>x err. tasks s ! i = Returned x err \<and> reports t = reports s @ [(x, err)])"
  using i step by (cases rule: callback_step_cases) simp_all

lemma stranded_task:
  assumes st: "stranded p x R y" and i: "i < length (tasks (submitter_of y))" "i \<noteq> p"
    and step: "callback_step impl cfg i ch (submitter_of y) = Some s"
  shows "tasks s ! p = Waiting x \<and> p < length (tasks s) \<and> filter (\<lambda>r. fst r = x) (reports s) = R"
proof -
  from st have inv: "sub_inv (submitter_of y)" and p: "p < length (tasks (submitter_of y))"
    "tasks (submitter_of y) ! p = Waiting x" and R: "filter (\<lambda>r. fst r = x) (reports (submitter_of y)) = R"
    by (simp_all add: stranded_def y_inv_def)
  note f = stage_frame [OF i(1) step]
  have same: "tasks s ! p = Waiting x" "p < length (tasks s)" by (subst f(1), use i(2) p in simp)+
  have "filter (\<lambda>r. fst r = x) (reports s) = R"
    using stage_reports [OF i(1) step]
  proof (elim disjE exE conjE)
    fix x' err
    assume r: "tasks (submitter_of y) ! i = Returned x' err" "reports s = reports (submitter_of y) @ [(x', err)]"
    with held_disjoint [OF inv i(1) p(1) i(2)] p(2) have "x' \<noteq> x" by auto
    with r R show ?thesis by simp
  qed (use R in simp)
  with same show ?thesis by simp
qed

lemma stranded_step:
  assumes st: "stranded p x R y" and step: "yexec impl cfg handle ctx y a = Some z"
  shows "stranded p x R z"
proof -
  from st have inv: "y_inv y" and p: "p < length (tasks (submitter_of y))" "p \<notin> set (accepted (pool_of y))"
    "tasks (submitter_of y) ! p = Waiting x" by (simp_all add: stranded_def)
  have pool: "p_inv (pool_of y)" "p < length (futures (pool_of y))"
    using inv p(1) by (simp_all add: y_inv_def link_inv_def)
  have acc: "p \<notin> set (accepted (pool_of z))"
    using yexec_pool [OF step] accepted_grows [OF pool(1)] pool(2) p(2) by auto
  have "p < length (tasks (submitter_of z)) \<and> tasks (submitter_of z) ! p = Waiting x
      \<and> filter (\<lambda>r. fst r = x) (reports (submitter_of z)) = R"
  proof (cases a)
    case (YClient b)
    with step st show ?thesis
      by (auto simp: yexec.simps stranded_def dest!: client_frame split: if_splits)
  next
    case YGet
    with step obtain s where s: "pull (submitter_of y) = Some s" "z = y\<lparr>submitter_of := s\<rparr>"
      by (auto simp: yexec.simps split: puller.splits)
    from s(1) st show ?thesis unfolding s(2) by (cases rule: pull_cases) (auto simp: stranded_def nth_append)
  next
    case (YEnqueue c)
    with step obtain s t where s: "pull (submitter_of y) = Some s" "z = \<lparr>submitter_of = s, pool_of = t\<rparr>"
      by (auto simp: yexec.simps split: puller.splits option.splits)
    from s(1) st show ?thesis unfolding s(2) by (cases rule: pull_cases) (auto simp: stranded_def nth_append)
  next
    case (YTask j ch)
    with step obtain i s where s: "j < length (workers (pool_of y))" "workers (pool_of y) ! j = WRun i"
      "i < length (tasks (submitter_of y))" "callback_step impl cfg i ch (submitter_of y) = Some s"
      "z = y\<lparr>submitter_of := s\<rparr>"
      by (auto simp: yexec.simps Item_Submitter.sexec.simps split: worker.splits if_splits)
    have "i \<noteq> p" using worker_task(3) [OF pool(1) s(1,2)] p(2) by auto
    from stranded_task [OF st s(3) this s(4)] s(5) show ?thesis by simp
  qed (use step st in \<open>auto simp: yexec.simps stranded_def split: puller.splits worker.splits if_splits\<close>)
  with acc y_inv_step [OF inv step] show ?thesis by (simp add: stranded_def)
qed

lemma stranded_path: "path (by_exec (yexec impl cfg handle ctx)) y as z \<Longrightarrow> stranded p x R y \<Longrightarrow> stranded p x R z"
  by (induction rule: path.induct) (auto simp: by_exec_def intro: stranded_step)

lemma stranded_blocked: "stranded p x R y \<Longrightarrow> x |\<in>| processing (sq (submitter_of y))"
  using held_task [of "submitter_of y" p x] by (simp add: stranded_def y_inv_def)

section \<open>Properties\<close>

fun under_way :: "('a, 'e) stage \<Rightarrow> bool" where
  "under_way st = (\<not> is_waiting st \<and> \<not> is_over st)"

text \<open>
  Claim C8: the item submitter over its pool is a refinement of both machines. Whatever the
  schedule, the submitter goes through states of the submitter's own machine and the pool through
  states of the pool's, and the two agree: a consumer is called or its callback under way only while a
  worker of the pool is in \<open>Compute\<close> of that task. Hence at most the configured number of items is being
  processed at any moment.
\<close>

theorem system_refines_parts:
  assumes "reach yinit (by_exec (yexec impl cfg handle ctx)) y"
  shows "reach sinit (by_exec (Item_Submitter.sexec impl cfg)) (submitter_of y)
    \<and> reach pinit (by_exec (pexec handle ())) (pool_of y)
    \<and> (\<forall>i < length (tasks (submitter_of y)).
         under_way (tasks (submitter_of y) ! i) \<longrightarrow> WRun i \<in> set (workers (pool_of y)))
    \<and> card {i. i < length (tasks (submitter_of y)) \<and> under_way (tasks (submitter_of y) ! i)}
        \<le> length (workers (pool_of y))
    \<and> (\<forall>m. maxNumberOfWorkers (Worker_Pool.config (pool_of y)) = Some m \<longrightarrow>
         int (card {i. i < length (tasks (submitter_of y)) \<and> under_way (tasks (submitter_of y) ! i)}) \<le> m)"
proof -
  let ?U = "{i. i < length (tasks (submitter_of y)) \<and> under_way (tasks (submitter_of y) ! i)}"
  have inv: "y_inv y" using assms by (rule ys.outer_invariant)
  then have link: "link_inv y" and p: "p_inv (pool_of y)" by (simp_all add: y_inv_def)
  have run: "WRun i \<in> set (workers (pool_of y))" if "i \<in> ?U" for i
    using link that by (auto simp: link_inv_def)
  then have "WRun ` ?U \<subseteq> set (workers (pool_of y))" by blast
  then have "card (WRun ` ?U) \<le> length (workers (pool_of y))"
    using card_mono [OF finite_set] card_length le_trans by metis
  moreover have "card (WRun ` ?U) = card ?U" by (rule card_image) (simp add: inj_on_def)
  ultimately have card: "card ?U \<le> length (workers (pool_of y))" by simp
  have max: "int (length (workers (pool_of y))) \<le> m"
    if "maxNumberOfWorkers (Worker_Pool.config (pool_of y)) = Some m" for m
    using p that by (simp add: p_inv_def pool_count_inv_def)
  from card have "int (card ?U) \<le> m" if "maxNumberOfWorkers (Worker_Pool.config (pool_of y)) = Some m" for m
    using max [OF that] by linarith
  with card run ys.reach_embeds [OF assms] yp.reach_embeds [OF assms] show ?thesis by simp
qed

text \<open>What is left when the work is done.\<close>

lemma work_done_outcome:
  assumes fin: "sys_work_done impl cfg handle ctx z" and y: "y_inv z" and up: "\<not> ctxDone (pool_of z)"
  shows "list_all is_over (tasks (submitter_of z))"
    and "list_all (\<lambda>f. Get_result f \<noteq> None) (futures (pool_of z))"
    and "\<forall>e. status (sq (submitter_of z)) e \<in> {None, Some Stopped, Some Finished}"
    and "puller (submitter_of z) \<noteq> PullerStopped \<longrightarrow>
      (\<forall>x. x |\<in>| dirty (sq (submitter_of z)) \<longrightarrow> Lost x \<in> set (tasks (submitter_of z)))"
proof -
  from y have inv: "sub_inv (submitter_of z)" "d_inv (sq (submitter_of z))" by (simp_all add: y_inv_def)
  note rest = done_sub_at_rest [OF fin y up]
  show "list_all is_over (tasks (submitter_of z))"
    using done_tasks_over [OF fin y up] by (simp add: list_all_iff)
  show "list_all (\<lambda>f. Get_result f \<noteq> None) (futures (pool_of z))"
    using done_computed(1) [OF fin y up] by (simp add: list_all_length)
  have "status (sq (submitter_of z)) e \<in> {None, Some Stopped, Some Finished}" for e
    using rest_timers [OF rest, of e] done_no_pending [OF fin, of e]
    by (cases "status (sq (submitter_of z)) e") auto
  then show "\<forall>e. status (sq (submitter_of z)) e \<in> {None, Some Stopped, Some Finished}" ..
  show "puller (submitter_of z) \<noteq> PullerStopped \<longrightarrow>
      (\<forall>x. x |\<in>| dirty (sq (submitter_of z)) \<longrightarrow> Lost x \<in> set (tasks (submitter_of z)))"
    using rest_dirty [OF rest inv] by blast
qed

text \<open>
  Claim C2: the item submitter over its pool gets everything done. While the pool's context is not
  cancelled, and with limited retries, a run without new submissions is only waiting for time to pass from
  some point on, whatever the consumers return and however puller, workers, callbacks and timers
  interleave; and it can go on until nothing is left to do. Then every task is over and its future has a
  result, no timer is left, and, unless the puller has stopped for its own shutdown, an item that
  is still marked as submitted is one on which the consumer panicked.
\<close>

theorem system_completes:
  assumes "reach yinit (by_exec (yexec impl cfg handle ctx)) y" and "\<not> unlimitedRetries cfg"
    and "max 0 (maxNumRequeues cfg) + int (length (tasks (submitter_of y))) + int (tokens (submitter_of y)) < 2 ^ 63"
    and "\<not> ctxDone (pool_of y)"
  shows "(\<forall>f act. f 0 = y \<and> (\<forall>n. sys_work_step impl cfg handle ctx (f n) (act n) (f (Suc n)))
        \<longrightarrow> (\<exists>n. \<forall>m \<ge> n. sys_idle (act m)))
    \<and> (\<exists>as z. path (sys_work_step impl cfg handle ctx) y as z \<and> sys_work_done impl cfg handle ctx z)
    \<and> (\<forall>as z. path (sys_work_step impl cfg handle ctx) y as z \<and> sys_work_done impl cfg handle ctx z
        \<longrightarrow> list_all is_over (tasks (submitter_of z))
          \<and> list_all (\<lambda>f. Get_result f \<noteq> None) (futures (pool_of z))
          \<and> (\<forall>e. status (sq (submitter_of z)) e \<in> {None, Some Stopped, Some Finished})
          \<and> (puller (submitter_of z) \<noteq> PullerStopped \<longrightarrow>
               (\<forall>x. x |\<in>| dirty (sq (submitter_of z)) \<longrightarrow> Lost x \<in> set (tasks (submitter_of z)))))"
proof (rule conjI [OF _ conjI]; (intro allI impI)?)
  note inv = sys_reach_at_work [OF assms(1-3)]
  show "\<exists>n. \<forall>m \<ge> n. sys_idle (act m)"
    if run: "f 0 = y \<and> (\<forall>n. sys_work_step impl cfg handle ctx (f n) (act n) (f (Suc n)))" for f act
  proof (rule sw.eventually_idle [where f = f and act = act])
    show "sys_at_work cfg (tokens (submitter_of y)) (max 0 (maxNumRequeues cfg)
        + int (length (tasks (submitter_of y))) + int (tokens (submitter_of y))) (f 0)"
      using run inv by simp
    show "sys_work_step impl cfg handle ctx (f n) (act n) (f (Suc n))
        \<and> (sys_internal (act n) \<or> sys_idle (act n))" for n
      using run by (auto simp: sys_work_step_def)
  qed
  show "\<exists>as z. path (sys_work_step impl cfg handle ctx) y as z \<and> sys_work_done impl cfg handle ctx z"
    using sw.finishes [OF inv, of impl handle ctx] by (auto simp: sys_work_done_def)
  show "list_all is_over (tasks (submitter_of z))
      \<and> list_all (\<lambda>f. Get_result f \<noteq> None) (futures (pool_of z))
      \<and> (\<forall>e. status (sq (submitter_of z)) e \<in> {None, Some Stopped, Some Finished})
      \<and> (puller (submitter_of z) \<noteq> PullerStopped \<longrightarrow>
           (\<forall>x. x |\<in>| dirty (sq (submitter_of z)) \<longrightarrow> Lost x \<in> set (tasks (submitter_of z))))"
    if z: "path (sys_work_step impl cfg handle ctx) y as z \<and> sys_work_done impl cfg handle ctx z" for as z
  proof -
    have "y_inv z" using sw.inv_path [OF conjunct1 [OF z] inv] by (simp add: sys_at_work_def)
    moreover have "\<not> ctxDone (pool_of z)" using sys_path_ctxDone [OF conjunct1 [OF z]] assms(4) by simp
    ultimately show ?thesis using work_done_outcome [OF conjunct2 [OF z]] by blast
  qed
qed

text \<open>
  Claim C24: a pool that has shut down strands items. When the consumer pool's own context ends before
  the submitter's, the pool drops what the puller hands over without a word: the item's consumer is
  never called, nothing is reported for the item any more, and it stays in the processing set, so that no
  later submission of it is processed either.
\<close>

theorem closed_pool_strands_item:
  assumes "reach yinit (by_exec (yexec impl cfg handle ctx)) y"
    and "fq_ShuttingDown (pqueue (pool_of y))" and "puller (submitter_of y) = Submitting x"
    and "yexec impl cfg handle ctx y (YEnqueue c) = Some z"
    and "path (by_exec (yexec impl cfg handle ctx)) z as u"
  shows "tasks (submitter_of u) ! length (tasks (submitter_of y)) = Waiting x
    \<and> x |\<in>| processing (sq (submitter_of u))
    \<and> filter (\<lambda>r. fst r = x) (reports (submitter_of u)) = filter (\<lambda>r. fst r = x) (reports (submitter_of y))"
proof -
  let ?p = "length (tasks (submitter_of y))"
  have inv: "y_inv y" using assms(1) by (rule ys.outer_invariant)
  then have p: "p_inv (pool_of y)" and len: "?p = length (futures (pool_of y))" by (simp_all add: y_inv_def link_inv_def)
  from assms(3,4) obtain s t where s: "pull (submitter_of y) = Some s"
    "pexec handle () (pool_of y) (PEnqueue c) = Some t" "z = \<lparr>submitter_of = s, pool_of = t\<rparr>"
    by (auto simp: yexec.simps split: option.splits)
  from s(1) assms(3) have "tasks s = tasks (submitter_of y) @ [Waiting x]" "reports s = reports (submitter_of y)"
    by (cases rule: pull_cases; simp)+
  moreover have "accepted t = accepted (pool_of y)" using PEnqueue_frame(4) [OF p s(2)] assms(2) by simp
  moreover have "?p \<notin> set (accepted (pool_of y))"
    using p len by (auto simp: p_inv_def pool_task_inv_def)
  ultimately have "stranded ?p x (filter (\<lambda>r. fst r = x) (reports (submitter_of y))) z"
    using y_inv_step [OF inv assms(4)] by (simp add: stranded_def s(3))
  from stranded_path [OF assms(5) this] stranded_blocked [OF this] show ?thesis
    using stranded_blocked by (fastforce simp: stranded_def)
qed

section \<open>Runs on concrete inputs\<close>

text \<open>A submitter over a pool of one worker; the consumer has failed on \<open>''k''\<close>.\<close>

definition sample_handle :: "unit \<Rightarrow> string \<Rightarrow> unit \<Rightarrow> string \<times> unit" where
  "sample_handle = (\<lambda>_ p w. (p, w))"

definition sample_system :: "(unit, string, string, string, nat) system" where
  "sample_system = \<lparr>submitter_of = NewDefaultItemSubmitter,
     pool_of = NewDefaultSupplierWorkerPool [WithMaxNumberOfWorkers 1] ()\<rparr>"

abbreviation sample_exec where
  "sample_exec \<equiv> yexec (\<lambda>_. 0) (sample_config 1) sample_handle ()"

definition handed_over :: "(unit, string, string, string) yact list" where
  "handed_over = [YClient (SubmitItem ''k''), YGet, YHand, YPool PCount, YPool PStart, YEnqueue None]"

lemma sample_init: "yinit sample_system"
  unfolding yinit_def sample_system_def pinit_def is_option_def
  by (auto intro!: exI [of _ "[WithMaxNumberOfWorkers 1]"] exI [of _ "()"])

lemma failed_run:
  "\<exists>y :: (unit, string, string, string, nat) system.
     run sample_exec sample_system (handed_over @
       [YPool (WGet 0), YPool (WDone 0 None), YTask 0 (ConsumerReturns (Some ''e''))]) = Some y
     \<and> tasks (submitter_of y) = [Returned ''k'' (Some ''e'')] \<and> tokens (submitter_of y) = 1
     \<and> workers (pool_of y) = [WRun 0] \<and> \<not> ctxDone (pool_of y)
     \<and> maxNumberOfWorkers (Worker_Pool.config (pool_of y)) = Some 1"
  by (simp add: handed_over_def sample_system_def yexec.simps submitter_eval pool_eval tokens_def queue_tokens_def)

lemma failed_reach:
  obtains y :: "(unit, string, string, string, nat) system" where
    "reach yinit (by_exec sample_exec) y" "tasks (submitter_of y) = [Returned ''k'' (Some ''e'')]"
    "tokens (submitter_of y) = 1" "workers (pool_of y) = [WRun 0]" "\<not> ctxDone (pool_of y)"
    "maxNumberOfWorkers (Worker_Pool.config (pool_of y)) = Some 1"
proof -
  obtain y :: "(unit, string, string, string, nat) system" where y:
    "run sample_exec sample_system (handed_over @
       [YPool (WGet 0), YPool (WDone 0 None), YTask 0 (ConsumerReturns (Some ''e''))]) = Some y"
    "tasks (submitter_of y) = [Returned ''k'' (Some ''e'')]"
    "tokens (submitter_of y) = 1" "workers (pool_of y) = [WRun 0]" "\<not> ctxDone (pool_of y)"
    "maxNumberOfWorkers (Worker_Pool.config (pool_of y)) = Some 1" using failed_run by blast
  have "reach yinit (by_exec sample_exec) y" by (rule run_reach [OF _ y(1)]) (rule sample_init)
  then show ?thesis using y(2-6) that by blast
qed

theorem system_refines_parts_witness:
  "\<exists>y :: (unit, string, string, string, nat) system.
     under_way (tasks (submitter_of y) ! 0) \<and> WRun 0 \<in> set (workers (pool_of y))
     \<and> int (card {i. i < length (tasks (submitter_of y)) \<and> under_way (tasks (submitter_of y) ! i)}) \<le> 1"
proof -
  obtain y :: "(unit, string, string, string, nat) system" where y:
    "reach yinit (by_exec sample_exec) y" "tasks (submitter_of y) = [Returned ''k'' (Some ''e'')]"
    "maxNumberOfWorkers (Worker_Pool.config (pool_of y)) = Some 1" by (rule failed_reach)
  with system_refines_parts [OF y(1)] show ?thesis by (intro exI [of _ y]) simp
qed

theorem system_completes_witness:
  "\<exists>y z :: (unit, string, string, string, nat) system.
     tasks (submitter_of y) = [Returned ''k'' (Some ''e'')] \<and> list_all is_over (tasks (submitter_of z))
     \<and> (\<exists>as. path (sys_work_step (\<lambda>_. 0) (sample_config 1) sample_handle ()) y as z)"
proof -
  obtain y :: "(unit, string, string, string, nat) system" where y:
    "reach yinit (by_exec sample_exec) y" "tasks (submitter_of y) = [Returned ''k'' (Some ''e'')]"
    "tokens (submitter_of y) = 1" "\<not> ctxDone (pool_of y)" by (rule failed_reach)
  from system_completes [OF y(1) _ _ y(4)] y(2,3) obtain as z where
    "path (sys_work_step (\<lambda>_. 0) (sample_config 1) sample_handle ()) y as z"
    "list_all is_over (tasks (submitter_of z))"
    by (auto simp: sample_config_simps)
  with y(2) show ?thesis by blast
qed

theorem closed_pool_strands_item_witness:
  "\<exists>u :: (unit, string, string, string, nat) system.
     tasks (submitter_of u) = [Waiting ''k''] \<and> ''k'' |\<in>| processing (sq (submitter_of u))
     \<and> ctxDone (pool_of u) \<and> puller (submitter_of u) = Pulling"
proof -
  let ?as = "[YPool PCancel, YPool PClose, YClient (SubmitItem ''k''), YGet, YHand, YPool PCount, YPool PStart]"
  have "\<exists>y z. run sample_exec sample_system ?as = Some y \<and> fq_ShuttingDown (pqueue (pool_of y))
      \<and> puller (submitter_of y) = Submitting ''k'' \<and> tasks (submitter_of y) = []
      \<and> sample_exec y (YEnqueue None) = Some z \<and> tasks (submitter_of z) = [Waiting ''k''] \<and> ctxDone (pool_of z)
      \<and> puller (submitter_of z) = Pulling"
    by (simp add: sample_system_def yexec.simps submitter_eval pool_eval)
  then obtain y z where y: "run sample_exec sample_system ?as = Some y" "fq_ShuttingDown (pqueue (pool_of y))"
    "puller (submitter_of y) = Submitting ''k''" "tasks (submitter_of y) = []"
    "sample_exec y (YEnqueue None) = Some z" "tasks (submitter_of z) = [Waiting ''k'']" "ctxDone (pool_of z)"
    "puller (submitter_of z) = Pulling" by blast
  have "reach yinit (by_exec sample_exec) y" by (rule run_reach [OF _ y(1)]) (rule sample_init)
  from closed_pool_strands_item [OF this y(2,3,5) path_Nil] y(4,6-8) show ?thesis by (intro exI [of _ z]) simp
qed

end
