(* ===== verification/Jobs.thy ===== *)
theory Jobs
  imports Go_Functions
begin

text \<open>
  The package \<open>jobs\<close>: a job with its options, and the runner that runs each job in a goroutine of its
  own until the context is done. The loop of a goroutine is the value of \<open>go_loop\<close> (\<open>None\<close>: it
  runs forever). The \<open>select\<close> over \<open>time.After\<close> and the context is an argument, \<open>await d ctx w\<close>,
  true when the timer fired; so are the logger's parameters and the health source's \<open>Submit\<close>. Spans and
  informational log lines are left out.
\<close>

section \<open>jobs/api.go, jobs/job.go, jobs/job_option.go\<close>

record ('ctx, 'w, 'e, 'p) Job = "('ctx, 'w, 'e, 'p) NamedRunnable" +
  ShouldStartImmediately :: "'ctx \<Rightarrow> bool"
  GetInterval :: "'ctx \<Rightarrow> int"
  LogError :: "'ctx \<Rightarrow> 'e \<Rightarrow> ('w, unit, 'p) go"

record ('ctx, 'w, 'e, 'p) defaultJob =
  job_name :: string
  job_runnable :: "('ctx, 'w, 'e, 'p) runnable"
  interval :: int
  logError :: "('ctx \<Rightarrow> 'e \<Rightarrow> ('w, unit, 'p) go) option"
  startImmediately :: bool

type_synonym ('ctx, 'w, 'e, 'p) JobOption = "('ctx, 'w, 'e, 'p) defaultJob \<Rightarrow> ('ctx, 'w, 'e, 'p) defaultJob"

definition WithInterval :: "int \<Rightarrow> ('ctx, 'w, 'e, 'p) JobOption" where
  "WithInterval d job = job\<lparr>interval := d\<rparr>"

definition WithErrorLogger ::
  "('ctx \<Rightarrow> 'e \<Rightarrow> ('w, unit, 'p) go) option \<Rightarrow> ('ctx, 'w, 'e, 'p) JobOption" where
  "WithErrorLogger errorLogger job = job\<lparr>logError := errorLogger\<rparr>"

definition WithStartImmediately :: "bool \<Rightarrow> ('ctx, 'w, 'e, 'p) JobOption" where
  "WithStartImmediately b job = job\<lparr>startImmediately := b\<rparr>"

text \<open>The methods of \<open>*defaultJob\<close>; calling a \<open>nil\<close> logger panics with \<open>nilPanic\<close>.\<close>

definition defaultJob_ShouldStartImmediately :: "('ctx, 'w, 'e, 'p) defaultJob \<Rightarrow> 'ctx \<Rightarrow> bool" where
  "defaultJob_ShouldStartImmediately d ctx = startImmediately d"

definition defaultJob_GetInterval :: "('ctx, 'w, 'e, 'p) defaultJob \<Rightarrow> 'ctx \<Rightarrow> int" where
  "defaultJob_GetInterval d ctx = interval d"

definition defaultJob_Run :: "('ctx, 'w, 'e, 'p) defaultJob \<Rightarrow> ('ctx, 'w, 'e, 'p) runnable" where
  "defaultJob_Run d ctx = job_runnable d ctx"

definition defaultJob_LogError ::
  "'p \<Rightarrow> ('ctx, 'w, 'e, 'p) defaultJob \<Rightarrow> 'ctx \<Rightarrow> 'e \<Rightarrow> ('w, unit, 'p) go" where
  "defaultJob_LogError nilPanic d ctx err =
     (case logError d of Some f \<Rightarrow> f ctx err | None \<Rightarrow> (\<lambda>w. (Panic nilPanic, w)))"

definition NewDefaultJob ::
  "'p \<Rightarrow> ('ctx \<Rightarrow> 'e \<Rightarrow> ('w, unit, 'p) go) \<Rightarrow> string \<Rightarrow> ('ctx, 'w, 'e, 'p) runnable
     \<Rightarrow> ('ctx, 'w, 'e, 'p) JobOption list \<Rightarrow> ('ctx, 'w, 'e, 'p) Job" where
  "NewDefaultJob nilPanic svcLog name runnable options =
     (let d = fold (\<lambda>option job. option job) options
            \<lparr>job_name = name, job_runnable = runnable, interval = 60 * 10 ^ 9, logError = Some svcLog,
             startImmediately = False\<rparr>
      in \<lparr>Name = job_name d, Run = defaultJob_Run d,
          ShouldStartImmediately = defaultJob_ShouldStartImmediately d,
          GetInterval = defaultJob_GetInterval d, LogError = defaultJob_LogError nilPanic d\<rparr>)"

section \<open>jobs/job_runner.go\<close>

definition runJobNoError ::
  "('ctx \<Rightarrow> 'p \<Rightarrow> 'w \<Rightarrow> 'e \<times> 'w) \<Rightarrow> ('ctx \<Rightarrow> string \<Rightarrow> 'e option \<Rightarrow> 'w \<Rightarrow> 'w) \<Rightarrow> 'ctx
     \<Rightarrow> ('ctx, 'w, 'e, 'p) Job \<Rightarrow> ('w, unit, 'p) go" where
  "runJobNoError handle submit ctx job =
     go_bind (RunWithRecoveryLoggingWithError handle ctx (Run job)) (\<lambda>err.
     go_bind (go_effect (submit ctx (Name job) err)) (\<lambda>_.
       case err of Some e \<Rightarrow> LogError job ctx e | None \<Rightarrow> go_return ()))"

definition job_body ::
  "('ctx \<Rightarrow> 'p \<Rightarrow> 'w \<Rightarrow> 'e \<times> 'w) \<Rightarrow> ('ctx \<Rightarrow> string \<Rightarrow> 'e option \<Rightarrow> 'w \<Rightarrow> 'w)
     \<Rightarrow> (int \<Rightarrow> 'ctx \<Rightarrow> 'w \<Rightarrow> bool \<times> 'w) \<Rightarrow> 'ctx \<Rightarrow> ('ctx, 'w, 'e, 'p) Job
     \<Rightarrow> 'w \<Rightarrow> (unit, 'p) outcome option \<times> 'w" where
  "job_body handle submit await ctx job w =
     (case await (GetInterval job ctx) ctx w of
        (True, w') \<Rightarrow>
          (case runJobNoError handle submit ctx job w' of
             (Ret _, v) \<Rightarrow> (None, v) | (Panic p, v) \<Rightarrow> (Some (Panic p), v))
      | (False, w') \<Rightarrow> (Some (Ret ()), w'))"

definition startJob ::
  "('ctx \<Rightarrow> string \<Rightarrow> string \<Rightarrow> 'ctx) \<Rightarrow> ('ctx \<Rightarrow> 'p \<Rightarrow> 'w \<Rightarrow> 'e \<times> 'w)
     \<Rightarrow> ('ctx \<Rightarrow> string \<Rightarrow> 'e option \<Rightarrow> 'w \<Rightarrow> 'w) \<Rightarrow> (int \<Rightarrow> 'ctx \<Rightarrow> 'w \<Rightarrow> bool \<times> 'w) \<Rightarrow> 'ctx
     \<Rightarrow> ('ctx, 'w, 'e, 'p) Job \<Rightarrow> 'w \<Rightarrow> ((unit, 'p) outcome \<times> 'w) option" where
  "startJob withParams handle submit await ctx job w =
     (let ctx = withParams ctx ''jobName'' (Name job) in
      case (if ShouldStartImmediately job ctx then runJobNoError handle submit ctx job w else (Ret (), w)) of
        (Panic p, v) \<Rightarrow> Some (Panic p, v)
      | (Ret _, v) \<Rightarrow> go_loop (job_body handle submit await ctx job) v)"

text \<open>\<open>StartJobs\<close>: the goroutines it starts, one for each job, in order.\<close>

definition StartJobs ::
  "('ctx \<Rightarrow> string \<Rightarrow> string \<Rightarrow> 'ctx) \<Rightarrow> ('ctx \<Rightarrow> 'p \<Rightarrow> 'w \<Rightarrow> 'e \<times> 'w)
     \<Rightarrow> ('ctx \<Rightarrow> string \<Rightarrow> 'e option \<Rightarrow> 'w \<Rightarrow> 'w) \<Rightarrow> (int \<Rightarrow> 'ctx \<Rightarrow> 'w \<Rightarrow> bool \<times> 'w) \<Rightarrow> 'ctx
     \<Rightarrow> ('ctx, 'w, 'e, 'p) Job list \<Rightarrow> ('w \<Rightarrow> ((unit, 'p) outcome \<times> 'w) option) list" where
  "StartJobs withParams handle submit await ctx jobs =
     map (startJob withParams handle submit await ctx) jobs"

section \<open>One execution\<close>

text \<open>The error that is reported for an execution: the returned one, or that of the recovered panic.\<close>

definition execution ::
  "('ctx \<Rightarrow> 'p \<Rightarrow> 'w \<Rightarrow> 'e \<times> 'w) \<Rightarrow> 'ctx \<Rightarrow> ('ctx, 'w, 'e, 'p) Job \<Rightarrow> 'w \<Rightarrow> 'e option \<times> 'w" where
  "execution handle ctx job w =
     (case Run job ctx w of
        (Ret err, v) \<Rightarrow> (err, v) | (Panic p, v) \<Rightarrow> (case handle ctx p v of (e, u) \<Rightarrow> (Some e, u)))"

lemma runJobNoError_eq:
  "runJobNoError handle submit ctx job w =
     (case execution handle ctx job w of (err, v) \<Rightarrow>
        (case err of
           None \<Rightarrow> (Ret (), submit ctx (Name job) None v)
         | Some e \<Rightarrow> LogError job ctx e (submit ctx (Name job) (Some e) v)))"
  by (simp add: runJobNoError_def execution_def RunWithRecoveryLoggingWithError_def go_bind_def go_effect_def
      go_return_def split: prod.split outcome.split option.split)

definition logs_quietly :: "('ctx, 'w, 'e, 'p) Job \<Rightarrow> bool" where
  "logs_quietly job \<longleftrightarrow> (\<forall>ctx e w p v. LogError job ctx e w \<noteq> (Panic p, v))"

lemma runJobNoError_returns: "logs_quietly job \<Longrightarrow> \<exists>v. runJobNoError handle submit ctx job w = (Ret (), v)"
proof -
  assume quiet: "logs_quietly job"
  obtain err v where ex: "execution handle ctx job w = (err, v)" by fastforce
  show ?thesis
  proof (cases err)
    case None
    with ex show ?thesis by (simp add: runJobNoError_eq)
  next
    case (Some e)
    obtain x u where log: "LogError job ctx e (submit ctx (Name job) (Some e) v) = (x, u)" by fastforce
    with quiet have "x = Ret ()" by (cases x) (auto simp: logs_quietly_def)
    with Some ex log show ?thesis by (simp add: runJobNoError_eq)
  qed
qed

lemma job_body_ends:
  assumes "logs_quietly job"
  shows "job_body handle submit await ctx job w = (Some out, v) \<longleftrightarrow>
    out = Ret () \<and> await (GetInterval job ctx) ctx w = (False, v)"
proof -
  obtain b w' where b: "await (GetInterval job ctx) ctx w = (b, w')" by fastforce
  from runJobNoError_returns [OF assms] obtain u where "runJobNoError handle submit ctx job w' = (Ret (), u)" by metis
  with b show ?thesis by (cases b) (auto simp: job_body_def)
qed

lemma startJob_eq:
  assumes "logs_quietly job"
  shows "\<exists>v. (v = w \<or> (\<exists>u. runJobNoError handle submit (withParams ctx ''jobName'' (Name job)) job w = (u, v)))
    \<and> startJob withParams handle submit await ctx job w =
      go_loop (job_body handle submit await (withParams ctx ''jobName'' (Name job)) job) v"
proof -
  let ?ctx = "withParams ctx ''jobName'' (Name job)"
  from runJobNoError_returns [OF assms] obtain u where "runJobNoError handle submit ?ctx job w = (Ret (), u)" by metis
  then show ?thesis
    by (intro exI [of _ "if ShouldStartImmediately job ?ctx then u else w"]) (simp add: startJob_def Let_def)
qed


section \<open>When executions start\<close>

text \<open>
  A world that is a clock and the start times so far, a job that takes \<open>dur\<close>, and a context that is
  cancelled at \<open>T\<close>: the timer of \<open>time.After\<close> is created when the \<open>select\<close> is reached, and
  fires unless the context is done before.
\<close>

record timed =
  now :: int
  starts :: "int list"

definition timed_await :: "int \<Rightarrow> int \<Rightarrow> 'ctx \<Rightarrow> timed \<Rightarrow> bool \<times> timed" where
  "timed_await T d ctx w =
     (if now w + max d 0 \<le> T then (True, w\<lparr>now := now w + max d 0\<rparr>)
      else (False, w\<lparr>now := max (now w) T\<rparr>))"

definition timed_run :: "int \<Rightarrow> ('ctx, timed, 'e, 'p) runnable" where
  "timed_run dur ctx w = (Ret None, w\<lparr>now := now w + dur, starts := starts w @ [now w]\<rparr>)"

definition timed_job :: "int \<Rightarrow> bool \<Rightarrow> int \<Rightarrow> (unit, timed, string, string) Job" where
  "timed_job d immediately dur =
     NewDefaultJob ''nil'' (\<lambda>_ _ w. (Ret (), w)) ''job'' (timed_run dur)
       [WithInterval d, WithStartImmediately immediately]"

definition timed_start :: "int \<Rightarrow> int \<Rightarrow> bool \<Rightarrow> int \<Rightarrow> ((unit, string) outcome \<times> timed) option" where
  "timed_start T d immediately dur =
     startJob (\<lambda>ctx _ _. ctx) (\<lambda>_ p w. (p, w)) (\<lambda>_ _ _ w. w) (timed_await T) ()
       (timed_job d immediately dur) \<lparr>now = 0, starts = []\<rparr>"

lemmas timed_defs = timed_job_def NewDefaultJob_def WithInterval_def WithStartImmediately_def
  defaultJob_ShouldStartImmediately_def defaultJob_GetInterval_def defaultJob_Run_def Let_def

lemma timed_execution:
  "runJobNoError (\<lambda>_ p w. (p, w)) (\<lambda>_ _ _ w. w) () (timed_job d b dur) w =
     (Ret (), w\<lparr>now := now w + dur, starts := starts w @ [now w]\<rparr>)"
  by (simp add: runJobNoError_eq execution_def timed_defs timed_run_def)

lemma timed_body:
  assumes "0 < d"
  shows "job_body (\<lambda>_ p w. (p, w)) (\<lambda>_ _ _ w. w) (timed_await T) () (timed_job d b dur) \<lparr>now = a, starts = xs\<rparr> =
    (if a + d \<le> T then (None, \<lparr>now = a + d + dur, starts = xs @ [a + d]\<rparr>)
     else (Some (Ret ()), \<lparr>now = max a T, starts = xs\<rparr>))"
proof -
  have "GetInterval (timed_job d b dur) () = d" by (simp add: timed_defs)
  with assms show ?thesis by (simp add: job_body_def timed_await_def timed_execution)
qed

lemma timed_loop:
  assumes d: "0 < d" and dur: "0 \<le> dur"
  shows "\<exists>m v. go_loop (job_body (\<lambda>_ p w. (p, w)) (\<lambda>_ _ _ w. w) (timed_await T) () (timed_job d b dur))
        \<lparr>now = a, starts = xs\<rparr> = Some (Ret (), v)
      \<and> starts v = xs @ map (\<lambda>i. a + d + int i * (d + dur)) [0..<m]
      \<and> (\<forall>i < m. a + d + int i * (d + dur) \<le> T) \<and> T < a + d + int m * (d + dur)"
proof (induction "nat (T - a)" arbitrary: a xs rule: less_induct)
  case less
  show ?case
  proof (cases "a + d \<le> T")
    case False
    with timed_body [OF d, of T b dur a xs] show ?thesis
      by (intro exI [of _ 0] exI [of _ "\<lparr>now = max a T, starts = xs\<rparr>"]) (simp add: go_loop_ends)
  next
    case True
    let ?a = "a + d + dur" and ?xs = "xs @ [a + d]"
    have shift: "?a + d + int i * (d + dur) = a + d + int (Suc i) * (d + dur)" for i
      by (simp add: algebra_simps)
    have "nat (T - ?a) < nat (T - a)" using True d dur by simp
    from less [OF this, of ?xs] obtain m v where
      v: "go_loop (job_body (\<lambda>_ p w. (p, w)) (\<lambda>_ _ _ w. w) (timed_await T) () (timed_job d b dur))
            \<lparr>now = ?a, starts = ?xs\<rparr> = Some (Ret (), v)"
        "starts v = ?xs @ map (\<lambda>i. ?a + d + int i * (d + dur)) [0..<m]"
        "\<forall>i < m. ?a + d + int i * (d + dur) \<le> T" "T < ?a + d + int m * (d + dur)"
      by blast
    have "go_loop (job_body (\<lambda>_ p w. (p, w)) (\<lambda>_ _ _ w. w) (timed_await T) () (timed_job d b dur))
        \<lparr>now = a, starts = xs\<rparr> = Some (Ret (), v)"
      using v(1) timed_body [OF d, of T b dur a xs] True go_loop_goes_on by (metis (no_types, lifting))
    moreover have "starts v = xs @ map (\<lambda>i. a + d + int i * (d + dur)) [0..<Suc m]"
      unfolding v(2) shift by (simp add: map_upt_Suc del: upt_Suc)
    moreover have "a + d + int i * (d + dur) \<le> T" if "i < Suc m" for i
      using that v(3) True unfolding shift by (cases i) auto
    moreover have "T < a + d + int (Suc m) * (d + dur)" using v(4) unfolding shift .
    ultimately show ?thesis by blast
  qed
qed

section \<open>Properties\<close>

text \<open>
  As long as its logger does not panic, a job runs until the context is done: whatever its
  executions return, and even when they panic, the goroutine goes on, and it ends exactly in a wait that
  sees the context done; otherwise it never ends.
\<close>

theorem job_stops_only_when_cancelled:
  assumes "logs_quietly job" and "ctx' = withParams ctx ''jobName'' (Name job)"
    and "w0 = snd (if ShouldStartImmediately job ctx' then runJobNoError handle submit ctx' job w else (Ret (), w))"
  shows "(startJob withParams handle submit await ctx job w = Some (out, v) \<longleftrightarrow>
      out = Ret () \<and> (\<exists>k u. rounds (job_body handle submit await ctx' job) k w0 = Some u
        \<and> await (GetInterval job ctx') ctx' u = (False, v)))
    \<and> (startJob withParams handle submit await ctx job w = None \<longleftrightarrow>
      (\<forall>k. rounds (job_body handle submit await ctx' job) k w0 \<noteq> None))"
proof -
  have "startJob withParams handle submit await ctx job w = go_loop (job_body handle submit await ctx' job) w0"
    using runJobNoError_returns [OF assms(1), of handle submit ctx' w]
    by (auto simp: startJob_def assms(2,3) Let_def)
  then show ?thesis
    using job_body_ends [OF assms(1)] by (auto simp: go_loop_iff go_loop_diverges)
qed

text \<open>
  An execution reports its outcome under the job's name exactly once, the error of a recovered
  panic included, and calls the error logger with that error, after the report, exactly when there is one.
\<close>

theorem execution_reported_once:
  "runJobNoError handle submit ctx job w =
     (case Run job ctx w of
        (Ret None, v) \<Rightarrow> (Ret (), submit ctx (Name job) None v)
      | (Ret (Some e), v) \<Rightarrow> LogError job ctx e (submit ctx (Name job) (Some e) v)
      | (Panic p, v) \<Rightarrow>
          LogError job ctx (fst (handle ctx p v)) (submit ctx (Name job) (Some (fst (handle ctx p v))) (snd (handle ctx p v))))"
  by (simp add: runJobNoError_eq execution_def split_beta split: outcome.split option.split)

text \<open>
  Claim C36: the interval is counted from the end of one execution to the start of the next: with an
  interval \<open>d\<close> and executions that take \<open>dur\<close>, execution \<open>i\<close> starts at \<open>i * (d + dur)\<close>,
  one interval later when the job does not start immediately, for as long as that is before the
  cancellation, and the job then ends.
\<close>

theorem interval_from_end_to_start:
  assumes "0 < d" and "0 \<le> dur" and "first = (if immediately then 0 else d)"
  shows "\<exists>n v. timed_start T d immediately dur = Some (Ret (), v)
    \<and> starts v = map (\<lambda>i. first + int i * (d + dur)) [0..<n]
    \<and> (\<forall>i < n. first + int i * (d + dur) \<le> T \<or> i = 0 \<and> immediately)
    \<and> T < first + int n * (d + dur)"
proof (cases immediately)
  case False
  obtain m v where "go_loop (job_body (\<lambda>_ p w. (p, w)) (\<lambda>_ _ _ w. w) (timed_await T) () (timed_job d immediately dur))
        \<lparr>now = 0, starts = []\<rparr> = Some (Ret (), v)"
      "starts v = map (\<lambda>i. d + int i * (d + dur)) [0..<m]"
      "\<forall>i < m. d + int i * (d + dur) \<le> T" "T < d + int m * (d + dur)"
    using timed_loop [OF assms(1,2), of T immediately 0 "[]"] by auto
  with False assms(3) show ?thesis
    by (intro exI [of _ m] exI [of _ v]) (simp add: timed_start_def startJob_def timed_defs)
next
  case True
  let ?loop = "go_loop (job_body (\<lambda>_ p w. (p, w)) (\<lambda>_ _ _ w. w) (timed_await T) () (timed_job d immediately dur))"
  have shift: "dur + d + int i * (d + dur) = int (Suc i) * (d + dur)" for i
    by (simp add: algebra_simps)
  obtain m v where v: "?loop \<lparr>now = dur, starts = [0]\<rparr> = Some (Ret (), v)"
      "starts v = [0] @ map (\<lambda>i. dur + d + int i * (d + dur)) [0..<m]"
      "\<forall>i < m. dur + d + int i * (d + dur) \<le> T" "T < dur + d + int m * (d + dur)"
    using timed_loop [OF assms(1,2), of T immediately dur "[0]"] by blast
  have "ShouldStartImmediately (timed_job d immediately dur) ()" using True by (simp add: timed_defs)
  then have "timed_start T d immediately dur = Some (Ret (), v)"
    using v(1) by (simp add: timed_start_def startJob_def timed_execution)
  moreover have "starts v = map (\<lambda>i. int i * (d + dur)) [0..<Suc m]"
    unfolding v(2) shift by (simp add: map_upt_Suc del: upt_Suc)
  moreover have "int i * (d + dur) \<le> T \<or> i = 0" if "i < Suc m" for i
    using that v(3) unfolding shift by (cases i) auto
  moreover have "T < int (Suc m) * (d + dur)" using v(4) unfolding shift .
  ultimately show ?thesis using True assms(3) by (intro exI [of _ "Suc m"] exI [of _ v]) simp
qed

text \<open>A job whose error logger is \<open>nil\<close> ends the process at its first error.\<close>

lemma nil_logger_panics:
  assumes "Run (NewDefaultJob nilPanic svcLog name runnable [WithErrorLogger None]) ctx w = (Ret (Some e), v)"
  shows "runJobNoError handle submit ctx (NewDefaultJob nilPanic svcLog name runnable [WithErrorLogger None]) w =
    (Panic nilPanic, submit ctx name (Some e) v)"
  using assms unfolding runJobNoError_eq execution_def
  by (simp add: NewDefaultJob_def WithErrorLogger_def defaultJob_LogError_def Let_def)

section \<open>Runs on concrete inputs\<close>

theorem interval_from_end_to_start_witness:
  "\<exists>v. timed_start 10 3 True 1 = Some (Ret (), v) \<and> starts v = [0, 4, 8]"
proof -
  obtain n v where v: "timed_start 10 3 True 1 = Some (Ret (), v)"
    "starts v = map (\<lambda>i. int i * 4) [0..<n]" "\<forall>i < n. int i * 4 \<le> 10 \<or> i = 0" "10 < int n * 4"
    using interval_from_end_to_start [of 3 1 0 True 10] by auto
  have "n \<le> 3"
  proof (rule ccontr)
    assume "\<not> n \<le> 3"
    with v(3) [rule_format, of 3] show False by simp
  qed
  with v(4) have "n = 3" by simp
  with v show ?thesis by (simp add: upt_rec)
qed

theorem job_stops_only_when_cancelled_witness:
  "\<exists>k u. rounds (job_body (\<lambda>_ p w. (p, w)) (\<lambda>_ _ _ w. w) (timed_await 10) () (timed_job 3 False 1)) k
      \<lparr>now = 0, starts = []\<rparr> = Some u \<and> timed_await 10 3 () u = (False, \<lparr>now = 10, starts = [3, 7]\<rparr>)"
proof -
  have quiet: "logs_quietly (timed_job 3 False 1)"
    by (simp add: logs_quietly_def timed_defs defaultJob_LogError_def)
  have simps: "GetInterval (timed_job 3 False 1) () = 3" "\<not> ShouldStartImmediately (timed_job 3 False 1) ()"
    by (simp_all add: timed_defs)
  have "timed_start 10 3 False 1 = Some (Ret (), \<lparr>now = 10, starts = [3, 7]\<rparr>)"
    by (simp add: timed_start_def startJob_def simps go_loop.simps timed_body)
  then show ?thesis
    using job_stops_only_when_cancelled [OF quiet, where ctx = "()" and ctx' = "()"
        and withParams = "\<lambda>ctx _ _. ctx" and w = "\<lparr>now = 0, starts = []\<rparr>" and handle = "\<lambda>_ p w. (p, w)"
        and submit = "\<lambda>_ _ _ w. w" and w0 = "\<lparr>now = 0, starts = []\<rparr>" and await = "timed_await 10"
        and out = "Ret ()" and v = "\<lparr>now = 10, starts = [3, 7]\<rparr>"]
    by (auto simp: timed_start_def simps)
qed

end
