(* ===== verification/Job_Runner.thy ===== *)
theory Job_Runner
  imports Jobs
begin

text \<open>
  The goroutines of \<open>StartJobs\<close> together: a machine with a program point for each job, the shared
  world and the context. A step is a read of the job's settings, an execution with its report, or
  the end of a \<open>select\<close>; the steps of different jobs interleave. A panic that leaves \<open>startJob\<close>
  (of an error logger) ends the process. The function \<open>startJob\<close> of \<open>Jobs\<close> is a run of its
  goroutine in the machine.
\<close>

datatype job_point = Starting | Running | Waiting | Stopped

record 'w job_system =
  points :: "job_point list"
  job_world :: 'w
  cancelled :: bool
  crashed :: bool

text \<open>
  \<open>JTick\<close>: the timer wins the \<open>select\<close>; \<open>JQuit\<close>: the context does. \<open>JCancel\<close> and \<open>JWorld\<close>
  are the environment's.
\<close>

datatype 'w jact = JBegin nat | JExec nat | JTick nat | JQuit nat | JCancel | JWorld 'w

definition job_at :: "job_point \<Rightarrow> nat \<Rightarrow> 'w job_system \<Rightarrow> bool" where
  "job_at p i s \<longleftrightarrow> \<not> crashed s \<and> i < length (points s) \<and> points s ! i = p"

definition go_to :: "nat \<Rightarrow> job_point \<Rightarrow> 'w job_system \<Rightarrow> 'w job_system" where
  "go_to i p s = s\<lparr>points := (points s)[i := p]\<rparr>"

definition job_ctx ::
  "('ctx \<Rightarrow> string \<Rightarrow> string \<Rightarrow> 'ctx) \<Rightarrow> 'ctx \<Rightarrow> ('ctx, 'w, 'e, 'p) Job \<Rightarrow> 'ctx" where
  "job_ctx withParams ctx job = withParams ctx ''jobName'' (Name job)"

fun jexec ::
  "('ctx \<Rightarrow> string \<Rightarrow> string \<Rightarrow> 'ctx) \<Rightarrow> ('ctx \<Rightarrow> 'p \<Rightarrow> 'w \<Rightarrow> 'e \<times> 'w)
     \<Rightarrow> ('ctx \<Rightarrow> string \<Rightarrow> 'e option \<Rightarrow> 'w \<Rightarrow> 'w) \<Rightarrow> 'ctx \<Rightarrow> ('ctx, 'w, 'e, 'p) Job list
     \<Rightarrow> 'w job_system \<Rightarrow> 'w jact \<Rightarrow> 'w job_system option" where
  "jexec withParams handle submit ctx jobs s (JBegin i) =
     (if job_at Starting i s
      then Some (go_to i (if ShouldStartImmediately (jobs ! i) (job_ctx withParams ctx (jobs ! i))
                          then Running else Waiting) s)
      else None)"
| "jexec withParams handle submit ctx jobs s (JExec i) =
     (if job_at Running i s
      then (case runJobNoError handle submit (job_ctx withParams ctx (jobs ! i)) (jobs ! i) (job_world s) of
              (Ret _, w) \<Rightarrow> Some (go_to i Waiting (s\<lparr>job_world := w\<rparr>))
            | (Panic _, w) \<Rightarrow> Some (s\<lparr>job_world := w, crashed := True\<rparr>))
      else None)"
| "jexec withParams handle submit ctx jobs s (JTick i) =
     (if job_at Waiting i s then Some (go_to i Running s) else None)"
| "jexec withParams handle submit ctx jobs s (JQuit i) =
     (if job_at Waiting i s \<and> cancelled s then Some (go_to i Stopped s) else None)"
| "jexec withParams handle submit ctx jobs s JCancel =
     (if crashed s then None else Some (s\<lparr>cancelled := True\<rparr>))"
| "jexec withParams handle submit ctx jobs s (JWorld w) =
     (if crashed s then None else Some (s\<lparr>job_world := w\<rparr>))"

text \<open>The goroutines that \<open>StartJobs\<close> started.\<close>

definition started :: "('ctx, 'w, 'e, 'p) Job list \<Rightarrow> 'w \<Rightarrow> 'w job_system" where
  "started jobs w = \<lparr>points = replicate (length jobs) Starting, job_world = w, cancelled = False, crashed = False\<rparr>"

section \<open>Each job by itself\<close>

text \<open>The execution a goroutine owes at a program point.\<close>

definition due :: "('ctx, 'w, 'e, 'p) Job \<Rightarrow> 'ctx \<Rightarrow> job_point \<Rightarrow> nat" where
  "due job ctx p = (case p of Running \<Rightarrow> 1 | Starting \<Rightarrow> if ShouldStartImmediately job ctx then 1 else 0 | _ \<Rightarrow> 0)"

lemma go_to_sel [simp]:
  "points (go_to i p s) = (points s)[i := p]" "job_world (go_to i p s) = job_world s"
  "cancelled (go_to i p s) = cancelled s" "crashed (go_to i p s) = crashed s"
  by (simp_all add: go_to_def)

lemma jexec_cases [consumes 1, case_names Begin Exec Panics Tick Quit Env]:
  assumes "jexec withParams handle submit ctx jobs s a = Some t"
  obtains i where "a = JBegin i" "job_at Starting i s"
      "t = go_to i (if ShouldStartImmediately (jobs ! i) (job_ctx withParams ctx (jobs ! i)) then Running else Waiting) s"
    | i w where "a = JExec i" "job_at Running i s"
      "runJobNoError handle submit (job_ctx withParams ctx (jobs ! i)) (jobs ! i) (job_world s) = (Ret (), w)"
      "t = go_to i Waiting (s\<lparr>job_world := w\<rparr>)"
    | i p w where "a = JExec i" "job_at Running i s"
      "runJobNoError handle submit (job_ctx withParams ctx (jobs ! i)) (jobs ! i) (job_world s) = (Panic p, w)"
      "t = s\<lparr>job_world := w, crashed := True\<rparr>"
    | i where "a = JTick i" "job_at Waiting i s" "t = go_to i Running s"
    | i where "a = JQuit i" "job_at Waiting i s" "cancelled s" "t = go_to i Stopped s"
    | "a = JCancel \<or> (\<exists>w. a = JWorld w)" "points t = points s" "crashed t = crashed s" "\<not> crashed s"
      "cancelled t = (cancelled s \<or> a = JCancel)"
  using assms
  by (cases a) (auto split: if_splits prod.splits outcome.splits)


lemma quiet_exec:
  assumes "\<forall>job \<in> set jobs. logs_quietly job" and "i < length jobs"
  shows "runJobNoError handle submit c (jobs ! i) w \<noteq> (Panic p, v)"
  using runJobNoError_returns [of "jobs ! i" handle submit c w] assms by auto

definition job_inv :: "('ctx, 'w, 'e, 'p) Job list \<Rightarrow> 'w job_system \<Rightarrow> bool" where
  "job_inv jobs s \<longleftrightarrow> length (points s) = length jobs \<and> (Stopped \<in> set (points s) \<longrightarrow> cancelled s)"

lemma job_inv_started: "job_inv jobs (started jobs w)"
  by (simp add: job_inv_def started_def)

lemma job_inv_step:
  assumes "job_inv jobs s" and "jexec withParams handle submit ctx jobs s a = Some t"
  shows "job_inv jobs t"
  using assms(2,1) by (cases rule: jexec_cases) (auto simp: job_inv_def dest!: in_set_update split: if_splits)

lemma step_counts:
  assumes quiet: "\<forall>job \<in> set jobs. logs_quietly job" and inv: "job_inv jobs s" and i: "i < length jobs"
    and step: "jexec withParams handle submit ctx jobs s a = Some t"
  shows "(if a = JExec i then 1 else 0) + due (jobs ! i) (job_ctx withParams ctx (jobs ! i)) (points t ! i) =
      (if a = JTick i then 1 else 0) + due (jobs ! i) (job_ctx withParams ctx (jobs ! i)) (points s ! i)"
    "crashed t = crashed s"
  using step
proof (atomize (full), cases rule: jexec_cases)
  case (Panics j p w)
  with quiet_exec [OF quiet, of j] inv show
    "(if a = JExec i then 1 else 0) + due (jobs ! i) (job_ctx withParams ctx (jobs ! i)) (points t ! i) =
      (if a = JTick i then 1 else 0) + due (jobs ! i) (job_ctx withParams ctx (jobs ! i)) (points s ! i)
     \<and> crashed t = crashed s"
    by (auto simp: job_at_def job_inv_def)
qed (use inv i in \<open>auto simp: job_at_def job_inv_def due_def nth_list_update\<close>)

lemma cancelled_step:
  assumes "jexec withParams handle submit ctx jobs s a = Some t"
  shows "cancelled t \<longleftrightarrow> cancelled s \<or> a = JCancel"
  using assms by (cases rule: jexec_cases) auto

lemma path_counts:
  assumes "path (by_exec (jexec withParams handle submit ctx jobs)) s as t"
    and quiet: "\<forall>job \<in> set jobs. logs_quietly job" and "job_inv jobs s" and i: "i < length jobs"
  shows "count_list as (JExec i) + due (jobs ! i) (job_ctx withParams ctx (jobs ! i)) (points t ! i) =
      count_list as (JTick i) + due (jobs ! i) (job_ctx withParams ctx (jobs ! i)) (points s ! i)
    \<and> crashed t = crashed s \<and> (cancelled t \<longleftrightarrow> cancelled s \<or> JCancel \<in> set as)"
  using assms(1,3)
proof (induction rule: path.induct)
  case (path_Cons s a t as u)
  then have step: "jexec withParams handle submit ctx jobs s a = Some t" by (simp add: by_exec_def)
  from path_Cons.IH job_inv_step [OF path_Cons.prems step] step_counts [OF quiet path_Cons.prems i step]
    cancelled_step [OF step]
  show ?case by (auto split: if_splits)
qed simp

section \<open>Coming to rest\<close>

fun job_internal :: "'w jact \<Rightarrow> bool" where
  "job_internal (JBegin i) = True"
| "job_internal (JExec i) = True"
| "job_internal (JQuit i) = True"
| "job_internal _ = False"

definition point_rank :: "job_point \<Rightarrow> nat" where
  "point_rank p = (case p of Starting \<Rightarrow> 3 | Running \<Rightarrow> 2 | Waiting \<Rightarrow> 1 | Stopped \<Rightarrow> 0)"

definition job_rank :: "'w job_system \<Rightarrow> nat" where
  "job_rank s = sum_list (map point_rank (points s)) + (if crashed s then 0 else 1)"

lemma job_rank_step:
  assumes "jexec withParams handle submit ctx jobs s a = Some t" and "job_internal a"
  shows "job_rank t < job_rank s"
proof -
  have lower: "i < length (points s) \<Longrightarrow> point_rank p < point_rank (points s ! i) \<Longrightarrow>
      sum_list (map point_rank ((points s)[i := p])) < sum_list (map point_rank (points s))" for i p
    using sum_list_map_update [of i "points s" point_rank p] by simp
  show ?thesis
    using assms
    by (cases rule: jexec_cases) (auto simp: job_rank_def job_at_def intro!: lower, auto simp: point_rank_def)
qed

interpretation jr: ranked_system "\<lambda>s. \<exists>w. s = started jobs w" "by_exec (jexec withParams handle submit ctx jobs)"
  "job_inv jobs" job_internal job_rank
  by unfold_locales (auto simp: by_exec_def job_inv_started intro: job_inv_step job_rank_step)

lemma internal_steps_bounded:
  "path (by_exec (jexec withParams handle submit ctx jobs)) s as t \<Longrightarrow> \<forall>i. JTick i \<notin> set as \<Longrightarrow>
   length (filter job_internal as) + job_rank t \<le> job_rank s"
proof (induction rule: path.induct)
  case (path_Cons s a t as u)
  then have step: "jexec withParams handle submit ctx jobs s a = Some t" by (simp add: by_exec_def)
  have "job_rank t + (if job_internal a then 1 else 0) \<le> job_rank s"
  proof (cases "job_internal a")
    case True
    with job_rank_step [OF step True] show ?thesis by simp
  next
    case False
    with step path_Cons.prems show ?thesis by (cases a) (auto simp: job_rank_def split: if_splits)
  qed
  with path_Cons show ?case by (auto split: if_splits)
qed simp

lemma job_rank_bound: "job_inv jobs s \<Longrightarrow> job_rank s \<le> 3 * length jobs + 1"
proof -
  have "sum_list (map point_rank ps) \<le> 3 * length ps" for ps
    by (induction ps) (auto simp: point_rank_def split: job_point.split)
  from this [of "points s"] show "job_inv jobs s \<Longrightarrow> ?thesis" by (simp add: job_rank_def job_inv_def)
qed

lemma at_rest_stopped:
  assumes "job_inv jobs s" and "\<not> crashed s" and "cancelled s"
    and rest: "\<And>a. job_internal a \<Longrightarrow> jexec withParams handle submit ctx jobs s a = None"
  shows "\<forall>p \<in> set (points s). p = Stopped"
proof (rule ccontr)
  assume "\<not> ?thesis"
  then obtain i where i: "i < length (points s)" "points s ! i \<noteq> Stopped" by (auto simp: in_set_conv_nth)
  then consider "job_at Starting i s" | "job_at Running i s" | "job_at Waiting i s"
    using assms(2) by (cases "points s ! i") (auto simp: job_at_def)
  then show False
  proof cases
    case 1
    with rest [of "JBegin i"] show False by simp
  next
    case 2
    with rest [of "JExec i"] show False by (auto split: prod.splits outcome.splits)
  next
    case 3
    with rest [of "JQuit i"] assms(3) show False by simp
  qed
qed


section \<open>startJob is a run of its goroutine\<close>

text \<open>The effect of the \<open>select\<close> on the world is a step of the environment before its end.\<close>

lemma round_path:
  assumes "job_body handle submit await (job_ctx withParams ctx (jobs ! i)) (jobs ! i) (job_world s) = (r, v)"
    and "job_at Waiting i s"
  shows "\<exists>as t. path (by_exec (jexec withParams handle submit ctx jobs)) s as t \<and> job_world t = v
    \<and> (case r of
         None \<Rightarrow> t = s\<lparr>job_world := v\<rparr>
       | Some (Ret _) \<Rightarrow> t = go_to i Stopped (s\<lparr>job_world := v, cancelled := True\<rparr>)
       | Some (Panic _) \<Rightarrow> crashed t)"
proof -
  let ?c = "job_ctx withParams ctx (jobs ! i)"
  obtain b w where await: "await (GetInterval (jobs ! i) ?c) ?c (job_world s) = (b, w)" by fastforce
  have run: "path (by_exec (jexec withParams handle submit ctx jobs)) s as t"
    if "run (jexec withParams handle submit ctx jobs) s as = Some t" for as t
    using that by (rule path_run)
  show ?thesis
  proof (cases b)
    case False
    with assms await have "r = Some (Ret ())" "v = w" by (simp_all add: job_body_def)
    with run [of "[JWorld w, JCancel, JQuit i]"] assms(2) show ?thesis
      by (intro exI conjI) (auto simp: job_at_def)
  next
    case True
    have same: "(points s)[i := Running, i := Waiting] = points s"
      using assms(2) by (simp add: job_at_def list_update_same_conv)
    obtain out v' where ex: "runJobNoError handle submit ?c (jobs ! i) w = (out, v')" by fastforce
    show ?thesis
    proof (cases out)
      case (Ret u)
      with True assms(1) await ex have "r = None" "v = v'" by (simp_all add: job_body_def)
      with run [of "[JWorld w, JTick i, JExec i]"] assms(2) same Ret ex show ?thesis
        by (intro exI conjI) (auto simp: job_at_def go_to_def)
    next
      case (Panic p)
      with True assms(1) await ex have "r = Some (Panic p)" "v = v'" by (simp_all add: job_body_def)
      with run [of "[JWorld w, JTick i, JExec i]"] assms(2) Panic ex show ?thesis
        by (intro exI conjI) (auto simp: job_at_def go_to_def)
    qed
  qed
qed


lemma rounds_path:
  "rounds (job_body handle submit await (job_ctx withParams ctx (jobs ! i)) (jobs ! i)) k (job_world s) = Some u \<Longrightarrow>
   job_at Waiting i s \<Longrightarrow>
   \<exists>as. path (by_exec (jexec withParams handle submit ctx jobs)) s as (s\<lparr>job_world := u\<rparr>)"
proof (induction k arbitrary: s)
  case 0
  then have "s\<lparr>job_world := u\<rparr> = s" by simp
  then show ?case by (intro exI [of _ "[]"]) (simp add: path_Nil)
next
  case (Suc k)
  obtain r v where body: "job_body handle submit await (job_ctx withParams ctx (jobs ! i)) (jobs ! i) (job_world s) = (r, v)"
    by fastforce
  with Suc.prems(1) have r: "r = None"
    and rest: "rounds (job_body handle submit await (job_ctx withParams ctx (jobs ! i)) (jobs ! i)) k v = Some u"
    by (auto split: option.splits)
  from round_path [OF body Suc.prems(2)] r obtain as where
    as: "path (by_exec (jexec withParams handle submit ctx jobs)) s as (s\<lparr>job_world := v\<rparr>)" by auto
  have "job_at Waiting i (s\<lparr>job_world := v\<rparr>)" using Suc.prems(2) by (simp add: job_at_def)
  with Suc.IH [of "s\<lparr>job_world := v\<rparr>"] rest obtain bs where
    "path (by_exec (jexec withParams handle submit ctx jobs)) (s\<lparr>job_world := v\<rparr>) bs (s\<lparr>job_world := u\<rparr>)" by auto
  from path_append [OF as this] show ?case by blast
qed

text \<open>The state after a goroutine ended with an outcome: nothing else of the state is touched.\<close>

definition job_ended :: "nat \<Rightarrow> (unit, 'p) outcome \<Rightarrow> 'w job_system \<Rightarrow> 'w job_system \<Rightarrow> bool" where
  "job_ended i out s t \<longleftrightarrow>
     (case out of
        Ret _ \<Rightarrow> t = go_to i Stopped (s\<lparr>job_world := job_world t, cancelled := True\<rparr>)
      | Panic _ \<Rightarrow> crashed t)"

lemma loop_path:
  assumes "go_loop (job_body handle submit await (job_ctx withParams ctx (jobs ! i)) (jobs ! i)) (job_world s) = Some (out, v)"
    and at: "job_at Waiting i s"
  shows "\<exists>as t. path (by_exec (jexec withParams handle submit ctx jobs)) s as t \<and> job_world t = v \<and> job_ended i out s t"
proof -
  from go_loop_returns [OF assms(1)] obtain k u where
    k: "rounds (job_body handle submit await (job_ctx withParams ctx (jobs ! i)) (jobs ! i)) k (job_world s) = Some u"
    and u: "job_body handle submit await (job_ctx withParams ctx (jobs ! i)) (jobs ! i) u = (Some out, v)" by blast
  from rounds_path [OF k at] obtain as where
    as: "path (by_exec (jexec withParams handle submit ctx jobs)) s as (s\<lparr>job_world := u\<rparr>)" by blast
  let ?s = "s\<lparr>job_world := u\<rparr>"
  from at have "job_at Waiting i ?s" by (simp add: job_at_def)
  with round_path [of handle submit await withParams ctx jobs i ?s] u obtain bs t where
    bs: "path (by_exec (jexec withParams handle submit ctx jobs)) ?s bs t" "job_world t = v"
    and t: "case out of Ret _ \<Rightarrow> t = go_to i Stopped (?s\<lparr>job_world := v, cancelled := True\<rparr>) | Panic _ \<Rightarrow> crashed t"
    by fastforce
  from t bs(2) have "job_ended i out s t" by (cases out) (auto simp: job_ended_def go_to_def)
  with path_append [OF as bs(1)] bs(2) show ?thesis by blast
qed

lemma start_path:
  assumes at: "job_at Starting i s"
    and first: "(if ShouldStartImmediately (jobs ! i) (job_ctx withParams ctx (jobs ! i))
      then runJobNoError handle submit (job_ctx withParams ctx (jobs ! i)) (jobs ! i) (job_world s)
      else (Ret (), job_world s)) = (r, w)"
  shows "\<exists>as t. path (by_exec (jexec withParams handle submit ctx jobs)) s as t \<and> job_world t = w
    \<and> (case r of Ret _ \<Rightarrow> t = go_to i Waiting (s\<lparr>job_world := w\<rparr>) | Panic _ \<Rightarrow> crashed t)"
proof -
  let ?as = "if ShouldStartImmediately (jobs ! i) (job_ctx withParams ctx (jobs ! i)) then [JBegin i, JExec i] else [JBegin i]"
  have "\<exists>t. run (jexec withParams handle submit ctx jobs) s ?as = Some t \<and> job_world t = w
    \<and> (case r of Ret _ \<Rightarrow> t = go_to i Waiting (s\<lparr>job_world := w\<rparr>) | Panic _ \<Rightarrow> crashed t)"
    using at first by (auto simp: job_at_def go_to_def split: if_splits outcome.split prod.splits)
  then show ?thesis by (blast intro: path_run)
qed

text \<open>A job that takes two units of time, and one that panics whenever it is executed.\<close>

definition two_jobs :: "(unit, timed, string, string) Job list" where
  "two_jobs = [timed_job 5 True 2,
     NewDefaultJob ''nil'' (\<lambda>_ _ w. (Ret (), w)) ''bad'' (\<lambda>_ w. (Panic ''boom'', w)) []]"

abbreviation two_exec :: "timed job_system \<Rightarrow> timed jact \<Rightarrow> timed job_system option" where
  "two_exec \<equiv> jexec (\<lambda>ctx _ _. ctx) (\<lambda>_ p w. (p, w)) (\<lambda>_ _ _ w. w) () two_jobs"

lemmas two_jobs_defs = two_jobs_def timed_defs defaultJob_LogError_def timed_run_def runJobNoError_eq execution_def
  job_at_def go_to_def started_def job_ctx_def

lemma two_jobs_quiet: "\<forall>job \<in> set two_jobs. logs_quietly job"
  by (simp add: two_jobs_defs logs_quietly_def)

lemma two_jobs_run:
  "run two_exec (started two_jobs \<lparr>now = 0, starts = []\<rparr>)
     [JBegin 0, JBegin 1, JExec 0, JTick 1, JExec 1, JTick 1, JTick 0, JCancel] =
   Some \<lparr>points = [Running, Running], job_world = \<lparr>now = 2, starts = [0]\<rparr>, cancelled = True, crashed = False\<rparr>"
  by (simp add: two_jobs_defs)

section \<open>Properties\<close>



text \<open>
  Claim C35: jobs do not disturb each other. As long as no error logger panics, in every interleaving of any
  number of jobs, whatever they return and even when they panic: the process goes on; each job has
  been executed once for each tick of its own timer and once more at its start if it starts
  immediately, except for an execution that it still owes; and it has stopped only if the
  context was cancelled.
\<close>

theorem jobs_run_by_their_own_timers:
  assumes "\<forall>job \<in> set jobs. logs_quietly job"
    and "path (by_exec (jexec withParams handle submit ctx jobs)) (started jobs w) as t" and "i < length jobs"
  shows "\<not> crashed t
    \<and> count_list as (JExec i) + (if points t ! i = Running
          \<or> points t ! i = Starting \<and> ShouldStartImmediately (jobs ! i) (job_ctx withParams ctx (jobs ! i)) then 1 else 0) =
        count_list as (JTick i)
          + (if ShouldStartImmediately (jobs ! i) (job_ctx withParams ctx (jobs ! i)) then 1 else 0)
    \<and> (points t ! i = Stopped \<longrightarrow> JCancel \<in> set as)"
proof -
  have inv: "job_inv jobs t" using jr.inv_path [OF assms(2) job_inv_started] .
  have "due (jobs ! i) c (points t ! i) = (if points t ! i = Running
      \<or> points t ! i = Starting \<and> ShouldStartImmediately (jobs ! i) c then 1 else 0)" for c
    by (simp add: due_def split: job_point.split)
  moreover have "due (jobs ! i) c (points (started jobs w) ! i) = (if ShouldStartImmediately (jobs ! i) c then 1 else 0)" for c
    using assms(3) by (simp add: due_def started_def)
  moreover have "points t ! i = Stopped \<Longrightarrow> cancelled t"
    using inv assms(3) nth_mem [of i "points t"] by (auto simp: job_inv_def)
  moreover have "\<not> crashed (started jobs w)" "\<not> cancelled (started jobs w)" by (simp_all add: started_def)
  ultimately show ?thesis using path_counts [OF assms(2,1) job_inv_started assms(3)] by simp
qed

theorem jobs_run_by_their_own_timers_witness:
  "\<exists>as t. path (by_exec two_exec) (started two_jobs \<lparr>now = 0, starts = []\<rparr>) as t \<and> \<not> crashed t
    \<and> count_list as (JExec 1) + 1 = count_list as (JTick 1) \<and> points t ! 1 = Running"
proof -
  let ?as = "[JBegin 0, JBegin 1, JExec 0, JTick 1, JExec 1, JTick 1, JTick 0, JCancel] :: timed jact list"
  let ?t = "\<lparr>points = [Running, Running], job_world = \<lparr>now = 2, starts = [0]\<rparr>, cancelled = True, crashed = False\<rparr>"
  have i: "1 < length two_jobs" by (simp add: two_jobs_def)
  have late: "\<not> ShouldStartImmediately (two_jobs ! 1) c" for c by (simp add: two_jobs_defs)
  note path = path_run [OF two_jobs_run]
  from jobs_run_by_their_own_timers [OF two_jobs_quiet path i] late
  have "\<not> crashed ?t \<and> count_list ?as (JExec 1) + 1 = count_list ?as (JTick 1)" by simp
  with path show ?thesis by (intro exI conjI) auto
qed

text \<open>
  Claim C34: the runner stops after the cancellation. Once the context is done, and as long as no error
  logger panics and no timer wins a \<open>select\<close> any more, the goroutines take at most
  \<open>3 * length jobs + 1\<close> steps, whatever the environment does, and when they can take none all of them
  have returned; they can get there.
\<close>

theorem runner_stops:
  assumes "\<forall>job \<in> set jobs. logs_quietly job" and "jobs \<noteq> []"
    and "path (by_exec (jexec withParams handle submit ctx jobs)) (started jobs w) as s" and "JCancel \<in> set as"
  shows "(\<forall>bs t. path (by_exec (jexec withParams handle submit ctx jobs)) s bs t \<longrightarrow> (\<forall>j. JTick j \<notin> set bs) \<longrightarrow>
       length (filter job_internal bs) \<le> 3 * length jobs + 1
       \<and> ((\<forall>b. job_internal b \<longrightarrow> jexec withParams handle submit ctx jobs t b = None) \<longrightarrow> points t = replicate (length jobs) Stopped))
    \<and> (\<exists>bs t. path (by_exec (jexec withParams handle submit ctx jobs)) s bs t \<and> (\<forall>b \<in> set bs. job_internal b)
       \<and> points t = replicate (length jobs) Stopped)"
proof -
  let ?exec = "jexec withParams handle submit ctx jobs"
  from assms(2) have "0 < length jobs" by simp
  have inv: "job_inv jobs s" using jr.inv_path [OF assms(3) job_inv_started] .
  have s: "\<not> crashed s" "cancelled s"
    using path_counts [OF assms(3,1) job_inv_started \<open>0 < length jobs\<close>] assms(4) by (simp_all add: started_def)
  have rest: "points t = replicate (length jobs) Stopped"
    if bs: "path (by_exec ?exec) s bs t" and none: "\<And>b. job_internal b \<Longrightarrow> ?exec t b = None" for bs t
  proof -
    have t: "job_inv jobs t" using jr.inv_path [OF bs inv] .
    have "\<not> crashed t" "cancelled t" using path_counts [OF bs assms(1) inv \<open>0 < length jobs\<close>] s by simp_all
    from at_rest_stopped [OF t this none] t show ?thesis
      by (simp add: job_inv_def replicate_eqI)
  qed
  from jr.comes_to_rest [OF inv, of withParams handle submit ctx] obtain bs t where
    "path (by_exec ?exec) s bs t" "\<forall>b \<in> set bs. job_internal b" "\<forall>b u. job_internal b \<longrightarrow> \<not> by_exec ?exec t b u" by blast
  moreover from this(3) have "?exec t b = None" if "job_internal b" for b
    using that by (cases "?exec t b") (auto simp: by_exec_def)
  ultimately have reach: "\<exists>bs t. path (by_exec ?exec) s bs t \<and> (\<forall>b \<in> set bs. job_internal b)
       \<and> points t = replicate (length jobs) Stopped" using rest by blast
  have bound: "length (filter job_internal bs) \<le> 3 * length jobs + 1"
    if "path (by_exec ?exec) s bs t" "\<forall>j. JTick j \<notin> set bs" for bs t
    using internal_steps_bounded [OF that] job_rank_bound [OF inv] by linarith
  from reach bound rest show ?thesis by blast
qed


theorem runner_stops_witness:
  "\<exists>as s bs t. path (by_exec two_exec) (started two_jobs \<lparr>now = 0, starts = []\<rparr>) as s \<and> JCancel \<in> set as
    \<and> path (by_exec two_exec) s bs t \<and> points t = [Stopped, Stopped]"
proof -
  have "two_jobs \<noteq> []" "length two_jobs = 2" by (simp_all add: two_jobs_def)
  from runner_stops [OF two_jobs_quiet this(1) path_run [OF two_jobs_run]] this(2) path_run [OF two_jobs_run]
  show ?thesis by (fastforce simp: numeral_2_eq_2)
qed

end
