(* ===== verification/Spec2Isabelle.thy ===== *)
theory Spec2Isabelle
  imports Queue_Threads Delayed_Queue Queue_Interface Serial_Pool Runnables Panic_Recovery
    Submitter_System Job_Runner
begin

text \<open>
  A verification development for \<open>witchcraft-go-tasks\<close>, a Go library of queues, worker pools,
  executors, runnables and periodic jobs. Its implementation is modelled from the queues up to the
  interfaces that users call.

  \<^bold>\<open>How Go is modelled.\<close> A call with effects takes the world \<open>'w\<close> and gives an outcome and the
  new world; the outcome is a return value or a panic (\<open>Prelude\<close>). An error is an option, \<open>None\<close> for
  \<open>nil\<close>; a result \<open>(R, error)\<close> is a pair. A component that several goroutines use is a machine: a
  record of its shared state and of the goroutines' program points, and a step function whose actions
  are the critical sections of the code, so that every interleaving of goroutines is a path of the
  machine; \<open>None\<close> means that the action is not enabled (the goroutine blocks). A condition variable
  is the list of parked goroutines: \<open>Signal\<close> wakes any one of them, \<open>Broadcast\<close> all
  (\<open>wake_by\<close>). A loop \<open>for {}\<close> that need not end is \<open>go_loop\<close>, whose value is \<open>None\<close> when
  it never ends. Integers are unbounded except where wrap-around is in reach: the failure counter and
  the delays of the rate limiter are 64-bit with the wrap written out, and its \<open>float64\<close> product is
  computed with the rounding of the format. Counters such as \<open>totalCount\<close> and \<open>numIndexes\<close> would
  need \<open>2^63\<close> goroutines or elements to wrap.

  \<^bold>\<open>The parts, and the theory of each.\<close>
  \<^item> \<open>Prelude\<close>: outcomes, calls, the recovery wrappers of \<open>wapp\<close> (control flow of
    \<open>fatal.go\<close>), reachability, paths, and the locales of the machines: an invariant
    (\<open>transition_invariant\<close>), a rank that internal steps lower (\<open>ranked_system\<close>), a measure in any
    well-founded order with idle steps (\<open>terminating_system\<close>, of which the former is an instance), and
    a machine inside another one (\<open>embedding\<close>).
  \<^item> \<open>Panic_Recovery\<close>: \<open>handleRecovered\<close> of \<open>fatal.go\<close>, which the wrappers of \<open>Prelude\<close> take as
    their argument \<open>handle\<close>: the trimming of the stack, the log lines, the error.
  \<^item> \<open>Go_Set\<close>: \<open>util/collections/set.go\<close>; a \<open>range\<close> over a map takes its order as an
    argument.
  \<^item> \<open>Collapsing_Queue\<close>: \<open>internal/queue/collapsing_queue.go\<close>, the fields under \<open>cond.L\<close> and
    each method's section under that lock; it refines an abstract work set (pending items, active
    items, closed) and is an instance of the locale \<open>work_queue\<close>.
  \<^item> \<open>Queue_Threads\<close>: the same methods called by any number of goroutines, with the condition
    variable: exclusive processing, no lost wake-up, the drain.
  \<^item> \<open>Rate_Limiter\<close>: \<open>internal/queue/rate_limiter.go\<close>, exponential backoff.
  \<^item> \<open>Delayed_Queue\<close>: \<open>AddAfter\<close>, \<open>AddRateLimited\<close>, timers and their callbacks, the wait
    group, and cancellation on shutdown; extends the record of \<open>Collapsing_Queue\<close>.
  \<^item> \<open>Fifo_Queue\<close>: \<open>internal/queue/queue.go\<close>, a FIFO queue made of pointers in a collapsing
    queue. \<open>Queue_Interface\<close> has the interfaces \<open>Queue\<close> and \<open>CollapsingQueue\<close> as records of methods and
    compares the two implementations.
  \<^item> \<open>Go_Functions\<close>: \<open>function/*.go\<close>, \<open>util/async\<close>, \<open>util/types\<close>.
  \<^item> \<open>Computing_Future\<close>: \<open>internal/futures/computing_future.go\<close>.
  \<^item> \<open>Worker_Pool\<close>: \<open>workerpool/supplier_workerpool.go\<close> and \<open>options.go\<close>: the machine of
    submissions and workers over \<open>Fifo_Queue\<close> and \<open>Computing_Future\<close>, its invariants and its
    rank; \<open>Pool_Service\<close> draws the properties from them; \<open>Pool_Client\<close> makes \<open>Submit\<close> and
    \<open>Get\<close> calls under a scheduler and states the contract of a pool (locale \<open>supplier_pool\<close>);
    \<open>Pool_Wrappers\<close> has \<open>SubmitWithCallback\<close> and the runnable, function and consumer pools.
  \<^item> \<open>Executors\<close>: \<open>executor/supplier_executor.go\<close>, \<open>runnable_executor.go\<close> and the keyed
    executors, proved over the contract of the pool (locale \<open>result_pool\<close>) and instantiated with
    the model of the pool. \<open>Executor_Interface\<close> has the interfaces of \<open>workerpool/api.go\<close> and of the
    executors as records of methods, and the constructors \<open>NewDefault...\<close> that put pools and
    executors together, so that a client reaches a pool only through its futures. \<open>Serial_Pool\<close>
    compares an executor over a new pool with running the suppliers one after the other.
  \<^item> \<open>Parallel_For\<close>: \<open>parallel/for.go\<close> with the part of \<open>errgroup\<close> it uses.
  \<^item> \<open>Runnables\<close>: \<open>runnable/*.go\<close>.
  \<^item> \<open>Item_Submitter\<close>: \<open>executor/item_submitter.go\<close> and its options, a machine that embeds that of
    \<open>Delayed_Queue\<close>; a task goes through stages, one for each call its callback makes.
    \<open>Submitter_Task\<close> has the callback as the code writes it, wrapped by the pools and run by
    \<open>Compute\<close>, and proves that its run is a run of the stages. \<open>Submitter_Progress\<close> gives the
    machine a rank while consumers do not fail, \<open>Retry_Progress\<close> a lexicographic measure for
    limited retries, whatever the consumers do. \<open>Submitter_System\<close> composes the submitter with the
    machine of the worker pool it runs on.
  \<^item> \<open>Jobs\<close>: \<open>jobs/*.go\<close>, a job's goroutine as a function; \<open>Job_Runner\<close>: the goroutines of
    \<open>StartJobs\<close> as a machine, of which that function is a run.

  \<^bold>\<open>What the properties show.\<close>
  \<^item> Queues: an item is processed by one goroutine at a time, a getter never sleeps while work waits
    unless a woken one is on its way, delayed additions keep the earliest deadline and are not
    forgotten, no timer survives a shutdown, and the FIFO queue neither loses, duplicates nor reorders;
    for values added once a client cannot tell the two queues apart.
  \<^item> Futures and pools: a future is assigned once; every accepted task is handed out once, in order,
    and computed once; the number of workers stays within the limit; left alone the pool finishes, with
    results that are those of the suppliers.
  \<^item> Executors: results and errors in the order of the input, one for each supplier, whatever the
    schedule, also when calls go through the interfaces to a pool fresh from its constructor; for a client that
    has the pool to itself the results and the world are those of a sequential run in some order, and
    in the order of the input when the pool has one worker.
  \<^item> Parallel loops and runnables: each index once, \<open>nil\<close> exactly if every call returned \<open>nil\<close>,
    termination, and the effect of a sequential loop, in some order of the indices with many workers and
    in ascending order with one; the first failure ends a sequential
    runnable; what wrappers do to results and panics; what a timeout can return.
  \<^item> Item submitter: exclusive processing, the retry cycle and its delays; with limited retries the
    work ends whatever the consumers return, alone and over a worker pool of any size, with nothing
    left but what a panicking consumer blocked; over the pool no more items are in process than it has
    workers.
  \<^item> Recovery: a panic is logged and becomes a non-nil error, and the handler that does so stays
    within the slices it trims.
  \<^item> Jobs: when their executions start; any number of them run side by side, each by its own timer,
    whatever the others return or panic, and all end when, and only when, the context is done.
  \<^item> Limits of the code: the properties named for errors show behaviour that a comment of the code
    does not say or that is a defect (a second drainer is never woken, a panic of a consumer blocks its
    item, and so does a pool that has shut down, a panic under a timeout ends the process). Further theorems of this kind are not among the
    numbered claims: \<open>drain_does_not_wait_for_queue\<close>, \<open>When_overflow_edge\<close>,
    \<open>submission_race_leaves_task_waiting\<close>, \<open>late_submission_never_completes\<close>,
    \<open>ResolveUntilError_returns_early\<close>, \<open>for_error_not_first\<close>, \<open>wrappers_last_outermost\<close>.

  \<^bold>\<open>Bounds and fuel.\<close> Fuel appears only where a scheduler drives a machine: \<open>drive\<close> of
    \<open>Pool_Client\<close> has the rank \<open>pool_rank\<close> of the state as fuel, \<open>for_drive\<close> of
    \<open>Parallel_For\<close> has \<open>2 * numIndexes + numWorkers\<close>. Every internal step lowers the rank, so
    that neither ever runs out, and both are proved to reach the end (\<open>drive_stops\<close>,
    \<open>for_drive_finishes\<close>). \<open>limited_retries_terminate\<close> and \<open>system_completes\<close> ask that the limit of
    requeues, the tasks and the work in the submitter (\<open>tokens\<close>) add up to less than \<open>2^63\<close>, so that
    the limiter's counter does not wrap.

  \<^bold>\<open>Granularity.\<close> A callback of the user (a supplier, a runnable, a consumer) runs in one step, in
  the world it finds; what other goroutines do to the world in the meantime is the step before or
  after it that changes the world arbitrarily (\<open>PEnv\<close>, \<open>FWorld\<close>, \<open>VWorld\<close>, \<open>TWorld\<close>). In
  \<open>Submitter_System\<close> the callback of a task is not one step: its stages interleave with everything
  else while a worker is in \<open>Compute\<close>, so that the supplier the pool calls has nothing left to do. A
  callback that never returns is a step that is never taken. The two loops that are not machines
  (\<open>WhileChanNotClosed\<close>, \<open>Periodically\<close>) and the loop of a job observe the channels through an
  argument that may answer anything, depending on the world.

  \<^bold>\<open>Not modelled.\<close> Metrics, spans and informational log lines of the pool, the submitter and the
  job runner have no effect on the control flow and are left out, except that the metrics calls of
  the pool, made only when tags are configured, may panic. The parser and printer of goroutine dumps
  and the error constructors that \<open>wapp\<close> calls, the service logger, the health source, contexts, timers and channels of the runtime, \<open>errgroup\<close> beyond
  \<open>Go\<close> and \<open>Wait\<close>, and the metrics client are not code of this repository; they are arguments or
  choices of the environment. \<open>internal/testcontext\<close> builds a context for tests and has no logic.
  Memory effects below the level of critical sections (data races, garbage collection) are outside the
  model; every shared field is guarded by the lock of its component or is atomic.
\<close>

end
